(* ===== verification/Prelude.thy ===== *)
theory Prelude
  imports Main "HOL-Library.AList"
begin

section \<open>Prelude: Go maps, runs of machines, shared automation\<close>

text \<open>
  Shared by every component of the development:
  \<^item> Go maps whose length is taken or whose entries are ranged over are association lists
    without duplicate keys (\<open>gomap\<close>); Go leaves the iteration order of a map open, here it
    is the order of the list. Maps that the code only looks up, stores into and deletes
    from are HOL maps.
  \<^item> \<open>run\<close>: a machine given by a partial step function, run over a list of events.
  \<^item> the locale \<open>invariant_machine\<close>: what every component that serves a channel of requests
    has in common. Its state satisfies an invariant at the start and every step keeps it,
    so every state that a run reaches satisfies it.
  \<^item> the locale \<open>refining_machine\<close>: a machine with replies that implements a simpler one,
    step by step and so run by run.
\<close>

named_theorems go_map \<open>lookup, length and key facts of Go maps\<close>
named_theorems handler \<open>definitions of handlers, unfolded together in a case analysis\<close>

subsection \<open>Go maps as association lists\<close>

type_synonym ('k, 'v) gomap = "('k \<times> 'v) list"

abbreviation gget :: "('k, 'v) gomap \<Rightarrow> 'k \<Rightarrow> 'v option" where
  "gget m k \<equiv> map_of m k"

abbreviation gput :: "'k \<Rightarrow> 'v \<Rightarrow> ('k, 'v) gomap \<Rightarrow> ('k, 'v) gomap" where
  "gput k v m \<equiv> AList.update k v m"

abbreviation gdel :: "'k \<Rightarrow> ('k, 'v) gomap \<Rightarrow> ('k, 'v) gomap" where
  "gdel k m \<equiv> AList.delete k m"

abbreviation gkeys :: "('k, 'v) gomap \<Rightarrow> 'k list" where
  "gkeys m \<equiv> map fst m"

definition gmap_ok :: "('k, 'v) gomap \<Rightarrow> bool" where
  "gmap_ok m \<longleftrightarrow> distinct (gkeys m)"

lemma gmap_ok_Nil [simp]: "gmap_ok []"
  by (simp add: gmap_ok_def)

lemma gmap_ok_gput [simp]: "gmap_ok m \<Longrightarrow> gmap_ok (gput k v m)"
  by (simp add: gmap_ok_def distinct_update)

lemma gmap_ok_gdel [simp]: "gmap_ok m \<Longrightarrow> gmap_ok (gdel k m)"
  by (simp add: gmap_ok_def distinct_delete)

lemma gget_gput [go_map, simp]: "gget (gput k v m) k' = (if k' = k then Some v else gget m k')"
  by (simp add: update_conv)

lemma gget_gdel [go_map, simp]: "gget (gdel k m) k' = (if k' = k then None else gget m k')"
  by (simp add: delete_conv')

lemma gkeys_gput [go_map, simp]: "fst ` set (gput k v m) = insert k (fst ` set m)"
  by (simp add: dom_update)

lemma gget_None_iff [go_map]: "gget m k = None \<longleftrightarrow> k \<notin> set (gkeys m)"
  by (simp add: map_of_eq_None_iff)

lemma gmap_ok_length [go_map]: "gmap_ok m \<Longrightarrow> length m = card (dom (gget m))"
  by (metis distinct_card dom_map_of_conv_image_fst gmap_ok_def length_map list.set_map)

lemma length_gput [go_map]:
  "length (gput k v m) = (if k \<in> set (gkeys m) then length m else Suc (length m))"
  by (induction m) auto

subsection \<open>First occurrences\<close>

text \<open>The elements of a list without the ones already seen, each at its first occurrence.\<close>

fun firsts :: "'a set \<Rightarrow> 'a list \<Rightarrow> 'a list" where
  "firsts S [] = []"
| "firsts S (x # xs) = (if x \<in> S then firsts S xs else x # firsts (insert x S) xs)"

lemma firsts_append: "firsts S (xs @ ys) = firsts S xs @ firsts (S \<union> set xs) ys"
  by (induction xs arbitrary: S) (auto simp: insert_absorb)

lemma set_firsts: "set (firsts S xs) = set xs - S"
  by (induction xs arbitrary: S) auto

lemma distinct_firsts: "distinct (firsts S xs)"
  by (induction xs arbitrary: S) (auto simp: set_firsts)

subsection \<open>Running a machine\<close>

text \<open>
  A step returns \<open>None\<close> where the event is not enabled or the process panics; a run stops
  there.
\<close>

fun run :: "('s \<Rightarrow> 'e \<Rightarrow> 's option) \<Rightarrow> 's \<Rightarrow> 'e list \<Rightarrow> 's option" where
  "run step s [] = Some s"
| "run step s (e # es) = (case step s e of None \<Rightarrow> None | Some t \<Rightarrow> run step t es)"

lemma run_append:
  "run step s (es @ fs) = (case run step s es of None \<Rightarrow> None | Some t \<Rightarrow> run step t fs)"
  by (induction es arbitrary: s) (auto split: option.splits)

locale invariant_machine =
  fixes start :: "'s \<Rightarrow> bool"
    and step :: "'s \<Rightarrow> 'e \<Rightarrow> 's option"
    and inv :: "'s \<Rightarrow> bool"
  assumes inv_start: "start s \<Longrightarrow> inv s"
    and inv_step: "inv s \<Longrightarrow> step s e = Some t \<Longrightarrow> inv t"
begin

lemma inv_run_from: "inv s \<Longrightarrow> run step s es = Some t \<Longrightarrow> inv t"
  by (induction es arbitrary: s) (auto split: option.splits intro: inv_step)

lemma inv_run: "start s \<Longrightarrow> run step s es = Some t \<Longrightarrow> inv t"
  by (blast intro: inv_start inv_run_from)

end

subsection \<open>Machines with replies\<close>

text \<open>A step returns a reply; a run collects them.\<close>

fun run_out :: "('s \<Rightarrow> 'e \<Rightarrow> ('r \<times> 's) option) \<Rightarrow> 's \<Rightarrow> 'e list \<Rightarrow> ('r list \<times> 's) option" where
  "run_out step s [] = Some ([], s)"
| "run_out step s (e # es) =
     (case step s e of
        None \<Rightarrow> None
      | Some (r, s1) \<Rightarrow> map_option (\<lambda>(rs, s2). (r # rs, s2)) (run_out step s1 es))"

text \<open>
  A machine implements another one if each of its steps gives the reply of the other and leaves
  a state that stands for the other's; then so does every run.
\<close>

definition implements ::
  "('s \<Rightarrow> bool) \<Rightarrow> ('s \<Rightarrow> 'd) \<Rightarrow> ('r \<times> 's) option \<Rightarrow> ('r \<times> 'd) option \<Rightarrow> bool" where
  "implements good stands_for result spec \<longleftrightarrow>
     (case result of None \<Rightarrow> spec = None | Some (r, s) \<Rightarrow> good s \<and> spec = Some (r, stands_for s))"

locale refining_machine =
  fixes step :: "'s \<Rightarrow> 'e \<Rightarrow> ('r \<times> 's) option"
    and spec :: "'d \<Rightarrow> 'e \<Rightarrow> ('r \<times> 'd) option"
    and inv :: "'s \<Rightarrow> bool"
    and abs :: "'s \<Rightarrow> 'd"
  assumes step_implements: "inv s \<Longrightarrow> implements inv abs (step s e) (spec (abs s) e)"
begin

lemma run_implements: "inv s \<Longrightarrow> implements inv abs (run_out step s es) (run_out spec (abs s) es)"
proof (induction es arbitrary: s)
  case Nil
  then show ?case by (simp add: implements_def)
next
  case (Cons e es)
  show ?case
  proof (cases "step s e")
    case None
    with step_implements [OF Cons.prems, of e] show ?thesis by (simp add: implements_def)
  next
    case (Some p)
    obtain r s1 where p: "p = (r, s1)" by (cases p)
    with Some step_implements [OF Cons.prems, of e] have s1: "inv s1" "spec (abs s) e = Some (r, abs s1)"
      by (simp_all add: implements_def)
    from Cons.IH [OF s1(1)] show ?thesis
      using Some p s1(2) by (auto simp: implements_def split: option.splits)
  qed
qed

lemma run_some: "inv s \<Longrightarrow> run_out spec (abs s) es = Some (rs, d) \<Longrightarrow>
    \<exists>s1. run_out step s es = Some (rs, s1) \<and> inv s1 \<and> abs s1 = d"
  using run_implements [of s es] by (auto simp: implements_def split: option.splits)

end

end
