(* ===== verification/Go_Strings.thy ===== *)
theory Go_Strings
  imports Prelude "HOL-Library.Sublist"
begin

section \<open>The Go string functions the code uses\<close>

text \<open>
  \<open>strings.Split\<close>, \<open>strconv.Itoa\<close>, \<open>strconv.Atoi\<close> and joining with a separator, on
  strings as lists of bytes. All calls of \<open>strings.Split\<close> in the code pass a constant,
  non-empty separator (@, :, ;, - and two dollar signs). The lemmas give the round trips the
  protocols rest on: what was joined with a separator that does not occur in the parts is
  split into the parts again, and a number printed by \<open>Itoa\<close> is read back by \<open>Atoi\<close>.
\<close>

subsection \<open>strings.Split\<close>

function split_acc :: "string \<Rightarrow> string \<Rightarrow> string \<Rightarrow> string list" where
  "split_acc sep acc [] = [rev acc]"
| "split_acc sep acc (c # cs) =
     (if sep \<noteq> [] \<and> take (length sep) (c # cs) = sep
      then rev acc # split_acc sep [] (drop (length sep) (c # cs))
      else split_acc sep (c # acc) cs)"
  by pat_completeness auto
termination
  by (relation "measure (\<lambda>(sep, acc, s). length s)") auto

definition strings_Split :: "string \<Rightarrow> string \<Rightarrow> string list" where
  "strings_Split s sep = split_acc sep [] s"

lemma split_acc_no_hd: "hd sep \<notin> set s \<Longrightarrow> sep \<noteq> [] \<Longrightarrow> split_acc sep acc s = [rev acc @ s]"
proof (induction s arbitrary: acc)
  case Nil
  then show ?case by simp
next
  case (Cons c cs)
  have "take (length sep) (c # cs) \<noteq> sep"
    using Cons.prems by (cases sep) auto
  with Cons show ?case by simp
qed

lemma split_acc_part:
  "hd sep \<notin> set x \<Longrightarrow> sep \<noteq> [] \<Longrightarrow>
     split_acc sep acc (x @ sep @ y) = (rev acc @ x) # split_acc sep [] y"
proof (induction x arbitrary: acc)
  case Nil
  then show ?case by (cases sep) auto
next
  case (Cons c cs)
  have "take (length sep) (c # cs @ sep @ y) \<noteq> sep"
    using Cons.prems by (cases sep) auto
  with Cons show ?case by simp
qed

lemma split_acc_nonempty: "split_acc sep acc s \<noteq> []"
  by (induction sep acc s rule: split_acc.induct) auto

lemma Split_nonempty [simp]: "strings_Split s sep \<noteq> []"
  by (simp add: strings_Split_def split_acc_nonempty)

lemma Split_whole: "sep \<noteq> [] \<Longrightarrow> hd sep \<notin> set s \<Longrightarrow> strings_Split s sep = [s]"
  by (simp add: strings_Split_def split_acc_no_hd)

lemma Split_part:
  "sep \<noteq> [] \<Longrightarrow> hd sep \<notin> set x \<Longrightarrow> strings_Split (x @ sep @ y) sep = x # strings_Split y sep"
  by (simp add: strings_Split_def split_acc_part)

lemma Split_char_whole: "c \<notin> set s \<Longrightarrow> strings_Split s [c] = [s]"
  by (simp add: Split_whole)

lemma Split_char_part: "c \<notin> set x \<Longrightarrow> strings_Split (x @ c # y) [c] = x # strings_Split y [c]"
  using Split_part [of "[c]" x y] by simp

text \<open>The first part is the whole string exactly when the separator does not occur in it.\<close>

lemma split_acc_whole:
  assumes "sep \<noteq> []"
  shows "if sublist sep s then length (hd (split_acc sep acc s)) < length acc + length s
    else split_acc sep acc s = [rev acc @ s]"
  using assms
proof (induction sep acc s rule: split_acc.induct)
  case (1 sep acc)
  then show ?case by simp
next
  case (2 sep acc c cs)
  have pre: "take (length sep) (c # cs) = sep \<longleftrightarrow> prefix sep (c # cs)"
    by (metis append_take_drop_id prefixI prefix_def append_eq_conv_conj)
  show ?case
  proof (cases "take (length sep) (c # cs) = sep")
    case True
    with 2(3) pre show ?thesis by (simp add: sublist_Cons_right)
  next
    case False
    with 2 pre show ?thesis by (simp add: sublist_Cons_right split: if_splits)
  qed
qed

lemma hd_Split_whole: "sep \<noteq> [] \<Longrightarrow> hd (strings_Split s sep) = s \<longleftrightarrow> \<not> sublist sep s"
  using split_acc_whole [of sep s "[]"] by (auto simp: strings_Split_def split: if_splits)

subsection \<open>Joining\<close>

text \<open>
  The code builds lists by appending the separator and the next part to what it has so far.
\<close>

fun join :: "string \<Rightarrow> string list \<Rightarrow> string" where
  "join sep [] = []"
| "join sep [x] = x"
| "join sep (x # y # ys) = x @ sep @ join sep (y # ys)"

lemma join_snoc: "xs \<noteq> [] \<Longrightarrow> join sep (xs @ [x]) = join sep xs @ sep @ x"
  by (induction sep xs rule: join.induct) auto

lemma Split_join:
  "sep \<noteq> [] \<Longrightarrow> xs \<noteq> [] \<Longrightarrow> \<forall>x \<in> set xs. hd sep \<notin> set x \<Longrightarrow> strings_Split (join sep xs) sep = xs"
  by (induction sep xs rule: join.induct) (simp_all add: Split_whole Split_part)

subsection \<open>strconv.Itoa and strconv.Atoi\<close>

definition digit :: "nat \<Rightarrow> char" where
  "digit n = char_of (48 + n)"

fun itoa_nat :: "nat \<Rightarrow> string" where
  "itoa_nat n = (if n < 10 then [digit n] else itoa_nat (n div 10) @ [digit (n mod 10)])"

declare itoa_nat.simps [simp del]

definition Itoa :: "int \<Rightarrow> string" where
  "Itoa i = (if i < 0 then CHR ''-'' # itoa_nat (nat (- i)) else itoa_nat (nat i))"

definition is_digit :: "char \<Rightarrow> bool" where
  "is_digit c \<longleftrightarrow> 48 \<le> (of_char c :: nat) \<and> (of_char c :: nat) < 58"

definition digit_val :: "char \<Rightarrow> nat" where
  "digit_val c = of_char c - 48"

definition atoi_nat :: "string \<Rightarrow> nat" where
  "atoi_nat s = foldl (\<lambda>a c. 10 * a + digit_val c) 0 s"

text \<open>\<open>Atoi\<close> returns an error (\<open>None\<close>) for anything but an optional sign and digits.\<close>

definition Atoi :: "string \<Rightarrow> int option" where
  "Atoi s =
     (case s of
        [] \<Rightarrow> None
      | c # cs \<Rightarrow>
          (let ds = (if c = CHR ''-'' \<or> c = CHR ''+'' then cs else s) in
           if ds = [] \<or> \<not> list_all is_digit ds then None
           else Some (if c = CHR ''-'' then - int (atoi_nat ds) else int (atoi_nat ds))))"

lemma of_char_digit: "n < 10 \<Longrightarrow> of_char (digit n) = (48 + n :: nat)"
  by (simp add: digit_def)

lemma is_digit_digit: "n < 10 \<Longrightarrow> is_digit (digit n)"
  by (simp add: is_digit_def of_char_digit)

lemma digit_val_digit: "n < 10 \<Longrightarrow> digit_val (digit n) = n"
  by (simp add: digit_val_def of_char_digit)

lemma itoa_nat_nonempty [simp]: "itoa_nat n \<noteq> []"
  by (subst itoa_nat.simps) simp

lemma itoa_nat_digits: "c \<in> set (itoa_nat n) \<Longrightarrow> is_digit c"
proof (induction n rule: itoa_nat.induct)
  case (1 n)
  then show ?case
    by (subst (asm) (2) itoa_nat.simps) (auto split: if_splits simp: is_digit_digit)
qed

lemma itoa_nat_all_digits [simp]: "list_all is_digit (itoa_nat n)"
  by (auto simp: list_all_iff dest: itoa_nat_digits)

lemma atoi_itoa_nat: "atoi_nat (itoa_nat n) = n"
proof (induction n rule: itoa_nat.induct)
  case (1 n)
  show ?case
  proof (cases "n < 10")
    case True
    then show ?thesis
      by (subst itoa_nat.simps) (simp add: atoi_nat_def digit_val_digit)
  next
    case False
    with 1 show ?thesis
      by (subst itoa_nat.simps) (simp add: atoi_nat_def digit_val_digit)
  qed
qed

lemma is_digit_simps [simp]:
  "\<not> is_digit (CHR ''-'')" "\<not> is_digit (CHR ''+'')" "\<not> is_digit (CHR ''$'')"
  "\<not> is_digit (CHR ''@'')"
  by (simp_all add: is_digit_def)

lemma Itoa_chars: "c \<in> set (Itoa i) \<Longrightarrow> is_digit c \<or> c = CHR ''-''"
  by (auto simp: Itoa_def itoa_nat_digits split: if_splits)

lemma Itoa_no_sep [simp]: "CHR ''$'' \<notin> set (Itoa i)" "CHR ''@'' \<notin> set (Itoa i)"
  using Itoa_chars is_digit_simps by fastforce+

lemma Itoa_nonempty [simp]: "Itoa i \<noteq> []"
  by (simp add: Itoa_def)

lemma Atoi_digits: "s \<noteq> [] \<Longrightarrow> list_all is_digit s \<Longrightarrow> Atoi s = Some (int (atoi_nat s))"
  by (cases s) (auto simp: Atoi_def Let_def)

lemma Atoi_neg_digits:
  "s \<noteq> [] \<Longrightarrow> list_all is_digit s \<Longrightarrow> Atoi (CHR ''-'' # s) = Some (- int (atoi_nat s))"
  by (simp add: Atoi_def Let_def)

lemma Atoi_Itoa: "Atoi (Itoa i) = Some i"
  by (simp add: Itoa_def Atoi_digits Atoi_neg_digits atoi_itoa_nat)

lemma Itoa_inject [simp]: "Itoa i = Itoa j \<longleftrightarrow> i = j"
  by (metis Atoi_Itoa option.inject)

end
