(* ===== verification/Protos.thy ===== *)
theory Protos
  imports Go_Strings
begin

section \<open>Messages of the airline and transaction protocols\<close>

text \<open>
  contrib/airlineproto, official/transaction, contrib/tranlayerproto and the flight
  identifiers of official/tribproto. A flight identifier is the airline, a dash and a
  number unique within the airline; the airline is read back as the part before the first
  dash. Votes and decisions travel as integers in fields whose other values the code also
  compares, so they stay integers here.
\<close>

subsection \<open>Go's integers\<close>

text \<open>
  An \<open>int\<close> has 64 bits on the machines of today (Go leaves it open, and had 32 at first) and
  wraps around: \<open>go_int\<close> is what is stored of a result. The number of free slots, the one field
  that is computed and stored, is written with it.
\<close>

definition go_int :: "int \<Rightarrow> int" where
  "go_int x = (x + 2 ^ 63) mod 2 ^ 64 - 2 ^ 63"

definition is_int :: "int \<Rightarrow> bool" where
  "is_int x \<longleftrightarrow> - (2 ^ 63) \<le> x \<and> x < 2 ^ 63"

lemma is_int_go_int [simp]: "is_int (go_int x)"
  by (simp add: is_int_def go_int_def)

lemma go_int_id: "is_int x \<Longrightarrow> go_int x = x"
  by (simp add: is_int_def go_int_def)

lemma go_int_idem [simp]: "go_int (go_int x) = go_int x"
  by (simp add: go_int_id)

lemma go_int_cong: "go_int x = go_int y \<longleftrightarrow> x mod 2 ^ 64 = y mod 2 ^ 64"
  by (simp add: go_int_def mod_eq_dvd_iff)

lemma go_int_mod: "go_int x mod 2 ^ 64 = x mod 2 ^ 64"
  using go_int_cong [of "go_int x" x] by simp

lemma go_int_diff [simp]: "go_int (go_int x - y) = go_int (x - y)" "go_int (x - go_int y) = go_int (x - y)"
  unfolding go_int_cong by (metis go_int_mod mod_diff_left_eq) (metis go_int_mod mod_diff_right_eq)

subsection \<open>transaction.go\<close>

datatype tran_type = TRANS_INIT | TRANS_RESPONSE | TRANS_OLD | TRANS_OLD_RESPONSE

definition NOT_DECIDED :: int where "NOT_DECIDED = 0"
definition T_COMMIT :: int where "T_COMMIT = 1"
definition T_ABORT :: int where "T_ABORT = 2"

lemmas decisions = NOT_DECIDED_def T_COMMIT_def T_ABORT_def

lemma decisions_distinct [simp]:
  "NOT_DECIDED \<noteq> T_COMMIT" "T_COMMIT \<noteq> NOT_DECIDED" "NOT_DECIDED \<noteq> T_ABORT" "T_ABORT \<noteq> NOT_DECIDED"
  "T_COMMIT \<noteq> T_ABORT" "T_ABORT \<noteq> T_COMMIT"
  by (simp_all add: decisions)

subsection \<open>airlineproto.go\<close>

datatype airline_status = A_OK | EFLIGHTNOTFOUND | ETRANSFAIL | EFLIGHTEXISTS

record FlightInfo =
  fi_ID :: string
  fi_Departure :: string
  fi_From :: string
  fi_To :: string
  fi_Capacity :: int
  fi_Slot :: int
  fi_Cost :: int

definition zero_FlightInfo :: FlightInfo where
  "zero_FlightInfo = \<lparr>fi_ID = '''', fi_Departure = '''', fi_From = '''', fi_To = '''',
     fi_Capacity = 0, fi_Slot = 0, fi_Cost = 0\<rparr>"

record TranArgs =
  ta_TranType :: tran_type
  ta_TranID :: string
  ta_FlightID :: string
  ta_Amount :: int
  ta_PptList :: "string list"
  ta_Vote :: int
  ta_TM :: string

text \<open>The status code \<open>airlineproto.OK\<close> as it is stored in \<open>TranReply.Status\<close>.\<close>

definition airlineproto_OK :: int where
  "airlineproto_OK = 0"

record GetReply =
  gr_Status :: airline_status
  gr_FlightInfo :: FlightInfo

record GetAllReply =
  gar_Status :: airline_status
  gar_FlightIDs :: "string list"

subsection \<open>tranlayerproto.go\<close>

record Order =
  o_AirlineID :: string
  o_FlightID :: string
  o_Amount :: int

subsection \<open>Flight identifiers (tribproto.go)\<close>

definition SEPD :: string where
  "SEPD = ''-''"

definition GetAirlineFromFlightId :: "string \<Rightarrow> string" where
  "GetAirlineFromFlightId s = strings_Split s SEPD ! 0"

definition GetNewFlightId :: "string \<Rightarrow> string \<Rightarrow> string" where
  "GetNewFlightId airline uniqueid = airline @ SEPD @ uniqueid"

lemma GetAirlineFromFlightId_hd: "GetAirlineFromFlightId s = hd (strings_Split s SEPD)"
  by (simp add: GetAirlineFromFlightId_def hd_conv_nth)

text \<open>The airline of a flight identifier made for an airline is that airline, whenever
  the airline's name has no dash.\<close>

theorem flight_id_airline:
  "CHR ''-'' \<notin> set airline \<Longrightarrow> GetAirlineFromFlightId (GetNewFlightId airline u) = airline"
  by (simp add: GetAirlineFromFlightId_hd GetNewFlightId_def SEPD_def Split_char_part)

theorem flight_id_airline_witness: "GetAirlineFromFlightId (GetNewFlightId ''UA'' ''12-3'') = ''UA''"
  by (rule flight_id_airline) simp

end
