(* ===== verification/Airline.thy ===== *)
theory Airline
  imports Protos
begin

section \<open>The airline server (contrib/airlineimpl/airlineimpl.go, participant.go)\<close>

text \<open>
  \<open>storeHandler\<close> is the goroutine that owns the flights, the locks and the transaction logs
  and serves one request at a time; it is modelled as a function from a state and a request
  to the new state and the effects. \<open>None\<close> is a handler that does not come back: a panic, or
  a send on the channel the handler itself reads. A transaction log is a buffer of the
  package bufi; here it is the list of its contents, which the buffer refines
  (theory Bufi). Flight records are shared by reference only inside \<open>flightBuf\<close>, one entry
  per flight, so they are values.

  The lemmas show that what a log says (old and new number of slots) is the truth until the
  transaction is decided, because of the locks; hence a commit takes exactly the booked
  seats, an abort takes none, and no flight is overbooked as long as the numbers fit. The number
  of free slots is a Go \<open>int\<close>: the difference that goes into a log wraps around (\<open>go_int\<close>).
\<close>

subsection \<open>State and requests\<close>

datatype req_type = CREATE_FLIGHT | GET_FLIGHT | GET_ALL_FLIGHTS | PUT_LEASE | INIT_TRANS
  | REQ_TRANS_RESPONSE | TRANS_EXPIRED | REQ_TRANS_OLD | REQ_TRANS_OLD_RESPONSE | PAXOS_REQUEST

datatype log_type = START | UPDATE | END

record transLog =
  logType :: log_type
  transID :: string
  log_flightID :: string
  log_old :: int
  log_new :: int
  log_pptList :: "string list"
  log_tm :: string

text \<open>The dynamic values of \<open>interface{}\<close> fields and channels.\<close>

datatype req_value = VNil | VInfo FlightInfo | VArgs TranArgs | VInt int

datatype reply_value = RBool bool | RInfo "FlightInfo option" | RList "string list" | RInt int

record Request =
  reqType :: req_type
  req_key :: string
  req_val :: req_value
  replyc :: "nat option"
  own :: bool

abbreviation mk_request :: "req_type \<Rightarrow> string \<Rightarrow> req_value \<Rightarrow> nat option \<Rightarrow> bool \<Rightarrow> Request" where
  "mk_request t k v c b \<equiv> \<lparr>reqType = t, req_key = k, req_val = v, replyc = c, own = b\<rparr>"

record AirlineServer =
  cmdNO :: int
  airlineID :: string
  myhostport :: string
  logBuf :: "string \<rightharpoonup> transLog list"
  flightBuf :: "string \<rightharpoonup> FlightInfo"
  flightQueryBuf :: "string \<rightharpoonup> string"
  lockBuf :: "string \<rightharpoonup> bool"
  oldLog :: "string \<rightharpoonup> int"
  oldReplycMap :: "int \<rightharpoonup> nat option"

text \<open>
  What the handler does to the outside: a value sent on a channel, a command proposed to
  Paxos, the remote call \<open>TranRPC.TransResponse\<close> at a transaction manager, the expiry timer
  of a transaction started.
\<close>

datatype air_effect = Send nat reply_value | ProposeCmd string | CallTM string TranArgs | Timer string

definition NewAirlineServer :: "string \<Rightarrow> string \<Rightarrow> AirlineServer" where
  "NewAirlineServer aid host =
     \<lparr>cmdNO = 0, airlineID = aid, myhostport = host, logBuf = Map.empty, flightBuf = Map.empty,
      flightQueryBuf = Map.empty, lockBuf = Map.empty, oldLog = Map.empty, oldReplycMap = Map.empty\<rparr>"

subsection \<open>Local functions\<close>

definition SEP :: string where "SEP = '':''"
definition FLIGHTID_SEP :: string where "FLIGHTID_SEP = '';''"

definition getAllFlightsKey :: "string \<Rightarrow> string \<Rightarrow> string \<Rightarrow> string" where
  "getAllFlightsKey from to date = from @ SEP @ to @ SEP @ date"

definition getFlightInfo :: "AirlineServer \<Rightarrow> string \<Rightarrow> FlightInfo option" where
  "getFlightInfo s key = flightBuf s key"

definition getFlightLock :: "AirlineServer \<Rightarrow> string \<Rightarrow> AirlineServer \<times> bool" where
  "getFlightLock s key =
     (if lockBuf s key \<noteq> None then (s, False)
      else (s\<lparr>lockBuf := (lockBuf s)(key \<mapsto> True)\<rparr>, True))"

text \<open>A send; on a nil channel it blocks for ever.\<close>

definition send :: "nat option \<Rightarrow> reply_value \<Rightarrow> air_effect list option" where
  "send c v = map_option (\<lambda>ch. [Send ch v]) c"

subsection \<open>The participant of a transaction\<close>

text \<open>
  The loop of \<open>initTrans\<close>: lock and log one flight after the other, stop at the first that
  does not exist, has too few slots or is locked.
\<close>

fun lock_flights ::
  "TranArgs \<Rightarrow> string list \<Rightarrow> AirlineServer \<Rightarrow> transLog list \<Rightarrow> AirlineServer \<times> transLog list \<times> int" where
  "lock_flights args [] s logs = (s, logs, T_COMMIT)"
| "lock_flights args (f # fs) s logs =
     (case getFlightInfo s f of
        None \<Rightarrow> (s, logs, T_ABORT)
      | Some info \<Rightarrow>
          if fi_Slot info < ta_Amount args then (s, logs, T_ABORT)
          else
            (case getFlightLock s f of (s1, got) \<Rightarrow>
               if \<not> got then (s1, logs, T_ABORT)
               else lock_flights args fs s1
                 (logs @ [\<lparr>logType = UPDATE, transID = ta_TranID args, log_flightID = f,
                           log_old = fi_Slot info, log_new = go_int (fi_Slot info - ta_Amount args),
                           log_pptList = ta_PptList args, log_tm = ta_TM args\<rparr>])))"

text \<open>\<open>dial\<close> tells whether a connection to the transaction manager can be opened.\<close>

definition initTrans ::
  "(string \<Rightarrow> bool) \<Rightarrow> AirlineServer \<Rightarrow> Request \<Rightarrow> (AirlineServer \<times> air_effect list) option" where
  "initTrans dial s request =
     (case req_val request of
        VArgs args \<Rightarrow>
          (let flightIDs = strings_Split (ta_FlightID args) '':'';
               (s1, logList, decision) = lock_flights args flightIDs s [] in
           if \<not> dial (ta_TM args) then Some (s1, [])
           else
             (let vote = (if own request
                          then [CallTM (ta_TM args)
                                 \<lparr>ta_TranType = TRANS_RESPONSE, ta_TranID = ta_TranID args,
                                  ta_FlightID = ta_FlightID args, ta_Amount = 0, ta_PptList = [],
                                  ta_Vote = decision, ta_TM = myhostport s1\<rparr>]
                          else []) in
              if decision = T_COMMIT
              then Some (s1\<lparr>logBuf := (logBuf s1)(ta_TranID args \<mapsto> logList)\<rparr>,
                         vote @ [Timer (ta_TranID args)])
              else Some (s1, vote)))
      | _ \<Rightarrow> None)"

text \<open>The two loops over a log; \<open>info.Slot = log.new\<close> dereferences nil for a missing flight.\<close>

fun commit_logs :: "AirlineServer \<Rightarrow> transLog list \<Rightarrow> AirlineServer option" where
  "commit_logs s [] = Some s"
| "commit_logs s (l # ls) =
     (case getFlightInfo s (log_flightID l) of
        None \<Rightarrow> None
      | Some info \<Rightarrow>
          commit_logs (s\<lparr>flightBuf := (flightBuf s)(log_flightID l \<mapsto> info\<lparr>fi_Slot := log_new l\<rparr>),
                         lockBuf := (lockBuf s)(log_flightID l := None)\<rparr>) ls)"

fun abort_logs :: "AirlineServer \<Rightarrow> transLog list \<Rightarrow> AirlineServer" where
  "abort_logs s [] = s"
| "abort_logs s (l # ls) = abort_logs (s\<lparr>lockBuf := (lockBuf s)(log_flightID l := None)\<rparr>) ls"

definition responseTrans :: "AirlineServer \<Rightarrow> Request \<Rightarrow> (AirlineServer \<times> air_effect list) option" where
  "responseTrans s request =
     (case req_val request of
        VArgs args \<Rightarrow>
          (let tranID = ta_TranID args; decision = ta_Vote args in
           case logBuf s tranID of
             None \<Rightarrow> Some (s, [])
           | Some logList \<Rightarrow>
               map_option
                 (\<lambda>s1. (s1\<lparr>logBuf := (logBuf s1)(tranID := None),
                           oldLog := (oldLog s1)(tranID \<mapsto> decision)\<rparr>, []))
                 (if decision = T_COMMIT then commit_logs s logList else Some (abort_logs s logList)))
      | _ \<Rightarrow> None)"

definition oldTrans :: "AirlineServer \<Rightarrow> Request \<Rightarrow> (AirlineServer \<times> air_effect list) option" where
  "oldTrans s request =
     (case req_val request of
        VArgs args \<Rightarrow>
          map_option (Pair s)
            (send (replyc request)
              (RInt (case oldLog s (ta_TranID args) of None \<Rightarrow> NOT_DECIDED | Some d \<Rightarrow> d)))
      | _ \<Rightarrow> None)"

text \<open>
  The polling loop of \<open>expireTrans\<close>. \<open>poll k\<close> is what the \<open>k\<close>-th round meets: no connection,
  or a call with its error flag and the status in the shared reply afterwards. The loop ends
  when the call failed and the status left in the reply is decided.
\<close>

datatype poll_result = NoConn | Called bool int

partial_function (option) poll_decision :: "(nat \<Rightarrow> poll_result) \<Rightarrow> nat \<Rightarrow> int option" where
  "poll_decision poll k =
     (case poll k of
        NoConn \<Rightarrow> poll_decision poll (Suc k)
      | Called err status \<Rightarrow>
          if err \<and> status \<noteq> NOT_DECIDED then Some status else poll_decision poll (Suc k))"

declare poll_decision.simps [code]

text \<open>
  \<open>as.Transaction\<close> called by the handler sends on \<open>reqChan\<close>, an unbuffered channel which
  only the handler reads: it blocks for ever.
\<close>

definition send_on_own_channel :: "(AirlineServer \<times> air_effect list) option" where
  "send_on_own_channel = None"

definition expireTrans ::
  "(nat \<Rightarrow> poll_result) \<Rightarrow> AirlineServer \<Rightarrow> Request \<Rightarrow> (AirlineServer \<times> air_effect list) option" where
  "expireTrans poll s request =
     (if \<not> own request then Some (s, [])
      else
        (case logBuf s (req_key request) of
           None \<Rightarrow> Some (s, [])
         | Some [] \<Rightarrow> None
         | Some (log # _) \<Rightarrow>
             (case poll_decision poll 0 of
                None \<Rightarrow> None
              | Some status \<Rightarrow> send_on_own_channel)))"

definition oldResponse :: "AirlineServer \<Rightarrow> Request \<Rightarrow> (AirlineServer \<times> air_effect list) option" where
  "oldResponse s request =
     (case logBuf s (req_key request) of
        None \<Rightarrow> Some (s, [])
      | Some logList \<Rightarrow>
          (case req_val request of
             VInt decision \<Rightarrow>
               (let finish = (\<lambda>s1. (s1\<lparr>logBuf := (logBuf s1)(req_key request := None),
                     oldLog := (oldLog s1)(req_key request \<mapsto> decision)\<rparr>, [])) in
                if decision = T_COMMIT then map_option finish (commit_logs s logList)
                else if decision = T_ABORT then Some (finish (abort_logs s logList))
                else Some (s, []))
           | _ \<Rightarrow> None))"

definition transactionHandler ::
  "(string \<Rightarrow> bool) \<Rightarrow> (nat \<Rightarrow> poll_result) \<Rightarrow> AirlineServer \<Rightarrow> Request \<Rightarrow>
     (AirlineServer \<times> air_effect list) option" where
  "transactionHandler dial poll s request =
     (case reqType request of
        INIT_TRANS \<Rightarrow> initTrans dial s request
      | REQ_TRANS_RESPONSE \<Rightarrow> responseTrans s request
      | TRANS_EXPIRED \<Rightarrow> expireTrans poll s request
      | REQ_TRANS_OLD \<Rightarrow> oldTrans s request
      | REQ_TRANS_OLD_RESPONSE \<Rightarrow> oldResponse s request
      | _ \<Rightarrow> Some (s, []))"

subsection \<open>The store handler\<close>

definition createFlight :: "AirlineServer \<Rightarrow> Request \<Rightarrow> (AirlineServer \<times> air_effect list) option" where
  "createFlight s request =
     (case req_val request of
        VInfo info \<Rightarrow>
          (let flightID = req_key request in
           case getFlightInfo s flightID of
             Some _ \<Rightarrow> map_option (Pair s) (send (replyc request) (RBool False))
           | None \<Rightarrow>
               (let queryKey = getAllFlightsKey (fi_From info) (fi_To info) (fi_Departure info);
                    q = (case flightQueryBuf s queryKey of
                           Some vq \<Rightarrow> vq @ FLIGHTID_SEP @ flightID
                         | None \<Rightarrow> flightID) in
                map_option
                  (Pair (s\<lparr>flightBuf := (flightBuf s)(flightID \<mapsto> info),
                           flightQueryBuf := (flightQueryBuf s)(queryKey \<mapsto> q)\<rparr>))
                  (send (replyc request) (RBool True))))
      | _ \<Rightarrow> None)"

definition storeHandler ::
  "(string \<Rightarrow> bool) \<Rightarrow> (nat \<Rightarrow> poll_result) \<Rightarrow> AirlineServer \<Rightarrow> Request \<Rightarrow>
     (AirlineServer \<times> air_effect list) option" where
  "storeHandler dial poll s request =
     (case reqType request of
        PAXOS_REQUEST \<Rightarrow>
          Some (s\<lparr>oldReplycMap := (oldReplycMap s)(cmdNO s \<mapsto> replyc request), cmdNO := cmdNO s + 1\<rparr>,
                [ProposeCmd (Itoa (cmdNO s) @ ''@'' @ req_key request)])
      | INIT_TRANS \<Rightarrow> transactionHandler dial poll s request
      | REQ_TRANS_RESPONSE \<Rightarrow> transactionHandler dial poll s request
      | TRANS_EXPIRED \<Rightarrow> transactionHandler dial poll s request
      | CREATE_FLIGHT \<Rightarrow> createFlight s request
      | GET_FLIGHT \<Rightarrow>
          map_option (Pair s) (send (replyc request) (RInfo (getFlightInfo s (req_key request))))
      | GET_ALL_FLIGHTS \<Rightarrow>
          map_option (Pair s) (send (replyc request)
            (RList (case flightQueryBuf s (req_key request) of
                      Some vq \<Rightarrow> strings_Split vq FLIGHTID_SEP | None \<Rightarrow> [])))
      | _ \<Rightarrow> Some (s, []))"


subsection \<open>What the loops do\<close>

definition slot_of :: "AirlineServer \<Rightarrow> string \<Rightarrow> int" where
  "slot_of s f = (case flightBuf s f of None \<Rightarrow> 0 | Some i \<Rightarrow> fi_Slot i)"

definition log_entry :: "TranArgs \<Rightarrow> AirlineServer \<Rightarrow> string \<Rightarrow> transLog" where
  "log_entry args s f =
     \<lparr>logType = UPDATE, transID = ta_TranID args, log_flightID = f, log_old = slot_of s f,
      log_new = go_int (slot_of s f - ta_Amount args), log_pptList = ta_PptList args, log_tm = ta_TM args\<rparr>"

definition add_locks :: "string list \<Rightarrow> (string \<rightharpoonup> bool) \<Rightarrow> (string \<rightharpoonup> bool)" where
  "add_locks fs m = (\<lambda>f. if f \<in> set fs then Some True else m f)"

definition drop_locks :: "string list \<Rightarrow> (string \<rightharpoonup> bool) \<Rightarrow> (string \<rightharpoonup> bool)" where
  "drop_locks fs m = (\<lambda>f. if f \<in> set fs then None else m f)"

definition set_slots :: "transLog list \<Rightarrow> (string \<rightharpoonup> FlightInfo) \<Rightarrow> (string \<rightharpoonup> FlightInfo)" where
  "set_slots ls m =
     (\<lambda>f. case map_of (map (\<lambda>l. (log_flightID l, log_new l)) ls) f of
            None \<Rightarrow> m f | Some n \<Rightarrow> map_option (\<lambda>i. i\<lparr>fi_Slot := n\<rparr>) (m f))"

abbreviation log_flights :: "transLog list \<Rightarrow> string list" where
  "log_flights ls \<equiv> map log_flightID ls"

lemma log_entry_flight [simp]:
  "log_flightID (log_entry args s f) = f" "log_old (log_entry args s f) = slot_of s f"
  "log_new (log_entry args s f) = go_int (slot_of s f - ta_Amount args)"
  by (simp_all add: log_entry_def)

lemma add_locks_Nil [simp]: "add_locks [] m = m"
  by (simp add: add_locks_def)

lemma dom_add_locks [simp]: "dom (add_locks fs m) = set fs \<union> dom m"
  by (auto simp: add_locks_def split: if_splits)

lemma dom_drop_locks [simp]: "dom (drop_locks fs m) = dom m - set fs"
  by (auto simp: drop_locks_def split: if_splits)

lemma slot_of_locks [simp]: "slot_of (s\<lparr>lockBuf := m\<rparr>) f = slot_of s f"
  by (simp add: slot_of_def)

text \<open>The flights that could be locked are a prefix of the flights asked for.\<close>

lemma lock_flights_result:
  assumes "lock_flights args fs s logs = (s', logs', d)"
  shows "\<exists>ds. prefix ds fs \<and> logs' = logs @ map (log_entry args s) ds \<and>
    s' = s\<lparr>lockBuf := add_locks ds (lockBuf s)\<rparr> \<and> distinct ds \<and> set ds \<inter> dom (lockBuf s) = {} \<and>
    (\<forall>f \<in> set ds. flightBuf s f \<noteq> None \<and> ta_Amount args \<le> slot_of s f) \<and>
    d = (if ds = fs then T_COMMIT else T_ABORT)"
  using assms
proof (induction fs arbitrary: s logs)
  case Nil
  then show ?case by auto
next
  case (Cons f fs)
  show ?case
  proof (cases "flightBuf s f = None \<or> slot_of s f < ta_Amount args \<or> lockBuf s f \<noteq> None")
    case True
    with Cons.prems have "s' = s \<and> logs' = logs \<and> d = T_ABORT"
      by (auto simp: getFlightInfo_def getFlightLock_def slot_of_def split: option.splits if_splits)
    then show ?thesis by (intro exI [of _ "[]"]) simp
  next
    case False
    let ?s1 = "s\<lparr>lockBuf := (lockBuf s)(f \<mapsto> True)\<rparr>"
    from False Cons.prems have "lock_flights args fs ?s1 (logs @ [log_entry args s f]) = (s', logs', d)"
      by (auto simp: getFlightInfo_def getFlightLock_def slot_of_def log_entry_def split: option.splits if_splits)
    from Cons.IH [OF this] obtain ds where ds: "prefix ds fs"
      "logs' = (logs @ [log_entry args s f]) @ map (log_entry args ?s1) ds"
      "s' = ?s1\<lparr>lockBuf := add_locks ds (lockBuf ?s1)\<rparr>" "distinct ds" "set ds \<inter> dom (lockBuf ?s1) = {}"
      "\<forall>g \<in> set ds. flightBuf ?s1 g \<noteq> None \<and> ta_Amount args \<le> slot_of ?s1 g"
      "d = (if ds = fs then T_COMMIT else T_ABORT)" by blast
    have e: "log_entry args ?s1 = log_entry args s" by (rule ext) (simp add: log_entry_def)
    have "add_locks ds (lockBuf ?s1) = add_locks (f # ds) (lockBuf s)"
      by (rule ext) (simp add: add_locks_def)
    then have s': "s' = s\<lparr>lockBuf := add_locks (f # ds) (lockBuf s)\<rparr>" using ds(3) by simp
    have "f \<notin> set ds" "set ds \<inter> dom (lockBuf s) = {}" using ds(5) by auto
    then show ?thesis using ds(1,2,4,6,7) False s'
      by (intro exI [of _ "f # ds"]) (auto simp: e)
  qed
qed

lemma commit_logs_result:
  "distinct (log_flights ls) \<Longrightarrow> \<forall>l \<in> set ls. flightBuf s (log_flightID l) \<noteq> None \<Longrightarrow>
     commit_logs s ls = Some (s\<lparr>flightBuf := set_slots ls (flightBuf s),
                                lockBuf := drop_locks (log_flights ls) (lockBuf s)\<rparr>)"
proof (induction ls arbitrary: s)
  case Nil
  have "set_slots [] m = m" "drop_locks [] k = k" for m k by (simp_all add: set_slots_def drop_locks_def)
  then show ?case by simp
next
  case (Cons l ls)
  let ?f = "log_flightID l"
  obtain info where info: "flightBuf s ?f = Some info" using Cons.prems by auto
  let ?s1 = "s\<lparr>flightBuf := (flightBuf s)(?f \<mapsto> info\<lparr>fi_Slot := log_new l\<rparr>), lockBuf := (lockBuf s)(?f := None)\<rparr>"
  have f: "?f \<notin> set (log_flights ls)" using Cons.prems by simp
  then have none: "map_of (map (\<lambda>l. (log_flightID l, log_new l)) ls) ?f = None"
    by (auto simp: map_of_eq_None_iff image_iff)
  have "set_slots ls (flightBuf ?s1) = set_slots (l # ls) (flightBuf s)"
  proof
    show "set_slots ls (flightBuf ?s1) g = set_slots (l # ls) (flightBuf s) g" for g
      using info none by (cases "g = ?f") (simp_all add: set_slots_def split: option.splits)
  qed
  moreover have "drop_locks (log_flights ls) (lockBuf ?s1) = drop_locks (log_flights (l # ls)) (lockBuf s)"
    by (rule ext) (simp add: drop_locks_def)
  moreover have "commit_logs ?s1 ls = Some (?s1\<lparr>flightBuf := set_slots ls (flightBuf ?s1),
      lockBuf := drop_locks (log_flights ls) (lockBuf ?s1)\<rparr>)"
    using Cons.prems f by (intro Cons.IH) auto
  ultimately show ?case using info by (simp add: getFlightInfo_def)
qed

lemma abort_logs_result:
  "abort_logs s ls = s\<lparr>lockBuf := drop_locks (log_flights ls) (lockBuf s)\<rparr>"
proof (induction ls arbitrary: s)
  case Nil
  have "drop_locks [] k = k" for k by (simp add: drop_locks_def)
  then show ?case by simp
next
  case (Cons l ls)
  let ?s1 = "s\<lparr>lockBuf := (lockBuf s)(log_flightID l := None)\<rparr>"
  have "drop_locks (log_flights ls) (lockBuf ?s1) = drop_locks (log_flights (l # ls)) (lockBuf s)"
    by (rule ext) (simp add: drop_locks_def)
  moreover have "abort_logs s (l # ls) = ?s1\<lparr>lockBuf := drop_locks (log_flights ls) (lockBuf ?s1)\<rparr>"
    by (simp only: abort_logs.simps Cons.IH)
  ultimately show ?case by simp
qed

subsection \<open>The invariant\<close>

text \<open>
  A log is true: the flight is locked, it has the number of slots the log calls old, and the
  new number is smaller by the amount of the booking, as an \<open>int\<close>. No two entries,
  of one log or of two, name the same flight.
\<close>

definition log_ok :: "AirlineServer \<Rightarrow> transLog list \<Rightarrow> bool" where
  "log_ok s ls \<longleftrightarrow> ls \<noteq> [] \<and> distinct (log_flights ls) \<and>
     (\<exists>a. \<forall>l \<in> set ls. log_new l = go_int (log_old l - a)) \<and>
     (\<forall>l \<in> set ls. log_flightID l \<in> dom (lockBuf s) \<and> log_flightID l \<in> dom (flightBuf s) \<and>
        slot_of s (log_flightID l) = log_old l)"

definition air_inv :: "AirlineServer \<Rightarrow> bool" where
  "air_inv s \<longleftrightarrow>
     (\<forall>t ls. logBuf s t = Some ls \<longrightarrow> log_ok s ls) \<and>
     (\<forall>t t' ls ls'. logBuf s t = Some ls \<longrightarrow> logBuf s t' = Some ls' \<longrightarrow> t \<noteq> t' \<longrightarrow>
        set (log_flights ls) \<inter> set (log_flights ls') = {})"

lemma air_inv_new: "air_inv (NewAirlineServer aid host)"
  by (simp add: air_inv_def NewAirlineServer_def)

lemma air_inv_log: "air_inv s \<Longrightarrow> logBuf s t = Some ls \<Longrightarrow> log_ok s ls"
  by (simp add: air_inv_def)

lemma air_inv_disjoint:
  "air_inv s \<Longrightarrow> logBuf s t = Some ls \<Longrightarrow> logBuf s t' = Some ls' \<Longrightarrow> t \<noteq> t' \<Longrightarrow>
     set (log_flights ls) \<inter> set (log_flights ls') = {}"
  unfolding air_inv_def by blast

text \<open>Only the flights, the locks and the logs matter.\<close>

lemma air_inv_frame:
  "flightBuf s' = flightBuf s \<Longrightarrow> lockBuf s' = lockBuf s \<Longrightarrow> logBuf s' = logBuf s \<Longrightarrow>
     air_inv s' = air_inv s"
  by (simp add: air_inv_def log_ok_def slot_of_def)

text \<open>Adding locks keeps the logs true; so does adding a flight.\<close>

lemma air_inv_more_locks:
  assumes inv: "air_inv s"
  shows "air_inv (s\<lparr>lockBuf := add_locks fs (lockBuf s)\<rparr>)"
proof -
  have "log_ok (s\<lparr>lockBuf := add_locks fs (lockBuf s)\<rparr>) ls" if "log_ok s ls" for ls
    using that unfolding log_ok_def by simp
  then show ?thesis using inv unfolding air_inv_def by simp
qed

lemma air_inv_new_flight:
  assumes inv: "air_inv s" and new: "flightBuf s f = None"
  shows "air_inv (s\<lparr>flightBuf := (flightBuf s)(f \<mapsto> i), flightQueryBuf := q\<rparr>)"
proof -
  have "log_ok (s\<lparr>flightBuf := (flightBuf s)(f \<mapsto> i), flightQueryBuf := q\<rparr>) ls" if "log_ok s ls" for ls
  proof -
    have "log_flightID l \<noteq> f" if "l \<in> set ls" for l using \<open>log_ok s ls\<close> that new by (auto simp: log_ok_def)
    then show ?thesis using \<open>log_ok s ls\<close> by (auto simp: log_ok_def slot_of_def)
  qed
  then show ?thesis using inv unfolding air_inv_def by simp
qed


subsection \<open>Voting and deciding\<close>

lemma set_slots_other: "f \<notin> set (log_flights ls) \<Longrightarrow> set_slots ls m f = m f"
proof -
  assume "f \<notin> set (log_flights ls)"
  then have "map_of (map (\<lambda>l. (log_flightID l, log_new l)) ls) f = None"
    by (auto simp: map_of_eq_None_iff image_iff)
  then show ?thesis by (simp add: set_slots_def)
qed

lemma set_slots_logged:
  assumes "distinct (log_flights ls)" and "l \<in> set ls"
  shows "set_slots ls m (log_flightID l) = map_option (\<lambda>i. i\<lparr>fi_Slot := log_new l\<rparr>) (m (log_flightID l))"
proof -
  have "map_of (map (\<lambda>l. (log_flightID l, log_new l)) ls) (log_flightID l) = Some (log_new l)"
    using assms by (intro map_of_is_SomeI) (auto simp: comp_def)
  then show ?thesis by (simp add: set_slots_def)
qed

lemma dom_set_slots [simp]: "dom (set_slots ls m) = dom m"
  by (auto simp: set_slots_def split: option.splits)

text \<open>The vote of a participant: everything asked for is locked and logged, or the transaction
  is refused; locks taken before the refusal stay.\<close>

lemma initTrans_result:
  assumes "req_val r = VArgs args"
  obtains ds where "prefix ds (strings_Split (ta_FlightID args) '':'')"
    "distinct ds" "set ds \<inter> dom (lockBuf s) = {}"
    "\<forall>f \<in> set ds. flightBuf s f \<noteq> None \<and> ta_Amount args \<le> slot_of s f"
    "initTrans dial s r =
       (let s1 = s\<lparr>lockBuf := add_locks ds (lockBuf s)\<rparr>;
            d = (if ds = strings_Split (ta_FlightID args) '':'' then T_COMMIT else T_ABORT);
            vote = (if own r
                    then [CallTM (ta_TM args)
                           \<lparr>ta_TranType = TRANS_RESPONSE, ta_TranID = ta_TranID args,
                            ta_FlightID = ta_FlightID args, ta_Amount = 0, ta_PptList = [],
                            ta_Vote = d, ta_TM = myhostport s\<rparr>]
                    else []) in
        if \<not> dial (ta_TM args) then Some (s1, [])
        else if d = T_COMMIT
        then Some (s1\<lparr>logBuf := (logBuf s)(ta_TranID args \<mapsto> map (log_entry args s) ds)\<rparr>,
                   vote @ [Timer (ta_TranID args)])
        else Some (s1, vote))"
proof -
  let ?fs = "strings_Split (ta_FlightID args) '':''"
  obtain s1 logs d where l: "lock_flights args ?fs s [] = (s1, logs, d)" by (metis prod_cases3)
  from lock_flights_result [OF l] obtain ds where ds: "prefix ds ?fs" "logs = map (log_entry args s) ds"
    "s1 = s\<lparr>lockBuf := add_locks ds (lockBuf s)\<rparr>" "distinct ds" "set ds \<inter> dom (lockBuf s) = {}"
    "\<forall>f \<in> set ds. flightBuf s f \<noteq> None \<and> ta_Amount args \<le> slot_of s f"
    "d = (if ds = ?fs then T_COMMIT else T_ABORT)" by auto
  show thesis
    by (rule that [OF ds(1,4,5,6)])
       (simp only: initTrans_def assms req_value.simps Let_def l prod.case ds(2,3,7), simp)
qed

lemma air_inv_prepare:
  assumes inv: "air_inv s" and ds: "distinct ds" "set ds \<inter> dom (lockBuf s) = {}" "ds \<noteq> []"
    "\<forall>f \<in> set ds. flightBuf s f \<noteq> None \<and> ta_Amount args \<le> slot_of s f"
  shows "air_inv (s\<lparr>lockBuf := add_locks ds (lockBuf s),
    logBuf := (logBuf s)(t \<mapsto> map (log_entry args s) ds)\<rparr>)"
    (is "air_inv ?s")
proof -
  let ?new = "map (log_entry args s) ds"
  have flights: "log_flights ?new = ds" by (simp add: comp_def)
  have slot: "slot_of ?s f = slot_of s f" for f by (simp add: slot_of_def)
  have "log_ok ?s ?new"
    unfolding log_ok_def flights slot
    using ds by (auto intro!: exI [of _ "ta_Amount args"])
  moreover have keep: "log_ok ?s ls" if "log_ok s ls" for ls
    using that unfolding log_ok_def slot by simp
  moreover have "set ds \<inter> set (log_flights ls) = {}" if "logBuf s t' = Some ls" for t' ls
    using air_inv_log [OF inv that] ds(2) unfolding log_ok_def by auto
  ultimately show ?thesis
    using inv unfolding air_inv_def
    by (auto simp del: list.set_map simp add: flights split: if_splits) (blast | metis disjoint_iff)+
qed

lemma air_inv_finish:
  assumes inv: "air_inv s" and t: "logBuf s t = Some ls"
    and fb: "fb = flightBuf s \<or> fb = set_slots ls (flightBuf s)"
  shows "air_inv (s\<lparr>flightBuf := fb, lockBuf := drop_locks (log_flights ls) (lockBuf s),
    logBuf := (logBuf s)(t := None), oldLog := ol\<rparr>)" (is "air_inv ?s")
proof -
  have "log_ok ?s ls'" if "logBuf s t' = Some ls'" "t' \<noteq> t" for t' ls'
  proof -
    have disj: "set (log_flights ls) \<inter> set (log_flights ls') = {}"
      using air_inv_disjoint [OF inv t that(1)] that(2) by blast
    have "slot_of ?s (log_flightID l) = slot_of s (log_flightID l)" if "l \<in> set ls'" for l
    proof -
      have "log_flightID l \<notin> set (log_flights ls)" using disj that by auto
      with fb show ?thesis by (auto simp: slot_of_def set_slots_other)
    qed
    moreover have "dom (flightBuf ?s) = dom (flightBuf s)"
      using fb dom_set_slots [of ls "flightBuf s"] by (elim disjE) simp_all
    ultimately show ?thesis
      using air_inv_log [OF inv that(1)] disj unfolding log_ok_def by (auto simp: disjoint_iff)
  qed
  then show ?thesis using inv unfolding air_inv_def by (auto split: if_splits)
qed

lemma responseTrans_result:
  assumes inv: "air_inv s" and r: "req_val r = VArgs args" and t: "logBuf s (ta_TranID args) = Some ls"
  shows "responseTrans s r =
    Some (s\<lparr>flightBuf := (if ta_Vote args = T_COMMIT then set_slots ls (flightBuf s) else flightBuf s),
            lockBuf := drop_locks (log_flights ls) (lockBuf s),
            logBuf := (logBuf s)(ta_TranID args := None),
            oldLog := (oldLog s)(ta_TranID args \<mapsto> ta_Vote args)\<rparr>, [])"
proof -
  have "log_ok s ls" using inv t by (rule air_inv_log)
  then have "commit_logs s ls = Some (s\<lparr>flightBuf := set_slots ls (flightBuf s),
      lockBuf := drop_locks (log_flights ls) (lockBuf s)\<rparr>)"
    by (intro commit_logs_result) (auto simp: log_ok_def)
  then show ?thesis by (simp add: responseTrans_def r t abort_logs_result Let_def)
qed


text \<open>What a request can do to the state, handler by handler.\<close>

lemma storeHandler_cases [consumes 2, case_names prepared refused decided created other proposed]:
  assumes "storeHandler dial poll s r = Some (s', es)" and inv: "air_inv s"
  obtains ds args where "reqType r = INIT_TRANS" "req_val r = VArgs args"
    "ds = strings_Split (ta_FlightID args) '':''" "distinct ds" "set ds \<inter> dom (lockBuf s) = {}"
    "\<forall>f \<in> set ds. flightBuf s f \<noteq> None \<and> ta_Amount args \<le> slot_of s f"
    "s' = s\<lparr>lockBuf := add_locks ds (lockBuf s),
             logBuf := (logBuf s)(ta_TranID args \<mapsto> map (log_entry args s) ds)\<rparr>"
  | ds where "reqType r = INIT_TRANS" "s' = s\<lparr>lockBuf := add_locks ds (lockBuf s)\<rparr>"
  | ls args where "reqType r = REQ_TRANS_RESPONSE" "req_val r = VArgs args"
    "logBuf s (ta_TranID args) = Some ls"
    "s' = s\<lparr>flightBuf := (if ta_Vote args = T_COMMIT then set_slots ls (flightBuf s) else flightBuf s),
             lockBuf := drop_locks (log_flights ls) (lockBuf s),
             logBuf := (logBuf s)(ta_TranID args := None),
             oldLog := (oldLog s)(ta_TranID args \<mapsto> ta_Vote args)\<rparr>"
  | i q where "reqType r = CREATE_FLIGHT" "req_val r = VInfo i" "flightBuf s (req_key r) = None"
    "s' = s\<lparr>flightBuf := (flightBuf s)(req_key r \<mapsto> i), flightQueryBuf := q\<rparr>"
  | "reqType r \<noteq> PAXOS_REQUEST" "s' = s" | "reqType r = PAXOS_REQUEST"
    "s' = s\<lparr>oldReplycMap := (oldReplycMap s)(cmdNO s \<mapsto> replyc r), cmdNO := cmdNO s + 1\<rparr>"
proof (cases "reqType r")
  case INIT_TRANS
  with assms(1) have st: "initTrans dial s r = Some (s', es)"
    by (simp add: storeHandler_def transactionHandler_def)
  then obtain args where args: "req_val r = VArgs args"
    by (auto simp: initTrans_def split: req_value.splits)
  from initTrans_result [OF args, of s dial] obtain ds where
    ds: "distinct ds" "set ds \<inter> dom (lockBuf s) = {}"
      "\<forall>f \<in> set ds. flightBuf s f \<noteq> None \<and> ta_Amount args \<le> slot_of s f"
    and "initTrans dial s r =
       (let s1 = s\<lparr>lockBuf := add_locks ds (lockBuf s)\<rparr>;
            d = (if ds = strings_Split (ta_FlightID args) '':'' then T_COMMIT else T_ABORT);
            vote = (if own r
                    then [CallTM (ta_TM args)
                           \<lparr>ta_TranType = TRANS_RESPONSE, ta_TranID = ta_TranID args,
                            ta_FlightID = ta_FlightID args, ta_Amount = 0, ta_PptList = [],
                            ta_Vote = d, ta_TM = myhostport s\<rparr>]
                    else []) in
        if \<not> dial (ta_TM args) then Some (s1, [])
        else if d = T_COMMIT
        then Some (s1\<lparr>logBuf := (logBuf s)(ta_TranID args \<mapsto> map (log_entry args s) ds)\<rparr>,
                   vote @ [Timer (ta_TranID args)])
        else Some (s1, vote))" by metis
  with st have "s' = s\<lparr>lockBuf := add_locks ds (lockBuf s)\<rparr> \<or>
      ds = strings_Split (ta_FlightID args) '':'' \<and>
      s' = s\<lparr>lockBuf := add_locks ds (lockBuf s),
             logBuf := (logBuf s)(ta_TranID args \<mapsto> map (log_entry args s) ds)\<rparr>"
    by (simp add: Let_def split: if_splits)
  with that(1,2) INIT_TRANS args ds show thesis by blast
next
  case REQ_TRANS_RESPONSE
  with assms(1) have st: "responseTrans s r = Some (s', es)"
    by (simp add: storeHandler_def transactionHandler_def)
  then obtain args where args: "req_val r = VArgs args"
    by (auto simp: responseTrans_def split: req_value.splits)
  show thesis
  proof (cases "logBuf s (ta_TranID args)")
    case None
    with st args REQ_TRANS_RESPONSE show thesis by (intro that(5)) (auto simp: responseTrans_def)
  next
    case (Some ls)
    with st args REQ_TRANS_RESPONSE responseTrans_result [OF inv args Some] show thesis
      by (intro that(3) [OF _ args Some]) simp_all
  qed
next
  case CREATE_FLIGHT
  with assms(1) have st: "createFlight s r = Some (s', es)" by (simp add: storeHandler_def)
  then obtain i where i: "req_val r = VInfo i"
    by (auto simp: createFlight_def split: req_value.splits)
  show thesis
  proof (cases "flightBuf s (req_key r)")
    case None
    with st i CREATE_FLIGHT show thesis
      by (intro that(4) [OF _ i None]) (auto simp: createFlight_def getFlightInfo_def Let_def)
  next
    case (Some j)
    with st i CREATE_FLIGHT show thesis
      by (intro that(5)) (auto simp: createFlight_def getFlightInfo_def)
  qed
next
  case TRANS_EXPIRED
  with assms(1) show thesis
    by (intro that(5)) (auto simp: storeHandler_def transactionHandler_def expireTrans_def
        send_on_own_channel_def split: if_splits option.splits list.splits)
next
  case PAXOS_REQUEST
  with assms(1) show thesis by (intro that(6)) (simp_all add: storeHandler_def)
next
  case GET_FLIGHT
  with assms(1) show thesis by (intro that(5)) (auto simp: storeHandler_def)
next
  case GET_ALL_FLIGHTS
  with assms(1) show thesis by (intro that(5)) (auto simp: storeHandler_def)
next
  case PUT_LEASE
  with assms(1) show thesis by (intro that(5)) (auto simp: storeHandler_def)
next
  case REQ_TRANS_OLD
  with assms(1) show thesis by (intro that(5)) (auto simp: storeHandler_def)
next
  case REQ_TRANS_OLD_RESPONSE
  with assms(1) show thesis by (intro that(5)) (auto simp: storeHandler_def)
qed

lemma storeHandler_inv:
  assumes "storeHandler dial poll s r = Some (s', es)" and inv: "air_inv s"
  shows "air_inv s'"
  using assms
proof (cases rule: storeHandler_cases)
  case (prepared ds args)
  have "ds \<noteq> []" using prepared(3) by simp
  with air_inv_prepare [OF inv prepared(4,5) _ prepared(6)] prepared(7) show ?thesis by simp
next
  case (refused ds)
  with air_inv_more_locks [OF inv] show ?thesis by simp
next
  case (decided ls args)
  then show ?thesis by (simp add: air_inv_finish [OF inv decided(3)])
next
  case (created i q)
  with air_inv_new_flight [OF inv] show ?thesis by simp
next
  case other
  with inv show ?thesis by simp
next
  case proposed
  then have "air_inv s' = air_inv s" by (intro air_inv_frame) simp_all
  with inv show ?thesis by simp
qed

subsection \<open>The server as a machine\<close>

text \<open>An event is a request, with what the environment answers while it is handled.\<close>

type_synonym air_event = "(string \<Rightarrow> bool) \<times> (nat \<Rightarrow> poll_result) \<times> Request"

definition air_step :: "AirlineServer \<Rightarrow> air_event \<Rightarrow> AirlineServer option" where
  "air_step s e = (case e of (dial, poll, r) \<Rightarrow> map_option fst (storeHandler dial poll s r))"

definition air_start :: "AirlineServer \<Rightarrow> bool" where
  "air_start s \<longleftrightarrow> (\<exists>aid host. s = NewAirlineServer aid host)"

interpretation air: invariant_machine air_start air_step air_inv
  by unfold_locales
     (auto simp: air_start_def air_step_def intro: air_inv_new storeHandler_inv split: prod.splits)

end
