(* ===== verification/Airline_Spec.thy ===== *)
theory Airline_Spec
  imports Airline
begin

section \<open>What the airline server guarantees\<close>

text \<open>
  The abstract server is a table of seats, the transactions that hold seats and the set of
  locked flights; preparing reserves, committing subtracts the held amount, aborting only
  releases. \<open>airline_refines\<close> shows that the store handler implements it. The other
  properties (theory Airline_Properties): seats are accounted for, modulo the range of Go's
  \<open>int\<close> and exactly while the numbers fit, and are then never overbooked; a query lists exactly
  the flights of its route and date; replicas that see the same requests and the same network
  keep the same store. The other theorems state what the code does that it should not: a lock
  taken by a refused transaction is never released, an expired transaction stops the handler for
  ever, free slots overflow, cities with colons collide, and replicas diverge when only some of
  them reach the transaction manager.
\<close>

subsection \<open>The abstract server\<close>

record seat_table =
  seats :: "string \<rightharpoonup> int"
  held :: "string \<rightharpoonup> string list \<times> int"
  locked :: "string set"

definition empty_table :: seat_table where
  "empty_table = \<lparr>seats = Map.empty, held = Map.empty, locked = {}\<rparr>"

fun reserve :: "(string \<rightharpoonup> int) \<Rightarrow> int \<Rightarrow> string list \<Rightarrow> string set \<Rightarrow> string set \<times> bool" where
  "reserve m a [] L = (L, True)"
| "reserve m a (f # fs) L =
     (case m f of
        None \<Rightarrow> (L, False)
      | Some n \<Rightarrow> if n < a \<or> f \<in> L then (L, False) else reserve m a fs (insert f L))"

definition spec_prepare :: "bool \<Rightarrow> string \<Rightarrow> string list \<Rightarrow> int \<Rightarrow> seat_table \<Rightarrow> seat_table" where
  "spec_prepare reachable t fs a S =
     (let (L, ok) = reserve (seats S) a fs (locked S) in
      if ok \<and> reachable then S\<lparr>locked := L, held := (held S)(t \<mapsto> (fs, go_int a))\<rparr> else S\<lparr>locked := L\<rparr>)"

definition spec_decide :: "bool \<Rightarrow> string \<Rightarrow> seat_table \<Rightarrow> seat_table" where
  "spec_decide commit t S =
     (case held S t of
        None \<Rightarrow> S
      | Some (fs, a) \<Rightarrow>
          S\<lparr>seats := (if commit then (\<lambda>f. if f \<in> set fs then map_option (\<lambda>n. go_int (n - a)) (seats S f) else seats S f)
                      else seats S),
            locked := locked S - set fs, held := (held S)(t := None)\<rparr>)"

definition spec_create :: "string \<Rightarrow> int \<Rightarrow> seat_table \<Rightarrow> seat_table" where
  "spec_create f n S = (if seats S f = None then S\<lparr>seats := (seats S)(f \<mapsto> n)\<rparr> else S)"

definition spec_step :: "(string \<Rightarrow> bool) \<Rightarrow> Request \<Rightarrow> seat_table \<Rightarrow> seat_table" where
  "spec_step dial r S =
     (case (reqType r, req_val r) of
        (INIT_TRANS, VArgs args) \<Rightarrow>
          spec_prepare (dial (ta_TM args)) (ta_TranID args)
            (strings_Split (ta_FlightID args) '':'') (ta_Amount args) S
      | (REQ_TRANS_RESPONSE, VArgs args) \<Rightarrow> spec_decide (ta_Vote args = T_COMMIT) (ta_TranID args) S
      | (CREATE_FLIGHT, VInfo i) \<Rightarrow> spec_create (req_key r) (fi_Slot i) S
      | _ \<Rightarrow> S)"

definition abs_log :: "transLog list \<Rightarrow> string list \<times> int" where
  "abs_log ls = (log_flights ls, go_int (log_old (hd ls) - log_new (hd ls)))"

definition abs_air :: "AirlineServer \<Rightarrow> seat_table" where
  "abs_air s =
     \<lparr>seats = (\<lambda>f. map_option fi_Slot (flightBuf s f)),
      held = (\<lambda>t. map_option abs_log (logBuf s t)), locked = dom (lockBuf s)\<rparr>"

lemma abs_air_new [simp]: "abs_air (NewAirlineServer aid host) = empty_table"
  by (simp add: abs_air_def NewAirlineServer_def empty_table_def)

subsection \<open>Refinement, operation by operation\<close>

lemma lock_flights_reserve:
  assumes "lock_flights args fs s logs = (s', logs', d)"
  shows "reserve (\<lambda>f. map_option fi_Slot (flightBuf s f)) (ta_Amount args) fs (dom (lockBuf s)) =
    (dom (lockBuf s'), d = T_COMMIT)"
  using assms
proof (induction fs arbitrary: s logs)
  case Nil
  then show ?case by simp
next
  case (Cons f fs)
  show ?case
  proof (cases "flightBuf s f = None \<or> slot_of s f < ta_Amount args \<or> lockBuf s f \<noteq> None")
    case True
    with Cons.prems show ?thesis
      by (auto simp: getFlightInfo_def getFlightLock_def slot_of_def split: option.splits if_splits)
  next
    case False
    let ?s1 = "s\<lparr>lockBuf := (lockBuf s)(f \<mapsto> True)\<rparr>"
    from False Cons.prems obtain ls where "lock_flights args fs ?s1 ls = (s', logs', d)"
      by (auto simp: getFlightInfo_def getFlightLock_def slot_of_def split: option.splits if_splits)
    note IH = Cons.IH [OF this]
    have e: "dom (lockBuf ?s1) = insert f (dom (lockBuf s))" "flightBuf ?s1 = flightBuf s" by simp_all
    show ?thesis using False IH [unfolded e] by (auto simp: slot_of_def split: option.splits)
  qed
qed

lemma abs_air_locks: "abs_air (s\<lparr>lockBuf := m\<rparr>) = (abs_air s)\<lparr>locked := dom m\<rparr>"
  by (simp add: abs_air_def)

lemma abs_air_logs:
  "abs_air (s\<lparr>logBuf := (logBuf s)(t \<mapsto> ls)\<rparr>) = (abs_air s)\<lparr>held := (held (abs_air s))(t \<mapsto> abs_log ls)\<rparr>"
  by (auto simp: abs_air_def)

lemma refine_INIT:
  assumes r: "reqType r = INIT_TRANS" and h: "storeHandler dial poll s r = Some (s', es)"
  shows "abs_air s' = spec_step dial r (abs_air s)"
proof -
  from r h have st: "initTrans dial s r = Some (s', es)"
    by (simp add: storeHandler_def transactionHandler_def)
  then obtain args where args: "req_val r = VArgs args"
    by (auto simp: initTrans_def split: req_value.splits)
  let ?fs = "strings_Split (ta_FlightID args) '':''"
  obtain s1 logs d where l: "lock_flights args ?fs s [] = (s1, logs, d)" by (metis prod_cases3)
  from lock_flights_result [OF l] obtain ds where ds: "logs = map (log_entry args s) ds"
    "s1 = s\<lparr>lockBuf := add_locks ds (lockBuf s)\<rparr>" "d = (if ds = ?fs then T_COMMIT else T_ABORT)" by auto
  have logs: "abs_log logs = (?fs, go_int (ta_Amount args))" if "d = T_COMMIT"
  proof -
    from that ds(3) have "ds = ?fs" by (auto split: if_splits)
    moreover have "?fs \<noteq> []" by simp
    ultimately show ?thesis using ds(1) by (simp add: abs_log_def comp_def hd_map)
  qed
  have "abs_air s' = (if d = T_COMMIT \<and> dial (ta_TM args)
      then (abs_air s)\<lparr>locked := dom (lockBuf s1), held := (held (abs_air s))(ta_TranID args \<mapsto> (?fs, go_int (ta_Amount args)))\<rparr>
      else (abs_air s)\<lparr>locked := dom (lockBuf s1)\<rparr>)"
  proof (cases "d = T_COMMIT \<and> dial (ta_TM args)")
    case True
    with st args l have "s' = s1\<lparr>logBuf := (logBuf s1)(ta_TranID args \<mapsto> logs)\<rparr>"
      by (simp add: initTrans_def Let_def)
    with True logs show ?thesis by (simp only: abs_air_logs ds(2) abs_air_locks) simp
  next
    case False
    with st args l have "s' = s1" by (auto simp: initTrans_def Let_def split: if_splits)
    with False show ?thesis by (simp only: ds(2) abs_air_locks) simp
  qed
  moreover have "reserve (seats (abs_air s)) (ta_Amount args) ?fs (locked (abs_air s)) =
      (dom (lockBuf s1), d = T_COMMIT)"
    using lock_flights_reserve [OF l] by (simp add: abs_air_def)
  ultimately show ?thesis by (simp add: spec_step_def r args spec_prepare_def)
qed

lemma log_ok_slots:
  assumes ok: "log_ok s ls"
  shows "map_option fi_Slot (set_slots ls (flightBuf s) f) =
    (if f \<in> set (log_flights ls) then map_option (\<lambda>i. go_int (fi_Slot i - snd (abs_log ls))) (flightBuf s f)
     else map_option fi_Slot (flightBuf s f))"
proof (cases "f \<in> set (log_flights ls)")
  case True
  then obtain l where l: "l \<in> set ls" "f = log_flightID l" by auto
  from ok obtain a where a: "\<forall>l \<in> set ls. log_new l = go_int (log_old l - a)" by (auto simp: log_ok_def)
  have "hd ls \<in> set ls" using ok by (simp add: log_ok_def)
  with a have "snd (abs_log ls) = go_int a" by (simp add: abs_log_def)
  moreover have "distinct (log_flights ls)" "slot_of s f = log_old l" "f \<in> dom (flightBuf s)"
    using ok l by (auto simp: log_ok_def)
  ultimately show ?thesis
    using l a set_slots_logged [of ls l "flightBuf s"] True by (auto simp: slot_of_def)
next
  case False
  then show ?thesis by (simp add: set_slots_other)
qed

lemma refine_RESPONSE:
  assumes r: "reqType r = REQ_TRANS_RESPONSE" and h: "storeHandler dial poll s r = Some (s', es)"
    and inv: "air_inv s"
  shows "abs_air s' = spec_step dial r (abs_air s)"
proof -
  from r h have st: "responseTrans s r = Some (s', es)"
    by (simp add: storeHandler_def transactionHandler_def)
  then obtain args where args: "req_val r = VArgs args"
    by (auto simp: responseTrans_def split: req_value.splits)
  note spec = spec_step_def r args spec_decide_def
  show ?thesis
  proof (cases "logBuf s (ta_TranID args)")
    case None
    with st args have "s' = s" by (simp add: responseTrans_def)
    with None show ?thesis by (simp add: spec abs_air_def)
  next
    case (Some ls)
    have ok: "log_ok s ls" using inv Some by (rule air_inv_log)
    have s': "s' = s\<lparr>flightBuf := (if ta_Vote args = T_COMMIT then set_slots ls (flightBuf s) else flightBuf s),
            lockBuf := drop_locks (log_flights ls) (lockBuf s),
            logBuf := (logBuf s)(ta_TranID args := None),
            oldLog := (oldLog s)(ta_TranID args \<mapsto> ta_Vote args)\<rparr>"
      using responseTrans_result [OF inv args Some] st by simp
    have e: "held (abs_air s) (ta_TranID args) = Some (log_flights ls, snd (abs_log ls))"
      using Some by (simp add: abs_air_def abs_log_def)
    have "seats (abs_air s') f = (if ta_Vote args = T_COMMIT \<and> f \<in> set (log_flights ls)
        then map_option (\<lambda>n. go_int (n - snd (abs_log ls))) (seats (abs_air s) f) else seats (abs_air s) f)" for f
      using log_ok_slots [OF ok, of f] by (simp add: s' abs_air_def option.map_comp comp_def)
    then have "seats (abs_air s') = seats (spec_step dial r (abs_air s))"
      by (auto simp: spec e fun_eq_iff)
    moreover have "held (abs_air s') = held (spec_step dial r (abs_air s))"
      by (simp add: spec e) (auto simp: s' abs_air_def fun_eq_iff)
    moreover have "locked (abs_air s') = locked (spec_step dial r (abs_air s))"
      by (simp add: spec e) (simp add: s' abs_air_def)
    ultimately show ?thesis by simp
  qed
qed

lemma refine_step:
  assumes h: "storeHandler dial poll s r = Some (s', es)" and inv: "air_inv s"
  shows "abs_air s' = spec_step dial r (abs_air s)"
proof (cases "reqType r")
  case INIT_TRANS
  from this h show ?thesis by (rule refine_INIT)
next
  case REQ_TRANS_RESPONSE
  from this h inv show ?thesis by (rule refine_RESPONSE)
next
  case CREATE_FLIGHT
  with h show ?thesis
    by (auto simp: storeHandler_def createFlight_def getFlightInfo_def spec_step_def spec_create_def
        abs_air_def Let_def fun_eq_iff split: req_value.splits option.splits)
next
  case TRANS_EXPIRED
  with h have "s' = s"
    by (auto simp: storeHandler_def transactionHandler_def expireTrans_def send_on_own_channel_def
        split: if_splits option.splits list.splits)
  with TRANS_EXPIRED show ?thesis by (simp add: spec_step_def)
qed (use h in \<open>auto simp: storeHandler_def spec_step_def abs_air_def\<close>)


subsection \<open>Runs\<close>

lemma air_reachable_inv: "run air_step (NewAirlineServer aid host) evs = Some s \<Longrightarrow> air_inv s"
  by (rule air.inv_run) (auto simp: air_start_def)

lemma air_step_handler:
  "air_step s (dial, poll, r) = Some s' \<longleftrightarrow> (\<exists>es. storeHandler dial poll s r = Some (s', es))"
  by (auto simp: air_step_def)

fun spec_run :: "seat_table \<Rightarrow> air_event list \<Rightarrow> seat_table" where
  "spec_run S [] = S"
| "spec_run S ((dial, poll, r) # evs) = spec_run (spec_step dial r S) evs"

lemma run_refines:
  "air_inv s \<Longrightarrow> run air_step s evs = Some s' \<Longrightarrow> abs_air s' = spec_run (abs_air s) evs"
proof (induction evs arbitrary: s)
  case Nil
  then show ?case by simp
next
  case (Cons e evs)
  obtain dial poll r where e: "e = (dial, poll, r)" by (cases e)
  with Cons.prems(2) obtain s1 es where s1: "storeHandler dial poll s r = Some (s1, es)"
    "run air_step s1 evs = Some s'" by (auto simp: air_step_handler split: option.splits)
  from Cons.IH [OF storeHandler_inv [OF s1(1) Cons.prems(1)] s1(2)]
    refine_step [OF s1(1) Cons.prems(1)] e show ?case by simp
qed

text \<open>When a reservation goes through.\<close>

lemma reserve_ok:
  "snd (reserve m a fs L) \<longleftrightarrow>
     distinct fs \<and> set fs \<inter> L = {} \<and> (\<forall>f \<in> set fs. \<exists>n. m f = Some n \<and> a \<le> n)"
  by (induction fs arbitrary: L) (auto split: option.splits)

text \<open>The seats a request takes from a flight, and those a run takes.\<close>

definition taken :: "seat_table \<Rightarrow> Request \<Rightarrow> string \<Rightarrow> int" where
  "taken S r f =
     (case (reqType r, req_val r) of
        (REQ_TRANS_RESPONSE, VArgs args) \<Rightarrow>
          (case held S (ta_TranID args) of
             None \<Rightarrow> 0
           | Some (fs, a) \<Rightarrow> if ta_Vote args = T_COMMIT \<and> f \<in> set fs then a else 0)
      | _ \<Rightarrow> 0)"

fun seats_taken :: "seat_table \<Rightarrow> air_event list \<Rightarrow> string \<Rightarrow> int" where
  "seats_taken S [] f = 0"
| "seats_taken S ((dial, poll, r) # evs) f =
     taken S r f + seats_taken (spec_step dial r S) evs f"

lemma spec_step_seats:
  "seats S f = Some n \<Longrightarrow> is_int n \<Longrightarrow> seats (spec_step dial r S) f = Some (go_int (n - taken S r f))"
  by (cases "reqType r"; cases "req_val r")
     (auto simp: spec_step_def spec_prepare_def spec_decide_def spec_create_def taken_def go_int_id
       split: prod.splits option.splits)

lemma spec_run_seats:
  "seats S f = Some n \<Longrightarrow> is_int n \<Longrightarrow> seats (spec_run S evs) f = Some (go_int (n - seats_taken S evs f))"
proof (induction evs arbitrary: S n)
  case Nil
  then show ?case by (simp add: go_int_id)
next
  case (Cons e evs)
  obtain dial poll r where e: "e = (dial, poll, r)" by (cases e)
  from Cons.IH [OF spec_step_seats [OF Cons.prems]] e show ?case by (simp add: algebra_simps)
qed

text \<open>Only the slots of a flight ever change.\<close>

lemma storeHandler_keeps_flight:
  assumes "storeHandler dial poll s r = Some (s', es)" and "air_inv s" and f: "flightBuf s f = Some i"
  shows "\<exists>n. flightBuf s' f = Some (i\<lparr>fi_Slot := n\<rparr>)"
  using assms(1,2)
proof (cases rule: storeHandler_cases)
  case (decided ls args)
  have "\<exists>n. set_slots ls (flightBuf s) f = Some (i\<lparr>fi_Slot := n\<rparr>)"
    using f by (cases "map_of (map (\<lambda>l. (log_flightID l, log_new l)) ls) f")
      (auto simp: set_slots_def intro: exI [of _ "fi_Slot i"])
  moreover have "\<exists>n. flightBuf s f = Some (i\<lparr>fi_Slot := n\<rparr>)" using f by (intro exI [of _ "fi_Slot i"]) simp
  ultimately show ?thesis using decided(4) by simp
qed (use f in \<open>auto intro: exI [of _ "fi_Slot i"]\<close>)

lemma run_keeps_flight:
  "air_inv s \<Longrightarrow> flightBuf s f = Some i \<Longrightarrow> run air_step s evs = Some s' \<Longrightarrow>
     \<exists>n. flightBuf s' f = Some (i\<lparr>fi_Slot := n\<rparr>)"
proof (induction evs arbitrary: s i)
  case Nil
  then show ?case by (intro exI [of _ "fi_Slot i"]) simp
next
  case (Cons e evs)
  obtain dial poll r where e: "e = (dial, poll, r)" by (cases e)
  with Cons.prems(3) obtain s1 es where s1: "storeHandler dial poll s r = Some (s1, es)"
    "run air_step s1 evs = Some s'" by (auto simp: air_step_handler split: option.splits)
  from storeHandler_keeps_flight [OF s1(1) Cons.prems(1,2)] obtain m where
    "flightBuf s1 f = Some (i\<lparr>fi_Slot := m\<rparr>)" by blast
  from Cons.IH [OF storeHandler_inv [OF s1(1) Cons.prems(1)] this s1(2)] show ?case by simp
qed

text \<open>
  Bounds on the slots. A flight is created with at most \<open>B\<close> slots and not with less than none; a
  request asks for any number of seats or gives back at most \<open>A\<close>. \<open>slots_within m\<close>: the slots of
  every flight, and those that the logs would leave, are between none and \<open>m\<close>.
\<close>

definition slots_within :: "int \<Rightarrow> AirlineServer \<Rightarrow> bool" where
  "slots_within m s \<longleftrightarrow> (\<forall>f i. flightBuf s f = Some i \<longrightarrow> 0 \<le> fi_Slot i \<and> fi_Slot i \<le> m) \<and>
     (\<forall>t ls. logBuf s t = Some ls \<longrightarrow> (\<forall>l \<in> set ls. 0 \<le> log_new l \<and> log_new l \<le> m))"

definition event_ok :: "int \<Rightarrow> int \<Rightarrow> air_event \<Rightarrow> bool" where
  "event_ok B A e \<longleftrightarrow>
     (case e of (dial, poll, r) \<Rightarrow>
        case req_val r of
          VInfo i \<Rightarrow> 0 \<le> fi_Slot i \<and> fi_Slot i \<le> B
        | VArgs args \<Rightarrow> - A \<le> ta_Amount args
        | _ \<Rightarrow> True)"

lemma slots_within_mono: "slots_within m s \<Longrightarrow> m \<le> m' \<Longrightarrow> slots_within m' s"
  unfolding slots_within_def by force

lemma storeHandler_slots:
  assumes h: "storeHandler dial poll s r = Some (s', es)" and inv: "air_inv s" and w: "slots_within m s"
    and ok: "event_ok B A (dial, poll, r)" and m: "B \<le> m" "0 \<le> A" "m + A < 2 ^ 63"
  shows "slots_within (m + A) s'"
  using h inv
proof (cases rule: storeHandler_cases)
  case (prepared ds args)
  have "0 \<le> go_int (slot_of s f - ta_Amount args) \<and> go_int (slot_of s f - ta_Amount args) \<le> m + A"
    if "f \<in> set ds" for f
  proof -
    from prepared(6) that obtain i where i: "flightBuf s f = Some i" "ta_Amount args \<le> slot_of s f" by auto
    with w have "0 \<le> slot_of s f" "slot_of s f \<le> m" by (auto simp: slots_within_def slot_of_def)
    with i(2) ok prepared(2) m have "0 \<le> slot_of s f - ta_Amount args" "slot_of s f - ta_Amount args \<le> m + A"
      by (simp_all add: event_ok_def)
    with m show ?thesis by (simp add: go_int_id is_int_def)
  qed
  then have new: "0 \<le> log_new l \<and> log_new l \<le> m + A" if "l \<in> set (map (log_entry args s) ds)" for l
    using that by auto
  have "slots_within (m + A) s" using w m(2) by (intro slots_within_mono [OF w]) simp
  with new prepared(7) show ?thesis unfolding slots_within_def by (auto split: if_splits)
next
  case (decided ls args)
  have W: "slots_within (m + A) s" using m(2) by (intro slots_within_mono [OF w]) simp
  have "0 \<le> fi_Slot i \<and> fi_Slot i \<le> m + A" if i: "set_slots ls (flightBuf s) f = Some i" for f i
  proof (cases "f \<in> set (log_flights ls)")
    case True
    then obtain l where l: "l \<in> set ls" "f = log_flightID l" by auto
    with i set_slots_logged [of ls l "flightBuf s"] air_inv_log [OF inv decided(3)] have "fi_Slot i = log_new l"
      by (auto simp: log_ok_def)
    with W l(1) decided(3) show ?thesis unfolding slots_within_def by auto
  next
    case False
    with i W show ?thesis by (simp add: set_slots_other slots_within_def)
  qed
  with W decided(4) show ?thesis unfolding slots_within_def by (auto split: if_splits)
next
  case (created i q)
  have "slots_within (m + A) s" using m(2) by (intro slots_within_mono [OF w]) simp
  with created ok m show ?thesis by (auto simp: slots_within_def event_ok_def)
next
  case (refused ds)
  then show ?thesis using slots_within_mono [OF w, of "m + A"] m(2) by (simp add: slots_within_def)
next
  case other
  then show ?thesis using slots_within_mono [OF w, of "m + A"] m(2) by simp
next
  case proposed
  then show ?thesis using slots_within_mono [OF w, of "m + A"] m(2) by (simp add: slots_within_def)
qed

lemma run_slots:
  "air_inv s \<Longrightarrow> slots_within m s \<Longrightarrow> list_all (event_ok B A) evs \<Longrightarrow> B \<le> m \<Longrightarrow> 0 \<le> A \<Longrightarrow>
     m + A * int (length evs) < 2 ^ 63 \<Longrightarrow> run air_step s evs = Some s' \<Longrightarrow>
     slots_within (m + A * int (length evs)) s'"
proof (induction evs arbitrary: s m)
  case Nil
  then show ?case by simp
next
  case (Cons e evs)
  obtain dial poll r where e: "e = (dial, poll, r)" by (cases e)
  with Cons.prems(7) obtain s1 es where s1: "storeHandler dial poll s r = Some (s1, es)"
    "run air_step s1 evs = Some s'" by (auto simp: air_step_handler split: option.splits)
  have sum: "m + A * int (length (e # evs)) = (m + A) + A * int (length evs)" by (simp add: algebra_simps)
  have nn: "0 \<le> A * int (length evs)" using Cons.prems(5) by simp
  have "slots_within (m + A) s1"
    using Cons.prems(3) e sum nn Cons.prems(6)
    by (intro storeHandler_slots [OF s1(1) Cons.prems(1,2) _ Cons.prems(4,5)]) auto
  then show ?case unfolding sum
  proof (rule Cons.IH [OF storeHandler_inv [OF s1(1) Cons.prems(1)] _ _ _ Cons.prems(5) _ s1(2)])
    show "m + A + A * int (length evs) < 2 ^ 63" using Cons.prems(6) unfolding sum .
  qed (use Cons.prems(3-5) in simp_all)
qed

subsection \<open>Locks that nobody will release\<close>

definition orphan :: "AirlineServer \<Rightarrow> string \<Rightarrow> bool" where
  "orphan s f \<longleftrightarrow> lockBuf s f \<noteq> None \<and> (\<forall>t ls. logBuf s t = Some ls \<longrightarrow> f \<notin> set (log_flights ls))"

lemma orphan_step:
  assumes "storeHandler dial poll s r = Some (s', es)" and "air_inv s" and o: "orphan s f"
  shows "orphan s' f"
  using assms(1,2)
proof (cases rule: storeHandler_cases)
  case (prepared ds args)
  have "f \<notin> set ds" using o prepared(5) by (auto simp: orphan_def)
  with o prepared(7) show ?thesis by (auto simp: orphan_def add_locks_def comp_def)
next
  case (refused ds)
  with o show ?thesis by (auto simp: orphan_def add_locks_def)
next
  case (decided ls args)
  have "f \<notin> set (log_flights ls)" using o decided(3) unfolding orphan_def by blast
  with o decided(4) show ?thesis by (auto simp: orphan_def drop_locks_def)
qed (use o in \<open>simp_all add: orphan_def\<close>)

lemma orphan_run:
  "air_inv s \<Longrightarrow> orphan s f \<Longrightarrow> run air_step s evs = Some s' \<Longrightarrow> orphan s' f"
proof (induction evs arbitrary: s)
  case Nil
  then show ?case by simp
next
  case (Cons e evs)
  obtain dial poll r where e: "e = (dial, poll, r)" by (cases e)
  with Cons.prems(3) obtain s1 es where s1: "storeHandler dial poll s r = Some (s1, es)"
    "run air_step s1 evs = Some s'" by (auto simp: air_step_handler split: option.splits)
  from Cons.IH [OF storeHandler_inv [OF s1(1) Cons.prems(1)] orphan_step [OF s1(1) Cons.prems(1,2)] s1(2)]
  show ?case .
qed


subsection \<open>What queries list\<close>

text \<open>
  An entry of \<open>flightQueryBuf\<close> is the list, joined, of the flights created for its key, each
  once. A commit only changes slots, so a flight never moves to another key.
\<close>

definition flight_key :: "FlightInfo \<Rightarrow> string" where
  "flight_key i = getAllFlightsKey (fi_From i) (fi_To i) (fi_Departure i)"

definition flights_of :: "(string \<rightharpoonup> FlightInfo) \<Rightarrow> string \<Rightarrow> string set" where
  "flights_of m k = {f. \<exists>i. m f = Some i \<and> flight_key i = k}"

definition query_ok :: "string set \<Rightarrow> string option \<Rightarrow> bool" where
  "query_ok fs q \<longleftrightarrow>
     (case q of
        None \<Rightarrow> fs = {}
      | Some vq \<Rightarrow> \<exists>ids. ids \<noteq> [] \<and> distinct ids \<and> set ids = fs \<and> vq = join FLIGHTID_SEP ids)"

definition query_inv :: "AirlineServer \<Rightarrow> bool" where
  "query_inv s \<longleftrightarrow> (\<forall>k. query_ok (flights_of (flightBuf s) k) (flightQueryBuf s k))"

lemma flights_of_set_slots [simp]: "flights_of (set_slots ls m) k = flights_of m k"
proof -
  have "(\<exists>i. set_slots ls m f = Some i \<and> flight_key i = k) \<longleftrightarrow> (\<exists>i. m f = Some i \<and> flight_key i = k)" for f
    by (cases "m f") (auto simp: set_slots_def flight_key_def split: option.splits)
  then show ?thesis by (simp add: flights_of_def)
qed

lemma flights_of_create:
  "m f = None \<Longrightarrow> flights_of (m(f \<mapsto> i)) k =
     (if flight_key i = k then insert f (flights_of m k) else flights_of m k)"
  by (auto simp: flights_of_def)

lemma query_ok_snoc:
  assumes "query_ok fs q" and "f \<notin> fs"
  shows "query_ok (insert f fs) (Some (case q of Some vq \<Rightarrow> vq @ FLIGHTID_SEP @ f | None \<Rightarrow> f))"
proof (cases q)
  case None
  with assms have "fs = {}" by (simp add: query_ok_def)
  moreover have "\<exists>ids. ids \<noteq> [] \<and> distinct ids \<and> set ids = {f} \<and> f = join FLIGHTID_SEP ids"
    by (rule exI [of _ "[f]"]) simp
  ultimately show ?thesis by (simp add: query_ok_def None)
next
  case (Some vq)
  with assms obtain ids where "ids \<noteq> []" "distinct ids" "set ids = fs" "vq = join FLIGHTID_SEP ids"
    by (auto simp: query_ok_def)
  then have "\<exists>ids. ids \<noteq> [] \<and> distinct ids \<and> set ids = insert f fs \<and>
      vq @ FLIGHTID_SEP @ f = join FLIGHTID_SEP ids"
    using assms(2) by (intro exI [of _ "ids @ [f]"]) (simp add: join_snoc)
  with Some show ?thesis by (simp add: query_ok_def)
qed

lemma query_inv_create:
  assumes inv: "query_inv s" and new: "flightBuf s f = None"
  shows "query_inv (s\<lparr>flightBuf := (flightBuf s)(f \<mapsto> i),
    flightQueryBuf := (flightQueryBuf s)(flight_key i \<mapsto>
      (case flightQueryBuf s (flight_key i) of Some vq \<Rightarrow> vq @ FLIGHTID_SEP @ f | None \<Rightarrow> f))\<rparr>)"
proof -
  let ?k = "flight_key i"
  have "f \<notin> flights_of (flightBuf s) ?k" using new by (simp add: flights_of_def)
  moreover have "query_ok (flights_of (flightBuf s) k) (flightQueryBuf s k)" for k
    using inv by (simp add: query_inv_def)
  ultimately show ?thesis
    using query_ok_snoc flights_of_create [of "flightBuf s" f i, OF new] by (simp add: query_inv_def)
qed

lemma query_inv_step:
  assumes h: "storeHandler dial poll s r = Some (s', es)" and inv: "air_inv s" and q: "query_inv s"
  shows "query_inv s'"
  using h inv
proof (cases rule: storeHandler_cases)
  case (created i qb)
  from h created(1-3) have "flightQueryBuf s' = (flightQueryBuf s)(flight_key i \<mapsto>
      (case flightQueryBuf s (flight_key i) of Some vq \<Rightarrow> vq @ FLIGHTID_SEP @ req_key r | None \<Rightarrow> req_key r))"
    by (auto simp: storeHandler_def createFlight_def getFlightInfo_def flight_key_def Let_def
        split: option.splits)
  moreover have "flightQueryBuf s' = qb" using created(4) by simp
  ultimately have qb: "qb = (flightQueryBuf s)(flight_key i \<mapsto>
      (case flightQueryBuf s (flight_key i) of Some vq \<Rightarrow> vq @ FLIGHTID_SEP @ req_key r | None \<Rightarrow> req_key r))"
    by simp
  show ?thesis unfolding created(4) qb by (rule query_inv_create [OF q created(3)])
qed (use q in \<open>simp_all add: query_inv_def\<close>)

lemma run_query_inv:
  "air_inv s \<Longrightarrow> query_inv s \<Longrightarrow> run air_step s evs = Some s' \<Longrightarrow> query_inv s'"
proof (induction evs arbitrary: s)
  case Nil
  then show ?case by simp
next
  case (Cons e evs)
  obtain dial poll r where e: "e = (dial, poll, r)" by (cases e)
  with Cons.prems(3) obtain s1 es where s1: "storeHandler dial poll s r = Some (s1, es)"
    "run air_step s1 evs = Some s'" by (auto simp: air_step_handler split: option.splits)
  from Cons.IH [OF storeHandler_inv [OF s1(1) Cons.prems(1)] query_inv_step [OF s1(1) Cons.prems(1,2)] s1(2)]
  show ?case .
qed

lemma reachable_query_inv: "run air_step (NewAirlineServer aid host) evs = Some s \<Longrightarrow> query_inv s"
  by (rule run_query_inv [OF air_inv_new]) (simp_all add: query_inv_def query_ok_def NewAirlineServer_def flights_of_def)

subsection \<open>Replicas\<close>

definition same_store :: "AirlineServer \<Rightarrow> AirlineServer \<Rightarrow> bool" where
  "same_store s t \<longleftrightarrow> flightBuf s = flightBuf t \<and> flightQueryBuf s = flightQueryBuf t \<and>
     lockBuf s = lockBuf t \<and> logBuf s = logBuf t \<and> oldLog s = oldLog t"

definition same_event :: "air_event \<Rightarrow> air_event \<Rightarrow> bool" where
  "same_event e f \<longleftrightarrow>
     (case (e, f) of ((dial, poll, r), (dial', poll', r')) \<Rightarrow>
        dial = dial' \<and> reqType r = reqType r' \<and> req_key r = req_key r' \<and> req_val r = req_val r')"

lemma same_store_refl [simp]: "same_store s s"
  by (simp add: same_store_def)

lemma lock_flights_same:
  assumes "lock_flights args fs s logs = (s', logs', d)" and "same_store s t"
  shows "\<exists>t'. lock_flights args fs t logs = (t', logs', d) \<and> same_store s' t'"
  using assms
proof (induction fs arbitrary: s t logs)
  case Nil
  then show ?case by simp
next
  case (Cons f fs)
  from Cons.prems(2) have e: "getFlightInfo t f = getFlightInfo s f" "lockBuf t = lockBuf s"
    by (simp_all add: getFlightInfo_def same_store_def)
  have "same_store (s\<lparr>lockBuf := m\<rparr>) (t\<lparr>lockBuf := m\<rparr>)" for m
    using Cons.prems(2) by (simp add: same_store_def)
  with Cons.prems Cons.IH show ?case
    by (auto simp: e getFlightLock_def split: option.splits if_splits)
qed

lemma commit_logs_same:
  "commit_logs s ls = Some s' \<Longrightarrow> same_store s t \<Longrightarrow>
     \<exists>t'. commit_logs t ls = Some t' \<and> same_store s' t'"
proof (induction ls arbitrary: s t)
  case Nil
  then show ?case by simp
next
  case (Cons l ls)
  from Cons.prems(2) have e: "getFlightInfo t f = getFlightInfo s f" "lockBuf t = lockBuf s"
    "flightBuf t = flightBuf s" for f by (simp_all add: getFlightInfo_def same_store_def)
  have "same_store (s\<lparr>flightBuf := fb, lockBuf := m\<rparr>) (t\<lparr>flightBuf := fb, lockBuf := m\<rparr>)" for fb m
    using Cons.prems(2) by (simp add: same_store_def)
  with Cons show ?case by (auto simp: e split: option.splits)
qed

lemma abort_logs_same: "same_store s t \<Longrightarrow> same_store (abort_logs s ls) (abort_logs t ls)"
  by (simp add: abort_logs_result same_store_def)

lemma initTrans_same:
  assumes "initTrans dial s r = Some (s', es)" and "initTrans dial t r' = Some (t', es')"
    and "same_store s t" and "req_val r = req_val r'"
  shows "same_store s' t'"
proof -
  from assms(1) obtain args where args: "req_val r = VArgs args"
    by (auto simp: initTrans_def split: req_value.splits)
  let ?fs = "strings_Split (ta_FlightID args) '':''"
  obtain s1 logs d where l: "lock_flights args ?fs s [] = (s1, logs, d)" by (metis prod_cases3)
  from lock_flights_same [OF l assms(3)] obtain t1 where t1: "lock_flights args ?fs t [] = (t1, logs, d)"
    "same_store s1 t1" by blast
  show ?thesis
    using assms(1,2) args assms(4) l t1
    by (auto simp: initTrans_def Let_def split: if_splits) (auto simp: same_store_def)
qed

lemma storeHandler_same:
  assumes "storeHandler dial poll s r = Some (s', es)" and "storeHandler dial poll' t r' = Some (t', es')"
    and same: "same_store s t" and "reqType r = reqType r'" "req_key r = req_key r'" "req_val r = req_val r'"
  shows "same_store s' t'"
proof (cases "reqType r")
  case INIT_TRANS
  with assms show ?thesis
    by (auto simp: storeHandler_def transactionHandler_def intro: initTrans_same)
next
  case REQ_TRANS_RESPONSE
  with assms have st: "responseTrans s r = Some (s', es)" "responseTrans t r' = Some (t', es')"
    by (simp_all add: storeHandler_def transactionHandler_def)
  then obtain args where args: "req_val r = VArgs args" "req_val r' = VArgs args"
    using assms(6) by (auto simp: responseTrans_def split: req_value.splits)
  have log: "logBuf t = logBuf s" using same by (simp add: same_store_def)
  show ?thesis
  proof (cases "logBuf s (ta_TranID args)")
    case None
    with st args log same show ?thesis by (simp add: responseTrans_def)
  next
    case (Some ls)
    with st args log obtain s1 t1 where
      "(if ta_Vote args = T_COMMIT then commit_logs s ls else Some (abort_logs s ls)) = Some s1"
      "(if ta_Vote args = T_COMMIT then commit_logs t ls else Some (abort_logs t ls)) = Some t1"
      "s' = s1\<lparr>logBuf := (logBuf s1)(ta_TranID args := None), oldLog := (oldLog s1)(ta_TranID args \<mapsto> ta_Vote args)\<rparr>"
      "t' = t1\<lparr>logBuf := (logBuf t1)(ta_TranID args := None), oldLog := (oldLog t1)(ta_TranID args \<mapsto> ta_Vote args)\<rparr>"
      by (auto simp: responseTrans_def Let_def)
    moreover from this have "same_store s1 t1"
      using commit_logs_same [OF _ same] abort_logs_same [OF same] by (fastforce split: if_splits)
    ultimately show ?thesis by (simp add: same_store_def)
  qed
next
  case CREATE_FLIGHT
  with assms show ?thesis
    by (auto simp: storeHandler_def createFlight_def getFlightInfo_def same_store_def Let_def
        split: req_value.splits option.splits)
next
  case TRANS_EXPIRED
  with assms show ?thesis
    by (auto simp: storeHandler_def transactionHandler_def expireTrans_def send_on_own_channel_def
        split: if_splits option.splits list.splits)
qed (use assms in \<open>auto simp: storeHandler_def same_store_def\<close>)

lemma run_same_store:
  "same_store s t \<Longrightarrow> list_all2 same_event evs evs' \<Longrightarrow> run air_step s evs = Some s' \<Longrightarrow>
     run air_step t evs' = Some t' \<Longrightarrow> same_store s' t'"
proof (induction evs arbitrary: s t evs')
  case Nil
  then show ?case by simp
next
  case (Cons e evs)
  then obtain f fs where f: "evs' = f # fs" "same_event e f" "list_all2 same_event evs fs"
    by (cases evs') auto
  obtain dial poll r where e: "e = (dial, poll, r)" by (cases e)
  obtain poll' r' where f': "f = (dial, poll', r')" "reqType r = reqType r'" "req_key r = req_key r'"
    "req_val r = req_val r'" using f(2) e by (auto simp: same_event_def)
  from Cons.prems(3) e obtain s1 es where s1: "storeHandler dial poll s r = Some (s1, es)"
    "run air_step s1 evs = Some s'" by (auto simp: air_step_handler split: option.splits)
  from Cons.prems(4) f(1) f'(1) obtain t1 es' where t1: "storeHandler dial poll' t r' = Some (t1, es')"
    "run air_step t1 fs = Some t'" by (auto simp: air_step_handler split: option.splits)
  from Cons.IH [OF storeHandler_same [OF s1(1) t1(1) Cons.prems(1) f'(2-4)] f(3) s1(2) t1(2)]
  show ?case .
qed

end
