(* ===== verification/Airline_Properties.thy ===== *)
theory Airline_Properties
  imports Airline_Spec
begin

section \<open>Properties of the airline server\<close>

text \<open>
  The properties proved of the store handler, with the small runs that show they can be
  used: two flights, a booking of both, its commit.
\<close>

subsection \<open>Example requests\<close>

definition on_net :: "Request \<Rightarrow> air_event" where
  "on_net r = ((\<lambda>_. True), (\<lambda>_. NoConn), r)"

definition off_net :: "Request \<Rightarrow> air_event" where
  "off_net r = ((\<lambda>_. False), (\<lambda>_. NoConn), r)"

definition flight :: "string \<Rightarrow> int \<Rightarrow> FlightInfo" where
  "flight f n = zero_FlightInfo\<lparr>fi_ID := f, fi_From := ''PIT'', fi_To := ''SFO'', fi_Departure := ''1'',
     fi_Capacity := n, fi_Slot := n\<rparr>"

definition create :: "string \<Rightarrow> int \<Rightarrow> Request" where
  "create f n = mk_request CREATE_FLIGHT f (VInfo (flight f n)) (Some 0) False"

definition prepare :: "string \<Rightarrow> string \<Rightarrow> int \<Rightarrow> Request" where
  "prepare t fs a = mk_request INIT_TRANS '''' (VArgs \<lparr>ta_TranType = TRANS_INIT, ta_TranID = t,
     ta_FlightID = fs, ta_Amount = a, ta_PptList = [''h''], ta_Vote = 0, ta_TM = ''tm''\<rparr>) None True"

definition decide :: "string \<Rightarrow> int \<Rightarrow> Request" where
  "decide t d = mk_request REQ_TRANS_RESPONSE '''' (VArgs \<lparr>ta_TranType = TRANS_RESPONSE, ta_TranID = t,
     ta_FlightID = '''', ta_Amount = 0, ta_PptList = [], ta_Vote = d, ta_TM = ''tm''\<rparr>) None True"

definition two_flights :: "air_event list" where
  "two_flights = map on_net [create ''U-1'' 2, create ''U-2'' 5]"

definition booking :: "air_event list" where
  "booking = map on_net [prepare ''t'' ''U-1:U-2'' 2, decide ''t'' T_COMMIT]"

abbreviation server :: AirlineServer where
  "server \<equiv> NewAirlineServer ''U'' ''h''"

lemma two_flights_result:
  "map_option (\<lambda>s. (flightBuf s ''U-1'', flightBuf s ''U-2'')) (run air_step server two_flights) =
     Some (Some (flight ''U-1'' 2), Some (flight ''U-2'' 5))"
  by code_simp

lemma booking_result:
  "map_option (\<lambda>s. (slot_of s ''U-1'', slot_of s ''U-2'', lockBuf s ''U-1'', logBuf s ''t'' = None))
     (run air_step server (two_flights @ booking)) = Some (0, 3, None, True)"
  by code_simp

subsection \<open>Properties\<close>

text \<open>C2: The store handler refines the abstract seat table: after any requests its flights,
  logs and locks are those of the table after the same prepares, commits, aborts and creations.\<close>

theorem airline_refines:
  assumes "run air_step (NewAirlineServer aid host) evs = Some s"
  shows "abs_air s = spec_run empty_table evs"
  using run_refines [OF air_inv_new assms] by simp

theorem airline_refines_witness:
  "\<exists>s. run air_step server (two_flights @ booking) = Some s \<and>
     abs_air s = spec_run empty_table (two_flights @ booking)"
  using booking_result airline_refines by (auto simp del: run.simps)

text \<open>C8: Seats are accounted for, as far as Go's \<open>int\<close> goes: over any further requests a flight keeps
  all its data except the number of free slots, which falls by the seats of the committed
  bookings, modulo \<open>2 ^ 64\<close>; it is the exact difference whenever that fits an \<open>int\<close>, and can be
  another number otherwise (\<open>slots_overflow\<close>).\<close>

theorem airline_accounting:
  assumes "run air_step (NewAirlineServer aid host) evs = Some s" and "flightBuf s f = Some i"
    and "is_int (fi_Slot i)" and "run air_step s evs' = Some s'"
    and "left = fi_Slot i - seats_taken (abs_air s) evs' f"
  shows "flightBuf s' f = Some (i\<lparr>fi_Slot := go_int left\<rparr>) \<and>
    (is_int left \<longrightarrow> flightBuf s' f = Some (i\<lparr>fi_Slot := left\<rparr>))"
proof -
  note inv = air_reachable_inv [OF assms(1)]
  have "seats (abs_air s) f = Some (fi_Slot i)" using assms(2) by (simp add: abs_air_def)
  from spec_run_seats [OF this assms(3), of evs'] run_refines [OF inv assms(4)]
  have "seats (abs_air s') f = Some (go_int left)" by (simp add: assms(5))
  moreover obtain n where "flightBuf s' f = Some (i\<lparr>fi_Slot := n\<rparr>)"
    using run_keeps_flight [OF inv assms(2,4)] by blast
  ultimately have "flightBuf s' f = Some (i\<lparr>fi_Slot := go_int left\<rparr>)" by (simp add: abs_air_def)
  then show ?thesis by (simp add: go_int_id)
qed

theorem airline_accounting_witness:
  "\<exists>s s'. run air_step server two_flights = Some s \<and> run air_step s booking = Some s' \<and>
     flightBuf s' ''U-2'' = Some ((flight ''U-2'' 5)\<lparr>fi_Slot := go_int (5 - seats_taken (abs_air s) booking ''U-2'')\<rparr>)"
proof -
  obtain s where s: "run air_step server two_flights = Some s" "flightBuf s ''U-2'' = Some (flight ''U-2'' 5)"
    using two_flights_result by auto
  then obtain s' where s': "run air_step s booking = Some s'"
    using booking_result by (auto simp: run_append split: option.splits)
  have slot: "fi_Slot (flight ''U-2'' 5) = 5" "is_int (fi_Slot (flight ''U-2'' 5))"
    by (simp_all add: flight_def is_int_def)
  from airline_accounting [OF s slot(2) s' refl] s(1) s' show ?thesis unfolding slot(1) by auto
qed

text \<open>C9: No overbooking: if no flight is created with a negative number of slots, none ever has a
  negative number of slots, whatever is booked, given back, committed or aborted, as long as the
  numbers are too small to overflow: flights have at most \<open>B\<close> slots at first, a request gives back
  at most \<open>A\<close> seats of a flight, and \<open>B\<close> and \<open>A\<close> times the number of requests fit an \<open>int\<close>. Nor is
  the number of slots ever greater than that sum. \<open>slots_overflow\<close> shows what happens otherwise.\<close>

theorem airline_never_overbooked:
  assumes "list_all (event_ok B A) evs" and "0 \<le> B" and "0 \<le> A" and "B + A * int (length evs) < 2 ^ 63"
    and "run air_step (NewAirlineServer aid host) evs = Some s" and "flightBuf s f = Some i"
  shows "0 \<le> fi_Slot i \<and> fi_Slot i \<le> B + A * int (length evs)"
proof -
  have "slots_within B (NewAirlineServer aid host)" by (simp add: slots_within_def NewAirlineServer_def)
  from run_slots [OF air_inv_new this assms(1) order_refl assms(3,4,5)] assms(6)
  show ?thesis by (simp add: slots_within_def)
qed

theorem airline_never_overbooked_witness:
  "\<exists>s i. run air_step server (two_flights @ booking) = Some s \<and> flightBuf s ''U-1'' = Some i \<and>
     0 \<le> fi_Slot i \<and> fi_Slot i \<le> 9"
proof -
  have "map_option (\<lambda>s. flightBuf s ''U-1'' \<noteq> None) (run air_step server (two_flights @ booking)) = Some True"
    by code_simp
  then obtain s i where s: "run air_step server (two_flights @ booking) = Some s" "flightBuf s ''U-1'' = Some i"
    by auto
  have "list_all (event_ok 5 1) (two_flights @ booking)" by code_simp
  moreover have "length (two_flights @ booking) = 4" by (simp add: two_flights_def booking_def)
  ultimately show ?thesis using airline_never_overbooked [of 5 1, OF _ _ _ _ s] s by auto
qed

text \<open>A flight with the greatest \<open>int\<close> as its slots, and one seat given back.\<close>

theorem slots_overflow:
  "\<exists>s i. run air_step server (map on_net [create ''U-1'' (2 ^ 63 - 1), prepare ''t'' ''U-1'' (- 1), decide ''t'' T_COMMIT]) = Some s \<and>
     flightBuf s ''U-1'' = Some i \<and> fi_Slot i = - (2 ^ 63)"
proof -
  have "map_option (\<lambda>s. map_option fi_Slot (flightBuf s ''U-1''))
      (run air_step server (map on_net [create ''U-1'' (2 ^ 63 - 1), prepare ''t'' ''U-1'' (- 1), decide ''t'' T_COMMIT])) =
      Some (Some (- (2 ^ 63)))"
    by code_simp
  then show ?thesis by auto
qed

lemma lock_flights_commit:
  assumes "lock_flights args fs s [] = (s1, logs, d)"
  shows "d = T_COMMIT \<longleftrightarrow> distinct fs \<and> (\<forall>f \<in> set fs. lockBuf s f = None \<and>
    (\<exists>i. flightBuf s f = Some i \<and> ta_Amount args \<le> fi_Slot i))"
proof -
  have "d = T_COMMIT \<longleftrightarrow> snd (reserve (\<lambda>f. map_option fi_Slot (flightBuf s f)) (ta_Amount args) fs (dom (lockBuf s)))"
    using lock_flights_reserve [OF assms] by simp
  then show ?thesis unfolding reserve_ok by auto
qed

text \<open>C25: A participant votes \<open>COMMIT\<close> exactly when the flights asked for are distinct, exist,
  have enough free slots and are not locked.\<close>

theorem participant_vote:
  assumes "req_val r = VArgs args" and "own r" and "dial (ta_TM args)"
  shows "\<exists>s' v es. initTrans dial s r = Some (s', CallTM (ta_TM args) v # es) \<and>
    (ta_Vote v = T_COMMIT \<longleftrightarrow>
       (let fs = strings_Split (ta_FlightID args) '':'' in
        distinct fs \<and> (\<forall>f \<in> set fs. lockBuf s f = None \<and>
          (\<exists>i. flightBuf s f = Some i \<and> ta_Amount args \<le> fi_Slot i))))"
proof -
  let ?fs = "strings_Split (ta_FlightID args) '':''"
  obtain s1 logs d where l: "lock_flights args ?fs s [] = (s1, logs, d)" by (metis prod_cases3)
  with lock_flights_commit [OF l] assms show ?thesis by (auto simp: initTrans_def Let_def)
qed

theorem participant_vote_witness:
  "\<exists>s' v es. initTrans (\<lambda>_. True) server (prepare ''t'' ''U-9'' 1) = Some (s', CallTM ''tm'' v # es) \<and>
     ta_Vote v \<noteq> T_COMMIT"
  using participant_vote [of "prepare ''t'' ''U-9'' 1" _ "\<lambda>_. True" server]
  by (fastforce simp: prepare_def NewAirlineServer_def Let_def strings_Split_def)

text \<open>The key of a query tells its parts apart as long as the cities have no colon.\<close>

lemma getAllFlightsKey_inject:
  assumes "CHR '':'' \<notin> set a" and "CHR '':'' \<notin> set b" and "CHR '':'' \<notin> set a'" and "CHR '':'' \<notin> set b'"
  shows "getAllFlightsKey a b d = getAllFlightsKey a' b' d' \<longleftrightarrow> a = a' \<and> b = b' \<and> d = d'"
proof -
  have parts: "strings_Split (getAllFlightsKey x y z) '':'' = x # y # strings_Split z '':''"
    if "CHR '':'' \<notin> set x" "CHR '':'' \<notin> set y" for x y z
    using that Split_char_part [of "CHR '':''" x] Split_char_part [of "CHR '':''" y]
    by (simp add: getAllFlightsKey_def SEP_def)
  show ?thesis
  proof
    assume e: "getAllFlightsKey a b d = getAllFlightsKey a' b' d'"
    from parts [OF assms(1,2), of d] parts [OF assms(3,4), of d'] have "a = a'" "b = b'" by (simp_all add: e)
    with e show "a = a' \<and> b = b' \<and> d = d'" by (simp add: getAllFlightsKey_def SEP_def)
  qed simp
qed

text \<open>C26: A query for two cities and a date lists exactly the flights of the server that leave from
  the one for the other on that date, each once, as long as no city contains a colon and no
  flight identifier a semicolon. \<open>colon_cities_collide\<close> shows why the cities must not.\<close>

theorem flights_listed:
  assumes "run air_step (NewAirlineServer aid host) evs = Some s"
    and "\<forall>f i. flightBuf s f = Some i \<longrightarrow>
      CHR '';'' \<notin> set f \<and> CHR '':'' \<notin> set (fi_From i) \<and> CHR '':'' \<notin> set (fi_To i)"
    and "CHR '':'' \<notin> set from" and "CHR '':'' \<notin> set to"
    and "reqType r = GET_ALL_FLIGHTS" and "replyc r = Some c"
    and "req_key r = getAllFlightsKey from to date"
  shows "\<exists>ids. storeHandler dial poll s r = Some (s, [Send c (RList ids)]) \<and> distinct ids \<and>
    set ids = {f. \<exists>i. flightBuf s f = Some i \<and> fi_From i = from \<and> fi_To i = to \<and> fi_Departure i = date}"
proof -
  let ?k = "getAllFlightsKey from to date"
  have q: "query_ok (flights_of (flightBuf s) ?k) (flightQueryBuf s ?k)"
    using reachable_query_inv [OF assms(1)] by (simp add: query_inv_def)
  have "\<exists>ids. (case flightQueryBuf s ?k of Some vq \<Rightarrow> strings_Split vq FLIGHTID_SEP | None \<Rightarrow> []) = ids \<and>
      distinct ids \<and> set ids = flights_of (flightBuf s) ?k"
  proof (cases "flightQueryBuf s ?k")
    case None
    with q show ?thesis by (simp add: query_ok_def)
  next
    case (Some vq)
    with q obtain ids where ids: "ids \<noteq> []" "distinct ids" "set ids = flights_of (flightBuf s) ?k"
      "vq = join FLIGHTID_SEP ids" by (auto simp: query_ok_def)
    have "\<forall>f \<in> set ids. hd FLIGHTID_SEP \<notin> set f"
      using assms(2) ids(3) by (auto simp: flights_of_def FLIGHTID_SEP_def)
    then have "strings_Split vq FLIGHTID_SEP = ids"
      using ids(1,4) Split_join [of FLIGHTID_SEP ids] by (simp add: FLIGHTID_SEP_def)
    with Some ids show ?thesis by simp
  qed
  moreover have "flights_of (flightBuf s) ?k =
      {f. \<exists>i. flightBuf s f = Some i \<and> fi_From i = from \<and> fi_To i = to \<and> fi_Departure i = date}"
    using assms(2) getAllFlightsKey_inject [OF _ _ assms(3,4)] unfolding flights_of_def flight_key_def by blast
  ultimately show ?thesis using assms(5-7) by (auto simp: storeHandler_def send_def)
qed

theorem flights_listed_witness:
  "\<exists>s ids. run air_step server two_flights = Some s \<and>
     storeHandler (\<lambda>_. True) (\<lambda>_. NoConn) s (mk_request GET_ALL_FLIGHTS (getAllFlightsKey ''PIT'' ''SFO'' ''1'') VNil (Some 7) True)
       = Some (s, [Send 7 (RList ids)]) \<and> ''U-1'' \<in> set ids"
proof -
  have "run air_step server two_flights = Some (server\<lparr>flightBuf := Map.empty(''U-1'' \<mapsto> flight ''U-1'' 2, ''U-2'' \<mapsto> flight ''U-2'' 5),
      flightQueryBuf := Map.empty(''PIT:SFO:1'' \<mapsto> ''U-1;U-2'')\<rparr>)"
    by (simp add: two_flights_def on_net_def create_def air_step_def storeHandler_def createFlight_def getFlightInfo_def
        send_def getAllFlightsKey_def flight_def FLIGHTID_SEP_def SEP_def NewAirlineServer_def Let_def)
  then obtain s where s: "run air_step server two_flights = Some s"
    "flightBuf s = Map.empty(''U-1'' \<mapsto> flight ''U-1'' 2, ''U-2'' \<mapsto> flight ''U-2'' 5)" by auto
  have cities: "fi_From (flight f n) = ''PIT''" "fi_To (flight f n) = ''SFO''" "fi_Departure (flight f n) = ''1''" for f n
    by (simp_all add: flight_def)
  have "\<forall>f i. flightBuf s f = Some i \<longrightarrow>
      CHR '';'' \<notin> set f \<and> CHR '':'' \<notin> set (fi_From i) \<and> CHR '':'' \<notin> set (fi_To i)"
    using s(2) by (auto simp: cities split: if_splits)
  from flights_listed [OF s(1) this, of "''PIT''" "''SFO''" "mk_request GET_ALL_FLIGHTS (getAllFlightsKey ''PIT'' ''SFO'' ''1'') VNil (Some 7) True"
      7 "''1''" "\<lambda>_. True" "\<lambda>_. NoConn"] s(1)
  show ?thesis by (fastforce simp: s(2) cities)
qed

text \<open>Two routes with one key.\<close>

lemma colon_cities_collide: "getAllFlightsKey ''A:B'' ''C'' d = getAllFlightsKey ''A'' ''B:C'' d"
  by (simp add: getAllFlightsKey_def SEP_def)


text \<open>A transaction that names an unknown flight after a known one leaves the known flight
  locked by nobody: it is refused, keeps its lock, and no log remembers it.\<close>

theorem refused_transaction_orphans:
  assumes "air_inv s" and "req_val r = VArgs args"
    and "strings_Split (ta_FlightID args) '':'' = [f, g]"
    and "flightBuf s f = Some i" and "ta_Amount args \<le> fi_Slot i" and "lockBuf s f = None"
    and "flightBuf s g = None"
  shows "\<exists>s' es. initTrans dial s r = Some (s', es) \<and> orphan s' f"
proof -
  let ?s = "s\<lparr>lockBuf := (lockBuf s)(f \<mapsto> True)\<rparr>"
  have "\<exists>ls. lock_flights args [f, g] s [] = (?s, ls, T_ABORT)"
    using assms(4-7) by (auto simp: getFlightInfo_def getFlightLock_def)
  moreover have "orphan ?s f"
  proof -
    have "f \<notin> set (log_flights ls)" if "logBuf s t = Some ls" for t ls
      using air_inv_log [OF assms(1) that] assms(6) by (auto simp: log_ok_def)
    then show ?thesis by (simp add: orphan_def)
  qed
  ultimately show ?thesis using assms(2,3) by (auto simp: initTrans_def Let_def)
qed

theorem refused_transaction_orphans_witness:
  "\<exists>s s' es. run air_step server two_flights = Some s \<and>
     initTrans (\<lambda>_. True) s (prepare ''t'' ''U-1:U-9'' 1) = Some (s', es) \<and> orphan s' ''U-1''"
proof -
  have "map_option (\<lambda>s. (flightBuf s ''U-1'', lockBuf s ''U-1'', flightBuf s ''U-9'')) (run air_step server two_flights)
      = Some (Some (flight ''U-1'' 2), None, None)" by code_simp
  then obtain s where s: "run air_step server two_flights = Some s" "flightBuf s ''U-1'' = Some (flight ''U-1'' 2)"
    "lockBuf s ''U-1'' = None" "flightBuf s ''U-9'' = None" by auto
  have "strings_Split ''U-1:U-9'' '':'' = [''U-1'', ''U-9'']" by code_simp
  with refused_transaction_orphans [OF air_reachable_inv [OF s(1)], of "prepare ''t'' ''U-1:U-9'' 1" _
      "''U-1''" "''U-9''" "flight ''U-1'' 2" "\<lambda>_. True"] s
  show ?thesis by (auto simp: prepare_def flight_def)
qed

text \<open>C36: Such a lock is never released: however the server goes on, the flight stays locked, so
  every later transaction that names it is refused.\<close>

theorem orphan_lock_forever:
  assumes "air_inv s" and "orphan s f" and "run air_step s evs = Some s'"
    and "req_val r = VArgs args" and "own r" and "dial (ta_TM args)"
    and "f \<in> set (strings_Split (ta_FlightID args) '':'')"
  shows "\<exists>s'' v. initTrans dial s' r = Some (s'', [CallTM (ta_TM args) v]) \<and> ta_Vote v = T_ABORT"
proof -
  have "orphan s' f" using orphan_run assms(1-3) by blast
  then have "lockBuf s' f \<noteq> None" by (simp add: orphan_def)
  let ?fs = "strings_Split (ta_FlightID args) '':''"
  obtain s1 logs d where l: "lock_flights args ?fs s' [] = (s1, logs, d)" by (metis prod_cases3)
  from lock_flights_result [OF l] obtain ds where "set ds \<inter> dom (lockBuf s') = {}"
    "d = (if ds = ?fs then T_COMMIT else T_ABORT)" by blast
  with \<open>lockBuf s' f \<noteq> None\<close> assms(7) have "d = T_ABORT" by (auto split: if_splits)
  with assms(4-6) l show ?thesis by (auto simp: initTrans_def Let_def)
qed

theorem orphan_lock_forever_witness:
  "\<exists>s' s'' v. run air_step (server\<lparr>lockBuf := [''U-1'' \<mapsto> True]\<rparr>) two_flights = Some s' \<and>
     initTrans (\<lambda>_. True) s' (prepare ''t'' ''U-1'' 1) = Some (s'', [CallTM ''tm'' v]) \<and> ta_Vote v = T_ABORT"
proof -
  let ?s = "server\<lparr>lockBuf := [''U-1'' \<mapsto> True]\<rparr>"
  have "air_inv ?s" "orphan ?s ''U-1''" by (simp_all add: air_inv_def orphan_def NewAirlineServer_def)
  moreover have "run air_step ?s two_flights \<noteq> None" by code_simp
  then obtain s' where "run air_step ?s two_flights = Some s'" by auto
  moreover have "strings_Split ''U-1'' '':'' = [''U-1'']" by code_simp
  ultimately show ?thesis
    using orphan_lock_forever [of ?s "''U-1''" two_flights s' "prepare ''t'' ''U-1'' 1"
        "\<lparr>ta_TranType = TRANS_INIT, ta_TranID = ''t'', ta_FlightID = ''U-1'', ta_Amount = 1,
          ta_PptList = [''h''], ta_Vote = 0, ta_TM = ''tm''\<rparr>" "\<lambda>_. True"]
    by (simp add: prepare_def)
qed

text \<open>When the timer of a transaction that is still undecided fires, the handler never comes
  back: it polls for ever, or sends on the channel only it reads.\<close>

theorem expired_transaction_hangs:
  assumes "reqType r = TRANS_EXPIRED" and "own r" and "logBuf s (req_key r) = Some ls"
  shows "storeHandler dial poll s r = None"
  using assms
  by (cases ls) (auto simp: storeHandler_def transactionHandler_def expireTrans_def
      send_on_own_channel_def split: option.splits)

theorem expired_transaction_hangs_witness:
  "\<exists>s. run air_step server (two_flights @ map on_net [prepare ''t'' ''U-1'' 1]) = Some s \<and>
     storeHandler (\<lambda>_. True) (\<lambda>_. Called True T_COMMIT) s (mk_request TRANS_EXPIRED ''t'' VNil None True) = None"
proof -
  have "map_option (\<lambda>s. logBuf s ''t'' \<noteq> None)
      (run air_step server (two_flights @ map on_net [prepare ''t'' ''U-1'' 1])) = Some True" by code_simp
  then obtain s ls where "run air_step server (two_flights @ map on_net [prepare ''t'' ''U-1'' 1]) = Some s"
    "logBuf s ''t'' = Some ls" by auto
  with expired_transaction_hangs [of "mk_request TRANS_EXPIRED ''t'' VNil None True" s ls] show ?thesis
    by simp
qed

text \<open>Replicas that serve the same requests in the same order, and reach the same transaction
  managers, have the same flights, queries, locks, logs and decisions.\<close>

theorem replicas_agree:
  assumes "list_all2 same_event evs evs'"
    and "run air_step (NewAirlineServer aid host) evs = Some s"
    and "run air_step (NewAirlineServer aid host') evs' = Some s'"
  shows "same_store s s'"
  by (rule run_same_store [OF _ assms]) (simp add: same_store_def NewAirlineServer_def)

theorem replicas_agree_witness:
  "\<exists>s s'. run air_step (NewAirlineServer ''U'' ''h'') (two_flights @ booking) = Some s \<and>
     run air_step (NewAirlineServer ''U'' ''g'') (two_flights @ booking) = Some s' \<and> same_store s s'"
proof -
  have "run air_step (NewAirlineServer ''U'' ''h'') (two_flights @ booking) \<noteq> None"
    "run air_step (NewAirlineServer ''U'' ''g'') (two_flights @ booking) \<noteq> None" by code_simp+
  moreover have "list_all2 same_event evs evs" for evs
    by (rule list.rel_refl) (auto simp: same_event_def)
  ultimately show ?thesis using replicas_agree by blast
qed

text \<open>Replicas that serve the same requests diverge when one of them cannot reach the
  transaction manager: after the same commit their numbers of free seats differ.\<close>

theorem replicas_diverge:
  "\<exists>s s' i i'. run air_step server (two_flights @ map on_net [prepare ''t'' ''U-1'' 1, decide ''t'' T_COMMIT]) = Some s \<and>
     run air_step server (two_flights @ [off_net (prepare ''t'' ''U-1'' 1), on_net (decide ''t'' T_COMMIT)]) = Some s' \<and>
     flightBuf s ''U-1'' = Some i \<and> flightBuf s' ''U-1'' = Some i' \<and> fi_Slot i = 1 \<and> fi_Slot i' = 2"
proof -
  have "map_option (\<lambda>s. map_option fi_Slot (flightBuf s ''U-1''))
      (run air_step server (two_flights @ map on_net [prepare ''t'' ''U-1'' 1, decide ''t'' T_COMMIT])) = Some (Some 1)"
    "map_option (\<lambda>s. map_option fi_Slot (flightBuf s ''U-1''))
      (run air_step server (two_flights @ [off_net (prepare ''t'' ''U-1'' 1), on_net (decide ''t'' T_COMMIT)])) = Some (Some 2)"
    by code_simp+
  then show ?thesis by auto
qed

end
