(* ===== verification/Airline_Paxos.thy ===== *)
theory Airline_Paxos
  imports Airline
begin

section \<open>The airline server over Paxos (contrib/airlineimpl/paxos.go, airlineimpl.go)\<close>

text \<open>
  A remote call becomes a command string, host, operation and arguments separated by at
  signs; the store handler numbers it and proposes it; \<open>PaxosResponse\<close> is called with every
  command of the log on every replica, decodes it and hands the operation to the store
  handler. The replica whose host is in the command also answers the waiting caller, on the
  channel kept under the command's number.

  The arguments travel as JSON. \<open>encoding/json\<close> is a parameter of the model: \<open>marshal\<close>, and
  \<open>unmarshal\<close>, which gets the operation because the target type depends on it. What the
  round trip relies on is stated by \<open>json_ok\<close>.
\<close>

subsection \<open>Arguments\<close>

datatype op_args =
    PutArgs string FlightInfo
  | GetArgs string bool string
  | GetAllArgs string string string
  | Tran TranArgs

type_synonym marshaller = "op_args \<Rightarrow> string"
type_synonym unmarshaller = "string \<Rightarrow> string \<Rightarrow> op_args"

fun op_of :: "op_args \<Rightarrow> string" where
  "op_of (PutArgs f i) = ''CF''"
| "op_of (GetArgs f w c) = ''GF''"
| "op_of (GetAllArgs a b d) = ''GA''"
| "op_of (Tran args) = ''TA''"

definition json_ok :: "marshaller \<Rightarrow> unmarshaller \<Rightarrow> op_args \<Rightarrow> bool" where
  "json_ok marshal unmarshal a \<longleftrightarrow>
     unmarshal (op_of a) (marshal a) = a \<and> CHR ''@'' \<notin> set (marshal a)"

text \<open>\<open>fmt.Sprintf("%s@CF@%s", as.myhostport, cmdArgs)\<close> and its three siblings.\<close>

definition paxos_cmd :: "marshaller \<Rightarrow> AirlineServer \<Rightarrow> op_args \<Rightarrow> string" where
  "paxos_cmd marshal s a = myhostport s @ ''@'' @ op_of a @ ''@'' @ marshal a"

subsection \<open>The remote calls\<close>

text \<open>Each call puts one request on the channel of the store handler and waits on \<open>c\<close>.\<close>

definition CreateFlight :: "marshaller \<Rightarrow> AirlineServer \<Rightarrow> string \<Rightarrow> FlightInfo \<Rightarrow> nat \<Rightarrow> Request" where
  "CreateFlight marshal s f i c =
     mk_request PAXOS_REQUEST (paxos_cmd marshal s (PutArgs f i)) VNil (Some c) True"

fun CreateFlight_reply :: "reply_value \<Rightarrow> airline_status option" where
  "CreateFlight_reply (RBool status) = Some (if status then A_OK else EFLIGHTEXISTS)"
| "CreateFlight_reply _ = None"

definition GetFlight :: "marshaller \<Rightarrow> AirlineServer \<Rightarrow> string \<Rightarrow> bool \<Rightarrow> string \<Rightarrow> nat \<Rightarrow> Request" where
  "GetFlight marshal s f w l c =
     mk_request PAXOS_REQUEST (paxos_cmd marshal s (GetArgs f w l)) VNil (Some c) True"

fun GetFlight_reply :: "reply_value \<Rightarrow> GetReply option" where
  "GetFlight_reply (RInfo (Some i)) = Some \<lparr>gr_Status = A_OK, gr_FlightInfo = i\<rparr>"
| "GetFlight_reply (RInfo None) = Some \<lparr>gr_Status = EFLIGHTNOTFOUND, gr_FlightInfo = zero_FlightInfo\<rparr>"
| "GetFlight_reply _ = None"

definition GetAllFlightIDs ::
  "marshaller \<Rightarrow> AirlineServer \<Rightarrow> string \<Rightarrow> string \<Rightarrow> string \<Rightarrow> nat \<Rightarrow> Request" where
  "GetAllFlightIDs marshal s from to date c =
     mk_request PAXOS_REQUEST (paxos_cmd marshal s (GetAllArgs from to date)) VNil (Some c) True"

fun GetAllFlightIDs_reply :: "reply_value \<Rightarrow> GetAllReply option" where
  "GetAllFlightIDs_reply (RList ids) = Some \<lparr>gar_Status = A_OK, gar_FlightIDs = ids\<rparr>"
| "GetAllFlightIDs_reply _ = None"

definition Transaction :: "marshaller \<Rightarrow> AirlineServer \<Rightarrow> TranArgs \<Rightarrow> nat \<Rightarrow> Request" where
  "Transaction marshal s args c =
     mk_request PAXOS_REQUEST (paxos_cmd marshal s (Tran args)) VNil
       (if ta_TranType args = TRANS_OLD then Some c else None) True"

text \<open>The status of the reply; a call that does not wait gets \<open>OK\<close> at once.\<close>

fun Transaction_reply :: "tran_type \<Rightarrow> reply_value \<Rightarrow> int option" where
  "Transaction_reply TRANS_OLD (RInt decision) = Some decision"
| "Transaction_reply TRANS_OLD _ = None"
| "Transaction_reply _ _ = Some airlineproto_OK"

subsection \<open>Commands from the log\<close>

text \<open>
  The functions called by \<open>PaxosResponse\<close> send a request with a channel of their own, wait
  for the answer and pass it on if the command is the replica's own. Waiting for an answer
  that the handler does not send does not end.
\<close>

definition relay ::
  "bool \<Rightarrow> nat option \<Rightarrow> (AirlineServer \<times> air_effect list) option \<Rightarrow>
     (AirlineServer \<times> air_effect list) option" where
  "relay is_own oldReplyc result =
     (case result of
        Some (s, [Send _ v]) \<Rightarrow>
          (if is_own then map_option (Pair s) (send oldReplyc v) else Some (s, []))
      | _ \<Rightarrow> None)"

definition PaxosCreateFlight where
  "PaxosCreateFlight dial poll s f i oldReplyc is_own =
     relay is_own oldReplyc
       (storeHandler dial poll s (mk_request CREATE_FLIGHT f (VInfo i) (Some 0) is_own))"

definition PaxosGetFlight where
  "PaxosGetFlight dial poll s f oldReplyc is_own =
     relay is_own oldReplyc
       (storeHandler dial poll s (mk_request GET_FLIGHT f VNil (Some 0) is_own))"

definition PaxosGetAllFlightIDs where
  "PaxosGetAllFlightIDs dial poll s from to date oldReplyc is_own =
     relay is_own oldReplyc
       (storeHandler dial poll s
          (mk_request GET_ALL_FLIGHTS (getAllFlightsKey from to date) VNil (Some 0) is_own))"

definition PaxosTransaction where
  "PaxosTransaction dial poll s args oldReplyc is_own =
     (case ta_TranType args of
        TRANS_INIT \<Rightarrow> storeHandler dial poll s (mk_request INIT_TRANS '''' (VArgs args) None is_own)
      | TRANS_RESPONSE \<Rightarrow>
          storeHandler dial poll s (mk_request REQ_TRANS_RESPONSE '''' (VArgs args) None is_own)
      | TRANS_OLD_RESPONSE \<Rightarrow>
          storeHandler dial poll s (mk_request REQ_TRANS_OLD_RESPONSE '''' (VArgs args) None is_own)
      | TRANS_OLD \<Rightarrow>
          relay is_own oldReplyc
            (storeHandler dial poll s (mk_request REQ_TRANS_OLD '''' (VArgs args) (Some 0) is_own)))"

text \<open>\<open>strconv.Atoi\<close> returns 0 with the error the code ignores; an index out of range panics.\<close>

definition PaxosResponse ::
  "unmarshaller \<Rightarrow> (string \<Rightarrow> bool) \<Rightarrow> (nat \<Rightarrow> poll_result) \<Rightarrow> AirlineServer \<Rightarrow> string \<Rightarrow>
     (AirlineServer \<times> air_effect list) option" where
  "PaxosResponse unmarshal dial poll s cmd =
     (let cmdArgs = strings_Split cmd ''@'' in
      if length cmdArgs < 4 then None
      else
        (let cmdNo = (case Atoi (cmdArgs ! 0) of Some n \<Rightarrow> n | None \<Rightarrow> 0);
             op = cmdArgs ! 2;
             args = unmarshal op (cmdArgs ! 3);
             is_own = (cmdArgs ! 1 = myhostport s) in
         if op \<notin> {''CF'', ''GF'', ''GA'', ''TA''} then Some (s, [])
         else if is_own \<and> oldReplycMap s cmdNo = None then Some (s, [])
         else
           (let c = (if is_own then the (oldReplycMap s cmdNo) else None);
                s1 = (if is_own then s\<lparr>oldReplycMap := (oldReplycMap s)(cmdNo := None)\<rparr> else s) in
            case args of
              PutArgs f i \<Rightarrow> PaxosCreateFlight dial poll s1 f i c is_own
            | GetArgs f w l \<Rightarrow> PaxosGetFlight dial poll s1 f c is_own
            | GetAllArgs a b d \<Rightarrow> PaxosGetAllFlightIDs dial poll s1 a b d c is_own
            | Tran t \<Rightarrow> PaxosTransaction dial poll s1 t c is_own)))"

subsection \<open>A command reaches every replica as it was sent\<close>

text \<open>The command as \<open>storeHandler\<close> proposes it, with its number in front.\<close>

lemma PAXOS_REQUEST_result:
  "reqType r = PAXOS_REQUEST \<Longrightarrow>
     storeHandler dial poll s r =
       Some (s\<lparr>oldReplycMap := (oldReplycMap s)(cmdNO s \<mapsto> replyc r), cmdNO := cmdNO s + 1\<rparr>,
             [ProposeCmd (Itoa (cmdNO s) @ ''@'' @ req_key r)])"
  by (simp add: storeHandler_def)

lemma Split_command:
  assumes "CHR ''@'' \<notin> set host" and "CHR ''@'' \<notin> set json" and "CHR ''@'' \<notin> set op"
  shows "strings_Split (Itoa n @ ''@'' @ host @ ''@'' @ op @ ''@'' @ json) ''@'' = [Itoa n, host, op, json]"
  using assms by (simp add: Split_char_part Split_char_whole)

lemma op_of_no_at [simp]: "CHR ''@'' \<notin> set (op_of a)"
  by (cases a) simp_all

lemma op_of_known [simp]: "op_of a \<in> {''CF'', ''GF'', ''GA'', ''TA''}"
  by (cases a) simp_all

definition apply_op ::
  "(string \<Rightarrow> bool) \<Rightarrow> (nat \<Rightarrow> poll_result) \<Rightarrow> AirlineServer \<Rightarrow> op_args \<Rightarrow> nat option \<Rightarrow> bool \<Rightarrow>
     (AirlineServer \<times> air_effect list) option" where
  "apply_op dial poll s a c is_own =
     (case a of
        PutArgs f i \<Rightarrow> PaxosCreateFlight dial poll s f i c is_own
      | GetArgs f w l \<Rightarrow> PaxosGetFlight dial poll s f c is_own
      | GetAllArgs x y d \<Rightarrow> PaxosGetAllFlightIDs dial poll s x y d c is_own
      | Tran t \<Rightarrow> PaxosTransaction dial poll s t c is_own)"

lemma PaxosResponse_command:
  assumes "json_ok marshal unmarshal a" and "CHR ''@'' \<notin> set host"
  shows "PaxosResponse unmarshal dial poll s (Itoa n @ ''@'' @ host @ ''@'' @ op_of a @ ''@'' @ marshal a) =
    (if host \<noteq> myhostport s then apply_op dial poll s a None False
     else case oldReplycMap s n of
       None \<Rightarrow> Some (s, [])
     | Some c \<Rightarrow> apply_op dial poll (s\<lparr>oldReplycMap := (oldReplycMap s)(n := None)\<rparr>) a c True)"
proof -
  have "strings_Split (Itoa n @ ''@'' @ host @ ''@'' @ op_of a @ ''@'' @ marshal a) ''@'' =
      [Itoa n, host, op_of a, marshal a]"
    using assms by (intro Split_command) (simp_all add: json_ok_def)
  moreover have "unmarshal (op_of a) (marshal a) = a" using assms(1) by (simp add: json_ok_def)
  ultimately show ?thesis
    by (cases a; cases "host = myhostport s"; cases "oldReplycMap s n")
       (simp_all add: PaxosResponse_def Let_def Atoi_Itoa apply_op_def)
qed

subsection \<open>Properties\<close>

text \<open>C27: A flight creation sent to one replica, numbered, proposed, put into the log and handed
  to \<open>PaxosResponse\<close>, makes that replica create the flight and answer its caller, and every
  other replica create it without answering.\<close>

theorem create_flight_through_log:
  assumes "json_ok marshal unmarshal (PutArgs f i)" and "CHR ''@'' \<notin> set (myhostport s)"
    and "storeHandler dial poll s (CreateFlight marshal s f i c) = Some (s1, [ProposeCmd cmd])"
    and "flightBuf s f = None" and "flightBuf t f = None" and "myhostport t \<noteq> myhostport s"
  shows "\<exists>s2 t2. PaxosResponse unmarshal dial poll s1 cmd = Some (s2, [Send c (RBool True)]) \<and>
    PaxosResponse unmarshal dial poll t cmd = Some (t2, []) \<and>
    flightBuf s2 f = Some i \<and> flightBuf t2 f = Some i"
proof -
  have e: "s1 = s\<lparr>oldReplycMap := (oldReplycMap s)(cmdNO s \<mapsto> Some c), cmdNO := cmdNO s + 1\<rparr>"
    "cmd = Itoa (cmdNO s) @ ''@'' @ myhostport s @ ''@'' @ op_of (PutArgs f i) @ ''@'' @ marshal (PutArgs f i)"
    using assms(3) by (auto simp: PAXOS_REQUEST_result CreateFlight_def paxos_cmd_def)
  note cmd = PaxosResponse_command [OF assms(1,2), of dial poll _ "cmdNO s", folded e(2)]
  show ?thesis
    using assms(4-6) unfolding cmd e(1)
    by (auto simp: apply_op_def PaxosCreateFlight_def storeHandler_def createFlight_def
        getFlightInfo_def send_def relay_def Let_def)
qed

theorem create_flight_through_log_witness:
  "\<exists>cmd s2. PaxosResponse (\<lambda>_ _. PutArgs ''U-1'' zero_FlightInfo) (\<lambda>_. True) (\<lambda>_. NoConn)
     (fst (the (storeHandler (\<lambda>_. True) (\<lambda>_. NoConn) (NewAirlineServer ''U'' ''h'')
        (CreateFlight (\<lambda>_. ''{}'') (NewAirlineServer ''U'' ''h'') ''U-1'' zero_FlightInfo 7)))) cmd
     = Some (s2, [Send 7 (RBool True)]) \<and> flightBuf s2 ''U-1'' = Some zero_FlightInfo"
proof -
  let ?s = "NewAirlineServer ''U'' ''h''"
  let ?r = "CreateFlight (\<lambda>_. ''{}'') ?s ''U-1'' zero_FlightInfo 7"
  obtain s1 cmd where s1: "storeHandler (\<lambda>_. True) (\<lambda>_. NoConn) ?s ?r = Some (s1, [ProposeCmd cmd])"
    by (simp add: PAXOS_REQUEST_result CreateFlight_def)
  have "json_ok (\<lambda>_. ''{}'') (\<lambda>_ _. PutArgs ''U-1'' zero_FlightInfo) (PutArgs ''U-1'' zero_FlightInfo)"
    by (simp add: json_ok_def)
  from create_flight_through_log [OF this _ s1, of "NewAirlineServer ''U'' ''g''"] s1 show ?thesis
    by (auto simp: NewAirlineServer_def)
qed

text \<open>A query for an old decision sent to an airline stops every replica: the store handler
  has no case for it, so \<open>PaxosResponse\<close> waits for an answer that nobody sends.\<close>

theorem old_decision_query_blocks:
  assumes "json_ok marshal unmarshal (Tran args)" and "ta_TranType args = TRANS_OLD"
    and "CHR ''@'' \<notin> set host" and "host = myhostport s \<longrightarrow> oldReplycMap s n \<noteq> None"
  shows "PaxosResponse unmarshal dial poll s
    (Itoa n @ ''@'' @ host @ ''@'' @ op_of (Tran args) @ ''@'' @ marshal (Tran args)) = None"
  using assms(4) unfolding PaxosResponse_command [OF assms(1,3)]
  by (auto simp: apply_op_def PaxosTransaction_def assms(2) storeHandler_def relay_def)

definition old_query :: TranArgs where
  "old_query = \<lparr>ta_TranType = TRANS_OLD, ta_TranID = ''t'', ta_FlightID = '''', ta_Amount = 0,
     ta_PptList = [], ta_Vote = 0, ta_TM = ''''\<rparr>"

theorem old_decision_query_blocks_witness:
  "PaxosResponse (\<lambda>_ _. Tran old_query) (\<lambda>_. True) (\<lambda>_. NoConn) (NewAirlineServer ''U'' ''h'')
     (Itoa 0 @ ''@'' @ ''g'' @ ''@'' @ op_of (Tran old_query) @ ''@'' @ ''{}'') = None"
  by (rule old_decision_query_blocks [where marshal = "\<lambda>_. ''{}''"])
     (simp_all add: json_ok_def old_query_def NewAirlineServer_def)

end
