(* ===== verification/Paxos_Msg.thy ===== *)
theory Paxos_Msg
  imports Go_Strings
begin

section \<open>Messages of libpaxos (contrib/libpaxos/libpaxos.go)\<close>

text \<open>
  The message kinds, the message and packet structs. Go's \<open>int\<close> is modelled by \<open>int\<close>:
  proposal and instance numbers only grow by small steps.
\<close>

datatype msg_type =
    NOP | PREPARE | PREPARE_OK | PREPARE_REJECT | ACCEPT | ACCEPT_OK | ACCEPT_REJECT | COMMIT
  | PROPOSE | LEARN | EPOCH

record Msg =
  MsgType :: msg_type
  Proposal :: int
  Value :: string
  Instance :: int

record Packet =
  PacketMsg :: Msg
  PacketFrom :: string

abbreviation mk_msg :: "msg_type \<Rightarrow> int \<Rightarrow> string \<Rightarrow> int \<Rightarrow> Msg" where
  "mk_msg t n v i \<equiv> \<lparr>MsgType = t, Proposal = n, Value = v, Instance = i\<rparr>"

abbreviation mk_packet :: "Msg \<Rightarrow> string \<Rightarrow> Packet" where
  "mk_packet m a \<equiv> \<lparr>PacketMsg = m, PacketFrom = a\<rparr>"

text \<open>The zero value \<open>Msg{}\<close>.\<close>

definition zero_msg :: Msg where
  "zero_msg = mk_msg NOP 0 '''' 0"

lemmas msg_splits = msg_type.splits

end
