(* ===== verification/Acceptor.thy ===== *)
theory Acceptor
  imports Paxos_Msg
begin

section \<open>The acceptor (contrib/libpaxos/acceptor.go)\<close>

text \<open>
  Per instance, the highest proposal number promised, the proposal number accepted and the
  value accepted with it. \<open>ac_operate\<close> is the handler; it creates the entry of an instance
  on the first packet that names it, whatever the packet's kind.
  The lemmas show that promises never go down, that nothing below a promise is accepted,
  and that a run of the acceptor emits at most one \<open>ACCEPT_OK\<close> per instance and ballot.
\<close>

subsection \<open>State\<close>

record AcceptorProtocol =
  ap_proposal :: int
  ap_value :: string
  ap_proposalAccepted :: int

record Acceptor =
  ac_proto :: "int \<rightharpoonup> AcceptorProtocol"

definition ap_init :: AcceptorProtocol where
  "ap_init = \<lparr>ap_proposal = 0, ap_value = '''', ap_proposalAccepted = 0\<rparr>"

definition ac_init :: Acceptor where
  "ac_init = \<lparr>ac_proto = Map.empty\<rparr>"

subsection \<open>The handler\<close>

definition ac_operate :: "Acceptor \<Rightarrow> Packet \<Rightarrow> Acceptor \<times> Msg option" where
  "ac_operate ac p =
     (let msg = PacketMsg p;
          proto = (case ac_proto ac (Instance msg) of None \<Rightarrow> ap_init | Some ap \<Rightarrow> ap);
          put = (\<lambda>ap. ac\<lparr>ac_proto := (ac_proto ac)(Instance msg \<mapsto> ap)\<rparr>) in
      case MsgType msg of
        PREPARE \<Rightarrow>
          (if Proposal msg > ap_proposal proto
           then (put (proto\<lparr>ap_proposal := Proposal msg\<rparr>),
                 Some (mk_msg PREPARE_OK (ap_proposalAccepted proto) (ap_value proto) (Instance msg)))
           else (put proto, Some (mk_msg PREPARE_REJECT (ap_proposal proto) '''' (Instance msg))))
      | ACCEPT \<Rightarrow>
          (if Proposal msg \<ge> ap_proposal proto \<and> Proposal msg \<noteq> ap_proposalAccepted proto
           then (put (proto\<lparr>ap_proposal := Proposal msg, ap_proposalAccepted := Proposal msg,
                       ap_value := Value msg\<rparr>),
                 Some (mk_msg ACCEPT_OK (Proposal msg) (Value msg) (Instance msg)))
           else if Proposal msg < ap_proposal proto
           then (put proto, Some (mk_msg ACCEPT_REJECT 0 '''' 0))
           else (put proto, None))
      | _ \<Rightarrow> (put proto, None))"

text \<open>The state of an instance; an absent entry reads as the initial one.\<close>

definition ac_get :: "Acceptor \<Rightarrow> int \<Rightarrow> AcceptorProtocol" where
  "ac_get ac i = (case ac_proto ac i of None \<Rightarrow> ap_init | Some ap \<Rightarrow> ap)"

lemma ac_get_init [simp]: "ac_get ac_init i = ap_init"
  by (simp add: ac_get_def ac_init_def)

lemma ac_get_put [simp]:
  "ac_get (ac\<lparr>ac_proto := (ac_proto ac)(i \<mapsto> ap)\<rparr>) j = (if j = i then ap else ac_get ac j)"
  by (simp add: ac_get_def)

lemma ac_operate_get:
  "ac_get (fst (ac_operate ac p)) i =
     (let ap = ac_get ac i; m = PacketMsg p in
      if Instance m \<noteq> i then ap
      else if MsgType m = PREPARE \<and> ap_proposal ap < Proposal m
      then ap\<lparr>ap_proposal := Proposal m\<rparr>
      else if MsgType m = ACCEPT \<and> ap_proposal ap \<le> Proposal m \<and> Proposal m \<noteq> ap_proposalAccepted ap
      then \<lparr>ap_proposal = Proposal m, ap_value = Value m, ap_proposalAccepted = Proposal m\<rparr>
      else ap)"
  by (auto simp: ac_operate_def ac_get_def [symmetric] Let_def split: msg_splits)

lemma ac_operate_other:
  "j \<noteq> Instance (PacketMsg p) \<Longrightarrow> ac_get (fst (ac_operate ac p)) j = ac_get ac j"
  by (simp add: ac_operate_def Let_def split: msg_splits)

lemma ac_operate_silent:
  "MsgType (PacketMsg p) \<noteq> PREPARE \<Longrightarrow> MsgType (PacketMsg p) \<noteq> ACCEPT \<Longrightarrow>
     snd (ac_operate ac p) = None \<and> ac_get (fst (ac_operate ac p)) i = ac_get ac i"
  by (auto simp: ac_operate_def Let_def ac_get_def split: msg_splits)

subsection \<open>The invariant and the order of states\<close>

definition ap_ok :: "AcceptorProtocol \<Rightarrow> bool" where
  "ap_ok ap \<longleftrightarrow> 0 \<le> ap_proposalAccepted ap \<and> ap_proposalAccepted ap \<le> ap_proposal ap"

definition ac_ok :: "Acceptor \<Rightarrow> bool" where
  "ac_ok ac \<longleftrightarrow> (\<forall>i. ap_ok (ac_get ac i))"

definition ac_le :: "Acceptor \<Rightarrow> Acceptor \<Rightarrow> bool" where
  "ac_le a b \<longleftrightarrow> (\<forall>i. ap_proposal (ac_get a i) \<le> ap_proposal (ac_get b i) \<and>
     ap_proposalAccepted (ac_get a i) \<le> ap_proposalAccepted (ac_get b i))"

lemma ap_ok_init [simp]: "ap_ok ap_init"
  by (simp add: ap_ok_def ap_init_def)

lemma ac_ok_init [simp]: "ac_ok ac_init"
  by (simp add: ac_ok_def)

lemma ac_le_refl [simp]: "ac_le a a"
  by (simp add: ac_le_def)

lemma ac_le_trans: "ac_le a b \<Longrightarrow> ac_le b c \<Longrightarrow> ac_le a c"
  unfolding ac_le_def by (meson order_trans)

lemma ap_step_ok: "ap_ok (ac_get ac i) \<Longrightarrow> ap_ok (ac_get (fst (ac_operate ac p)) i)"
  by (auto simp: ac_operate_get ap_ok_def Let_def)

lemma ap_step_le:
  "ap_ok (ac_get ac i) \<Longrightarrow>
     ap_proposal (ac_get ac i) \<le> ap_proposal (ac_get (fst (ac_operate ac p)) i) \<and>
     ap_proposalAccepted (ac_get ac i) \<le> ap_proposalAccepted (ac_get (fst (ac_operate ac p)) i)"
  by (auto simp: ac_operate_get ap_ok_def Let_def)

lemma ac_operate_ok: "ac_ok ac \<Longrightarrow> ac_ok (fst (ac_operate ac p))"
  by (simp add: ac_ok_def ap_step_ok)

lemma ac_operate_le: "ac_ok ac \<Longrightarrow> ac_le ac (fst (ac_operate ac p))"
  by (simp add: ac_ok_def ac_le_def ap_step_le)

subsection \<open>What an answer says\<close>

lemma ac_operate_ACCEPT_OK:
  assumes "ac_operate ac p = (ac', Some m)" and "MsgType m = ACCEPT_OK"
  shows "MsgType (PacketMsg p) = ACCEPT"
    and "m = mk_msg ACCEPT_OK (Proposal (PacketMsg p)) (Value (PacketMsg p)) (Instance (PacketMsg p))"
    and "ap_proposal (ac_get ac (Instance m)) \<le> Proposal m"
    and "ap_proposalAccepted (ac_get ac (Instance m)) \<noteq> Proposal m"
    and "ac_get ac' (Instance m) =
      \<lparr>ap_proposal = Proposal m, ap_value = Value m, ap_proposalAccepted = Proposal m\<rparr>"
  using assms
  by (auto simp: ac_operate_def ac_get_def [symmetric] Let_def split: msg_splits if_splits)

lemma ac_operate_PREPARE_OK:
  assumes "ac_operate ac p = (ac', Some m)" and "MsgType m = PREPARE_OK"
  shows "MsgType (PacketMsg p) = PREPARE" and "Instance m = Instance (PacketMsg p)"
    and "Proposal m = ap_proposalAccepted (ac_get ac (Instance m))"
    and "Value m = ap_value (ac_get ac (Instance m))"
    and "ap_proposal (ac_get ac (Instance m)) < Proposal (PacketMsg p)"
    and "ac_get ac' (Instance m) =
      (ac_get ac (Instance m))\<lparr>ap_proposal := Proposal (PacketMsg p)\<rparr>"
  using assms
  by (auto simp: ac_operate_def ac_get_def [symmetric] Let_def split: msg_splits if_splits)

lemma ac_operate_kinds:
  "ac_operate ac p = (ac', Some m) \<Longrightarrow>
     MsgType m \<in> {PREPARE_OK, PREPARE_REJECT, ACCEPT_OK, ACCEPT_REJECT}"
  by (auto simp: ac_operate_def Let_def split: msg_splits if_splits)

text \<open>The accepted pair of an instance changes only by emitting \<open>ACCEPT_OK\<close> for it.\<close>

lemma ac_operate_accepted:
  assumes "ac_operate ac p = (ac', out)"
  shows "(ap_proposalAccepted (ac_get ac' i) = ap_proposalAccepted (ac_get ac i) \<and>
          ap_value (ac_get ac' i) = ap_value (ac_get ac i)) \<or>
         (MsgType (PacketMsg p) = ACCEPT \<and> Instance (PacketMsg p) = i \<and>
          ap_proposalAccepted (ac_get ac' i) = Proposal (PacketMsg p) \<and>
          ap_value (ac_get ac' i) = Value (PacketMsg p))"
  using assms
  by (auto simp: ac_operate_def ac_get_def [symmetric] Let_def split: msg_splits if_splits)

subsection \<open>Runs\<close>

fun ac_run :: "Acceptor \<Rightarrow> Packet list \<Rightarrow> Acceptor \<times> Msg list" where
  "ac_run ac [] = (ac, [])"
| "ac_run ac (p # ps) =
     (case ac_operate ac p of (ac1, out) \<Rightarrow>
      case ac_run ac1 ps of (ac2, outs) \<Rightarrow>
        (ac2, (case out of None \<Rightarrow> outs | Some m \<Rightarrow> m # outs)))"

definition accepts_of :: "Msg list \<Rightarrow> (int \<times> int) list" where
  "accepts_of ms = map (\<lambda>m. (Instance m, Proposal m)) (filter (\<lambda>m. MsgType m = ACCEPT_OK) ms)"

lemma accepts_of_simps [simp]:
  "accepts_of [] = []"
  "accepts_of (m # ms) =
     (if MsgType m = ACCEPT_OK then (Instance m, Proposal m) # accepts_of ms else accepts_of ms)"
  by (simp_all add: accepts_of_def)

lemma ac_run_ok: "ac_ok ac \<Longrightarrow> ac_ok (fst (ac_run ac ps)) \<and> ac_le ac (fst (ac_run ac ps))"
proof (induction ps arbitrary: ac)
  case Nil
  then show ?case by simp
next
  case (Cons p ps)
  obtain ac1 out where st: "ac_operate ac p = (ac1, out)" by fastforce
  with Cons.prems ac_operate_ok [of ac p] ac_operate_le [of ac p]
  have ok: "ac_ok ac1" and le: "ac_le ac ac1" by auto
  from Cons.IH [OF ok] ac_le_trans [OF le] st show ?case
    by (auto split: prod.splits)
qed

text \<open>A ballot that is no longer acceptable is never accepted again.\<close>

lemma ac_run_no_reaccept:
  assumes "ac_ok ac" and "b \<le> ap_proposalAccepted (ac_get ac i) \<or> b < ap_proposal (ac_get ac i)"
  shows "(i, b) \<notin> set (accepts_of (snd (ac_run ac ps)))"
  using assms
proof (induction ps arbitrary: ac)
  case Nil
  then show ?case by simp
next
  case (Cons p ps)
  obtain ac1 out where st: "ac_operate ac p = (ac1, out)" by fastforce
  from Cons.prems(1) st have ok: "ac_ok ac1" "ac_le ac ac1"
    using ac_operate_ok [of ac p] ac_operate_le [of ac p] by simp_all
  have "b \<le> ap_proposalAccepted (ac_get ac1 i) \<or> b < ap_proposal (ac_get ac1 i)"
    using spec [OF ok(2) [unfolded ac_le_def], of i] Cons.prems(2) by linarith
  with Cons.IH ok(1) have rest: "(i, b) \<notin> set (accepts_of (snd (ac_run ac1 ps)))" by blast
  have "ap_ok (ac_get ac i)" using Cons.prems(1) by (simp add: ac_ok_def)
  with Cons.prems(2) st have "out = Some m \<Longrightarrow> MsgType m = ACCEPT_OK \<Longrightarrow> (Instance m, Proposal m) \<noteq> (i, b)"
    for m
    using ac_operate_ACCEPT_OK(3,4) [of ac p ac1 m] by (auto simp: ap_ok_def)
  with rest st show ?case by (auto split: prod.splits option.splits)
qed

lemma ac_run_accepts_distinct:
  "ac_ok ac \<Longrightarrow> distinct (accepts_of (snd (ac_run ac ps)))"
proof (induction ps arbitrary: ac)
  case Nil
  then show ?case by simp
next
  case (Cons p ps)
  obtain ac1 out where st: "ac_operate ac p = (ac1, out)" by fastforce
  from Cons.prems st have ok: "ac_ok ac1"
    using ac_operate_ok [of ac p] by simp
  have "out = Some m \<Longrightarrow> MsgType m = ACCEPT_OK \<Longrightarrow>
      (Instance m, Proposal m) \<notin> set (accepts_of (snd (ac_run ac1 ps)))" for m
    using ac_run_no_reaccept [OF ok, of "Proposal m" "Instance m" ps]
      ac_operate_ACCEPT_OK(5) [of ac p ac1 m] st by simp
  with Cons.IH [OF ok] st show ?case by (auto split: prod.splits option.splits)
qed


subsection \<open>Properties\<close>

text \<open>C30: In its whole life an acceptor sends at most one \<open>ACCEPT_OK\<close> per instance and ballot.\<close>

theorem acceptor_accepts_once: "distinct (accepts_of (snd (ac_run ac_init ps)))"
  by (rule ac_run_accepts_distinct) simp

text \<open>C31: A promise is kept: after answering \<open>PREPARE_OK\<close> to proposal \<open>n\<close> an acceptor accepts
  no lower ballot at that instance, whatever it receives.\<close>

theorem acceptor_keeps_promise:
  assumes "ac_operate (fst (ac_run ac_init ps)) p = (ac, Some m)" and "MsgType m = PREPARE_OK"
    and "b < Proposal (PacketMsg p)"
  shows "(Instance m, b) \<notin> set (accepts_of (snd (ac_run ac qs)))"
proof (rule ac_run_no_reaccept)
  have "ac_ok (fst (ac_run ac_init ps))" using ac_run_ok [of ac_init ps] by simp
  from ac_operate_ok [OF this, of p] assms(1) show "ac_ok ac" by simp
  show "b \<le> ap_proposalAccepted (ac_get ac (Instance m)) \<or> b < ap_proposal (ac_get ac (Instance m))"
    using ac_operate_PREPARE_OK(6) [OF assms(1,2)] assms(3) by simp
qed

theorem acceptor_keeps_promise_witness:
  "(1, 1) \<notin> set (accepts_of (snd (ac_run (fst (ac_operate ac_init (mk_packet (mk_msg PREPARE 2 '''' 1) ''a'')))
     [mk_packet (mk_msg ACCEPT 1 ''x'' 1) ''a''])))"
  using acceptor_keeps_promise [of "[]" "mk_packet (mk_msg PREPARE 2 '''' 1) ''a''"
      "fst (ac_operate ac_init (mk_packet (mk_msg PREPARE 2 '''' 1) ''a''))" "mk_msg PREPARE_OK 0 '''' 1" 1
      "[mk_packet (mk_msg ACCEPT 1 ''x'' 1) ''a'']"]
  by (simp add: ac_operate_def ac_init_def ap_init_def)

end
