(* ===== verification/Coordinator.thy ===== *)
theory Coordinator
  imports Paxos_Msg
begin

section \<open>The coordinator (contrib/libpaxos/coordinator.go)\<close>

text \<open>
  Per instance, the value to propose, the highest accepted pair reported by the acceptors,
  the value sent in phase 2 (empty until it is sent), the set of replicas that answered and
  the proposal number used. \<open>skip_to\<close> is the loop of \<open>newProposalNumber\<close>, which does not
  return when \<open>nodes\<close> is 0 and the highest rejected number is ahead; the lemmas prove that
  it returns for a positive \<open>nodes\<close>, that it keeps the residue class of the node's position,
  so that proposal numbers of different nodes differ, and that one coordinator never uses a
  number twice.
\<close>

subsection \<open>State\<close>

record CoordinatorProtocol =
  cp_pvalue :: string
  cp_aproposal :: int
  cp_avalue :: string
  cp_nvalue :: string
  cp_responses :: "(string, bool) gomap"
  cp_proposal :: int

record Coordinator =
  c_nodepos :: int
  c_nodes :: int
  c_quorum :: int
  c_proto :: "int \<rightharpoonup> CoordinatorProtocol"
  c_instance :: int
  c_nextproposal :: int
  c_highproposal :: int

definition cp_init :: CoordinatorProtocol where
  "cp_init = \<lparr>cp_pvalue = '''', cp_aproposal = 0, cp_avalue = '''', cp_nvalue = '''',
     cp_responses = [], cp_proposal = 0\<rparr>"

text \<open>\<open>init\<close>, on the struct literal of \<open>NewLibpaxos\<close>.\<close>

definition c_init :: "int \<Rightarrow> int \<Rightarrow> int \<Rightarrow> Coordinator" where
  "c_init nodepos nodes quorum =
     \<lparr>c_nodepos = nodepos, c_nodes = nodes, c_quorum = quorum, c_proto = Map.empty,
      c_instance = 0, c_nextproposal = nodepos, c_highproposal = 0\<rparr>"

subsection \<open>Proposal and instance numbers\<close>

partial_function (option) skip_to :: "int \<Rightarrow> int \<Rightarrow> int \<Rightarrow> int option" where
  "skip_to nodes high next = (if next < high then skip_to nodes high (next + nodes) else Some next)"

declare skip_to.simps [code]

definition newProposalNumber :: "Coordinator \<Rightarrow> (int \<times> Coordinator) option" where
  "newProposalNumber c =
     (case skip_to (c_nodes c) (c_highproposal c) (c_nextproposal c + c_nodes c) of
        None \<Rightarrow> None
      | Some np \<Rightarrow> Some (c_nextproposal c, c\<lparr>c_nextproposal := np\<rparr>))"

definition newInstanceNumber :: "Coordinator \<Rightarrow> int \<times> Coordinator" where
  "newInstanceNumber c = (c_instance c + 1, c\<lparr>c_instance := c_instance c + 1\<rparr>)"

lemma skip_to_done [simp]: "\<not> next < high \<Longrightarrow> skip_to nodes high next = Some next"
  by (subst skip_to.simps) simp

lemma skip_to_result:
  assumes "0 < nodes"
  shows "\<exists>r. skip_to nodes high next = Some r \<and> next \<le> r \<and> high \<le> r \<and> r mod nodes = next mod nodes \<and>
     (r = next \<or> r < high + nodes)"
proof (induction "nat (high - next)" arbitrary: "next" rule: less_induct)
  case less
  show ?case
  proof (cases "next < high")
    case False
    then show ?thesis by simp
  next
    case True
    have "nat (high - (next + nodes)) < nat (high - next)"
      using True assms by simp
    from less [OF this] obtain r where r: "skip_to nodes high (next + nodes) = Some r"
      "next + nodes \<le> r" "high \<le> r" "r mod nodes = (next + nodes) mod nodes"
      "r = next + nodes \<or> r < high + nodes" by blast
    have "skip_to nodes high next = Some r"
      using True r(1) by (subst skip_to.simps) simp
    moreover have "r mod nodes = next mod nodes" using r(4) by simp
    ultimately show ?thesis using r assms True by auto
  qed
qed

text \<open>With no nodes the loop never reaches a number that is ahead.\<close>

lemma skip_to_zero_never: "next < high \<Longrightarrow> skip_to 0 high next \<noteq> Some r"
proof
  assume lt: "next < high" and "skip_to 0 high next = Some r"
  then have "0 = (0 :: int) \<longrightarrow> \<not> next < high"
    by (rule_tac skip_to.raw_induct [where P = "\<lambda>nodes high next r. nodes = 0 \<longrightarrow> \<not> next < high"])
       (auto split: if_splits)
  with lt show False by simp
qed

lemma newProposalNumber_result:
  assumes "0 < c_nodes c"
  obtains np where "newProposalNumber c = Some (c_nextproposal c, c\<lparr>c_nextproposal := np\<rparr>)"
    and "c_nextproposal c + c_nodes c \<le> np" and "np mod c_nodes c = c_nextproposal c mod c_nodes c"
  using skip_to_result [OF assms, of "c_highproposal c" "c_nextproposal c + c_nodes c"]
  by (auto simp: newProposalNumber_def)

subsection \<open>The handler\<close>

text \<open>Recording one \<open>PREPARE_OK\<close>: the highest accepted pair, the replica that answered.\<close>

definition cp_answer :: "CoordinatorProtocol \<Rightarrow> Packet \<Rightarrow> CoordinatorProtocol" where
  "cp_answer proto p =
     (let msg = PacketMsg p;
          proto1 = (if Proposal msg > cp_aproposal proto
                    then proto\<lparr>cp_aproposal := Proposal msg, cp_avalue := Value msg\<rparr>
                    else proto) in
      if gget (cp_responses proto1) (PacketFrom p) = None
      then proto1\<lparr>cp_responses := gput (PacketFrom p) True (cp_responses proto1)\<rparr>
      else proto1)"

text \<open>The value of phase 2.\<close>

definition cp_choice :: "CoordinatorProtocol \<Rightarrow> string" where
  "cp_choice proto = (if cp_aproposal proto > 0 then cp_avalue proto else cp_pvalue proto)"

definition c_operate :: "Coordinator \<Rightarrow> Packet \<Rightarrow> (Coordinator \<times> Msg option) option" where
  "c_operate c p =
     (let msg = PacketMsg p in
      case MsgType msg of
        PROPOSE \<Rightarrow>
          (case newProposalNumber c of
             None \<Rightarrow> None
           | Some (n, c1) \<Rightarrow>
               (let cp = cp_init\<lparr>cp_pvalue := Value msg, cp_proposal := n\<rparr>;
                    (i, c2) = newInstanceNumber c1 in
                Some (c2\<lparr>c_proto := (c_proto c2)(i \<mapsto> cp)\<rparr>, Some (mk_msg PREPARE n '''' i))))
      | LEARN \<Rightarrow> Some (c, Some (mk_msg NOP 0 '''' (Instance msg)))
      | PREPARE_OK \<Rightarrow>
          (case c_proto c (Instance msg) of
             None \<Rightarrow> Some (c, None)
           | Some proto \<Rightarrow>
               if cp_nvalue proto = '''' then
                 (let proto2 = cp_answer proto p;
                      put = (\<lambda>cp. c\<lparr>c_proto := (c_proto c)(Instance msg \<mapsto> cp)\<rparr>) in
                  if int (length (cp_responses proto2)) \<ge> c_quorum c then
                    (let proto3 = proto2\<lparr>cp_nvalue := cp_choice proto2\<rparr> in
                     Some (put proto3,
                           Some (mk_msg ACCEPT (cp_proposal proto3) (cp_nvalue proto3) (Instance msg))))
                  else Some (put proto2, None))
               else Some (c, None))
      | PREPARE_REJECT \<Rightarrow> Some (c\<lparr>c_highproposal := Proposal msg\<rparr>, None)
      | _ \<Rightarrow> Some (c, None))"

lemma cp_answer_fields [simp]:
  "cp_pvalue (cp_answer cp p) = cp_pvalue cp"
  "cp_proposal (cp_answer cp p) = cp_proposal cp"
  "cp_nvalue (cp_answer cp p) = cp_nvalue cp"
  by (simp_all add: cp_answer_def Let_def)

lemma cp_answer_accepted:
  "(cp_aproposal (cp_answer cp p), cp_avalue (cp_answer cp p)) =
     (if cp_aproposal cp < Proposal (PacketMsg p) then (Proposal (PacketMsg p), Value (PacketMsg p))
      else (cp_aproposal cp, cp_avalue cp))"
  by (simp add: cp_answer_def Let_def)

lemma cp_answer_responses:
  "cp_responses (cp_answer cp p) =
     (if gget (cp_responses cp) (PacketFrom p) = None then gput (PacketFrom p) True (cp_responses cp)
      else cp_responses cp)"
  by (auto simp: cp_answer_def Let_def)

lemma c_operate_returns: "0 < c_nodes c \<Longrightarrow> \<exists>r. c_operate c p = Some r"
  by (erule newProposalNumber_result)
     (auto simp: c_operate_def Let_def newInstanceNumber_def split: msg_splits option.splits)

lemma c_operate_const:
  "c_operate c p = Some (c', out) \<Longrightarrow>
     c_nodepos c' = c_nodepos c \<and> c_nodes c' = c_nodes c \<and> c_quorum c' = c_quorum c"
  by (auto simp: c_operate_def Let_def newInstanceNumber_def newProposalNumber_def
      split: msg_splits option.splits if_splits)

lemma c_operate_idle:
  "MsgType (PacketMsg p) \<in> {NOP, PREPARE, ACCEPT, ACCEPT_OK, ACCEPT_REJECT, COMMIT, EPOCH} \<Longrightarrow>
     c_operate c p = Some (c, None)"
  by (auto simp: c_operate_def Let_def)

text \<open>The three packets that do something, one lemma per branch.\<close>

lemma c_operate_PROPOSE:
  assumes "MsgType (PacketMsg p) = PROPOSE" and "0 < c_nodes c"
  obtains np where
    "c_operate c p = Some
       (c\<lparr>c_nextproposal := np, c_instance := c_instance c + 1,
          c_proto := (c_proto c)(c_instance c + 1 \<mapsto>
            cp_init\<lparr>cp_pvalue := Value (PacketMsg p), cp_proposal := c_nextproposal c\<rparr>)\<rparr>,
        Some (mk_msg PREPARE (c_nextproposal c) '''' (c_instance c + 1)))"
    and "c_nextproposal c + c_nodes c \<le> np" and "np mod c_nodes c = c_nextproposal c mod c_nodes c"
proof -
  obtain np where "newProposalNumber c = Some (c_nextproposal c, c\<lparr>c_nextproposal := np\<rparr>)"
    "c_nextproposal c + c_nodes c \<le> np" "np mod c_nodes c = c_nextproposal c mod c_nodes c"
    using newProposalNumber_result [OF assms(2)] .
  with assms(1) show thesis
    by (intro that [of np]) (auto simp: c_operate_def Let_def newInstanceNumber_def)
qed

lemma c_operate_PREPARE_OK:
  assumes "MsgType (PacketMsg p) = PREPARE_OK"
  shows "c_operate c p =
    (case c_proto c (Instance (PacketMsg p)) of
       None \<Rightarrow> Some (c, None)
     | Some cp \<Rightarrow>
         if cp_nvalue cp \<noteq> '''' then Some (c, None)
         else
           (let cp1 = cp_answer cp p in
            if int (length (cp_responses cp1)) < c_quorum c
            then Some (c\<lparr>c_proto := (c_proto c)(Instance (PacketMsg p) \<mapsto> cp1)\<rparr>, None)
            else Some (c\<lparr>c_proto := (c_proto c)(Instance (PacketMsg p) \<mapsto>
                            cp1\<lparr>cp_nvalue := cp_choice cp1\<rparr>)\<rparr>,
                       Some (mk_msg ACCEPT (cp_proposal cp) (cp_choice cp1) (Instance (PacketMsg p))))))"
  using assms by (simp add: c_operate_def Let_def not_le split: option.splits)

lemma c_operate_out:
  assumes "c_operate c p = Some (c', Some m)"
  shows "MsgType m \<in> {PREPARE, NOP, ACCEPT}"
    and "MsgType m = ACCEPT \<Longrightarrow> MsgType (PacketMsg p) = PREPARE_OK"
    and "MsgType m = PREPARE \<Longrightarrow> MsgType (PacketMsg p) = PROPOSE"
    and "MsgType m = NOP \<Longrightarrow> MsgType (PacketMsg p) = LEARN"
  using assms
  by (auto simp: c_operate_def Let_def newInstanceNumber_def
      split: msg_splits option.splits if_splits)


subsection \<open>Properties\<close>

text \<open>With at least one node, choosing a proposal number always returns; the number is the
  node's next one, the one after it is larger and not below the last rejected number, and all
  numbers of a node lie in one residue class, so no two nodes ever share one.\<close>

theorem newProposalNumber_returns:
  assumes "0 < c_nodes c"
  shows "\<exists>np. newProposalNumber c = Some (c_nextproposal c, c\<lparr>c_nextproposal := np\<rparr>) \<and>
    c_nextproposal c < np \<and> c_highproposal c \<le> np \<and> np mod c_nodes c = c_nextproposal c mod c_nodes c"
  using skip_to_result [OF assms, of "c_highproposal c" "c_nextproposal c + c_nodes c"] assms
  by (auto simp: newProposalNumber_def)

theorem newProposalNumber_returns_witness:
  "\<exists>np. newProposalNumber (c_init 1 3 2) = Some (1, (c_init 1 3 2)\<lparr>c_nextproposal := np\<rparr>) \<and> 1 < np"
  using newProposalNumber_returns [of "c_init 1 3 2"] by (auto simp: c_init_def)

end
