(* ===== verification/Learner.thy ===== *)
theory Learner
  imports Paxos_Msg
begin

section \<open>The learner (contrib/libpaxos/learner.go)\<close>

text \<open>
  Per instance, the votes counted for the highest ballot seen, and the committed value.
  \<open>lr_operate\<close> returns the message to broadcast, and the instance and value just learnt
  (instance 0 when nothing was learnt). The lemmas show that a committed value never
  changes and that \<open>getHistory\<close> is exactly the map of the committed instances.
\<close>

subsection \<open>State\<close>

record LearnerProtocol =
  lp_responses :: "string \<rightharpoonup> bool"
  lp_valueCounts :: "string \<rightharpoonup> int"
  lp_proposal :: int
  lp_value :: string
  lp_commit :: bool

record Learner =
  lr_quorum :: int
  lr_proto :: "(int, LearnerProtocol) gomap"

definition lp_init :: LearnerProtocol where
  "lp_init = \<lparr>lp_responses = Map.empty, lp_valueCounts = Map.empty, lp_proposal = 0,
     lp_value = '''', lp_commit = False\<rparr>"

definition lr_init :: "int \<Rightarrow> Learner" where
  "lr_init quorum = \<lparr>lr_quorum = quorum, lr_proto = []\<rparr>"

text \<open>A missing counter reads as the zero value.\<close>

definition count_of :: "(string \<rightharpoonup> int) \<Rightarrow> string \<Rightarrow> int" where
  "count_of m v = (case m v of None \<Rightarrow> 0 | Some n \<Rightarrow> n)"

subsection \<open>Operations\<close>

definition getHistory :: "Learner \<Rightarrow> (int, string) gomap" where
  "getHistory lr =
     fold (\<lambda>(i, p) h. if lp_commit p then gput i (lp_value p) h else h) (lr_proto lr) []"

definition lr_operate :: "Learner \<Rightarrow> Packet \<Rightarrow> Learner \<times> Msg option \<times> int \<times> string" where
  "lr_operate lr p =
     (let msg = PacketMsg p;
          proto = (case gget (lr_proto lr) (Instance msg) of None \<Rightarrow> lp_init | Some lp \<Rightarrow> lp);
          put = (\<lambda>lp. lr\<lparr>lr_proto := gput (Instance msg) lp (lr_proto lr)\<rparr>) in
      if lp_commit proto then
        (if MsgType msg = NOP
         then (put proto, Some (mk_msg COMMIT (lp_proposal proto) (lp_value proto) (Instance msg)), 0, '''')
         else (put proto, None, 0, ''''))
      else
        (case MsgType msg of
           ACCEPT_OK \<Rightarrow>
             if Proposal msg \<ge> lp_proposal proto then
               (let proto1 = (if Proposal msg > lp_proposal proto
                              then proto\<lparr>lp_proposal := Proposal msg, lp_responses := Map.empty,
                                         lp_valueCounts := Map.empty\<rparr>
                              else proto) in
                if lp_responses proto1 (PacketFrom p) = None then
                  (let n = count_of (lp_valueCounts proto1) (Value msg) + 1;
                       proto2 = proto1\<lparr>lp_valueCounts := (lp_valueCounts proto1)(Value msg \<mapsto> n),
                                       lp_responses := (lp_responses proto1)(PacketFrom p \<mapsto> True)\<rparr> in
                   if n \<ge> lr_quorum lr
                   then (put (proto2\<lparr>lp_commit := True, lp_value := Value msg\<rparr>),
                         Some (mk_msg COMMIT (Proposal msg) (Value msg) (Instance msg)),
                         Instance msg, Value msg)
                   else (put proto2, None, 0, ''''))
                else (put proto1, None, 0, ''''))
             else (put proto, None, 0, '''')
         | COMMIT \<Rightarrow>
             (put (proto\<lparr>lp_commit := True, lp_value := Value msg\<rparr>), None, Instance msg, Value msg)
         | _ \<Rightarrow> (put proto, None, 0, '''')))"

subsection \<open>Reading the state\<close>

definition lr_get :: "Learner \<Rightarrow> int \<Rightarrow> LearnerProtocol" where
  "lr_get lr i = (case gget (lr_proto lr) i of None \<Rightarrow> lp_init | Some lp \<Rightarrow> lp)"

definition lr_ok :: "Learner \<Rightarrow> bool" where
  "lr_ok lr \<longleftrightarrow> gmap_ok (lr_proto lr)"

text \<open>The committed value of an instance.\<close>

definition learnt :: "Learner \<Rightarrow> int \<Rightarrow> string option" where
  "learnt lr i = (if lp_commit (lr_get lr i) then Some (lp_value (lr_get lr i)) else None)"

lemma lr_get_put [simp]:
  "lr_get (lr\<lparr>lr_proto := gput i lp (lr_proto lr)\<rparr>) j = (if j = i then lp else lr_get lr j)"
  by (simp add: lr_get_def)

lemma lr_get_init [simp]: "lr_get (lr_init q) i = lp_init"
  by (simp add: lr_get_def lr_init_def)

lemma lr_ok_init [simp]: "lr_ok (lr_init q)"
  by (simp add: lr_ok_def lr_init_def)

lemma learnt_init [simp]: "learnt (lr_init q) i = None"
  by (simp add: learnt_def lp_init_def)

abbreviation lr_put :: "Learner \<Rightarrow> int \<Rightarrow> LearnerProtocol \<Rightarrow> Learner" where
  "lr_put lr i lp \<equiv> lr\<lparr>lr_proto := gput i lp (lr_proto lr)\<rparr>"

text \<open>The handler, one equation per kind of packet.\<close>

lemma lr_operate_committed:
  "lp_commit (lr_get lr (Instance (PacketMsg p))) \<Longrightarrow>
     lr_operate lr p =
       (lr_put lr (Instance (PacketMsg p)) (lr_get lr (Instance (PacketMsg p))),
        if MsgType (PacketMsg p) = NOP
        then Some (mk_msg COMMIT (lp_proposal (lr_get lr (Instance (PacketMsg p))))
                     (lp_value (lr_get lr (Instance (PacketMsg p)))) (Instance (PacketMsg p)))
        else None, 0, '''')"
  by (simp add: lr_operate_def lr_get_def Let_def)

lemma lr_operate_idle:
  "\<not> lp_commit (lr_get lr (Instance (PacketMsg p))) \<Longrightarrow>
     MsgType (PacketMsg p) \<noteq> ACCEPT_OK \<Longrightarrow> MsgType (PacketMsg p) \<noteq> COMMIT \<Longrightarrow>
     lr_operate lr p =
       (lr_put lr (Instance (PacketMsg p)) (lr_get lr (Instance (PacketMsg p))), None, 0, '''')"
  by (cases "MsgType (PacketMsg p)") (simp_all add: lr_operate_def lr_get_def Let_def)

lemma lr_operate_COMMIT:
  "\<not> lp_commit (lr_get lr (Instance (PacketMsg p))) \<Longrightarrow> MsgType (PacketMsg p) = COMMIT \<Longrightarrow>
     lr_operate lr p =
       (lr_put lr (Instance (PacketMsg p))
          ((lr_get lr (Instance (PacketMsg p)))\<lparr>lp_commit := True, lp_value := Value (PacketMsg p)\<rparr>),
        None, Instance (PacketMsg p), Value (PacketMsg p))"
  by (simp add: lr_operate_def lr_get_def Let_def)

text \<open>A vote: the ballot is raised first (forgetting the votes of a lower one), then counted.\<close>

definition lp_raise :: "LearnerProtocol \<Rightarrow> int \<Rightarrow> LearnerProtocol" where
  "lp_raise proto n =
     (if n > lp_proposal proto
      then proto\<lparr>lp_proposal := n, lp_responses := Map.empty, lp_valueCounts := Map.empty\<rparr>
      else proto)"

definition lp_count :: "LearnerProtocol \<Rightarrow> string \<Rightarrow> string \<Rightarrow> LearnerProtocol" where
  "lp_count proto a v =
     proto\<lparr>lp_valueCounts := (lp_valueCounts proto)(v \<mapsto> count_of (lp_valueCounts proto) v + 1),
           lp_responses := (lp_responses proto)(a \<mapsto> True)\<rparr>"

lemma lr_operate_ACCEPT_OK:
  assumes "\<not> lp_commit (lr_get lr (Instance (PacketMsg p)))" and "MsgType (PacketMsg p) = ACCEPT_OK"
  shows "lr_operate lr p =
    (let m = PacketMsg p; proto = lr_get lr (Instance m);
         proto1 = lp_raise proto (Proposal m);
         proto2 = lp_count proto1 (PacketFrom p) (Value m) in
     if Proposal m < lp_proposal proto then (lr_put lr (Instance m) proto, None, 0, '''')
     else if lp_responses proto1 (PacketFrom p) \<noteq> None
     then (lr_put lr (Instance m) proto1, None, 0, '''')
     else if count_of (lp_valueCounts proto2) (Value m) < lr_quorum lr
     then (lr_put lr (Instance m) proto2, None, 0, '''')
     else (lr_put lr (Instance m) (proto2\<lparr>lp_commit := True, lp_value := Value m\<rparr>),
           Some (mk_msg COMMIT (Proposal m) (Value m) (Instance m)), Instance m, Value m))"
  using assms
  by (simp add: lr_operate_def lr_get_def [symmetric] Let_def lp_raise_def lp_count_def count_of_def
      not_le)

lemma lr_operate_cases [case_names committed idle commit vote]:
  obtains "lp_commit (lr_get lr (Instance (PacketMsg p)))"
  | "\<not> lp_commit (lr_get lr (Instance (PacketMsg p)))"
    "MsgType (PacketMsg p) \<noteq> ACCEPT_OK" "MsgType (PacketMsg p) \<noteq> COMMIT"
  | "\<not> lp_commit (lr_get lr (Instance (PacketMsg p)))" "MsgType (PacketMsg p) = COMMIT"
  | "\<not> lp_commit (lr_get lr (Instance (PacketMsg p)))" "MsgType (PacketMsg p) = ACCEPT_OK"
  by blast

lemmas lr_operate_eqs =
  lr_operate_committed lr_operate_idle lr_operate_COMMIT lr_operate_ACCEPT_OK

lemma lp_raise_simps [simp]:
  "lp_commit (lp_raise lp n) = lp_commit lp" "lp_value (lp_raise lp n) = lp_value lp"
  by (simp_all add: lp_raise_def)

lemma lp_count_simps [simp]:
  "lp_commit (lp_count lp a v) = lp_commit lp" "lp_value (lp_count lp a v) = lp_value lp"
  "lp_proposal (lp_count lp a v) = lp_proposal lp"
  by (simp_all add: lp_count_def)

lemma lr_operate_put:
  "\<exists>lp. fst (lr_operate lr p) = lr_put lr (Instance (PacketMsg p)) lp"
  by (cases lr p rule: lr_operate_cases) (auto simp: lr_operate_eqs Let_def)

lemma lr_operate_ok: "lr_ok lr \<Longrightarrow> lr_ok (fst (lr_operate lr p))"
  using lr_operate_put [of lr p] by (auto simp: lr_ok_def)

lemma lr_operate_quorum [simp]: "lr_quorum (fst (lr_operate lr p)) = lr_quorum lr"
  using lr_operate_put [of lr p] by auto

lemma lr_operate_other:
  "j \<noteq> Instance (PacketMsg p) \<Longrightarrow> lr_get (fst (lr_operate lr p)) j = lr_get lr j"
  using lr_operate_put [of lr p] by auto

subsection \<open>The history\<close>

lemma getHistory_fold:
  "gmap_ok ps \<Longrightarrow> gmap_ok h \<Longrightarrow> set (gkeys ps) \<inter> set (gkeys h) = {} \<Longrightarrow>
     (let h' = fold (\<lambda>(i, p) h. if lp_commit p then gput i (lp_value p) h else h) ps h in
      gmap_ok h' \<and>
      gget h' i = (case gget ps i of
                     None \<Rightarrow> gget h i
                   | Some p \<Rightarrow> if lp_commit p then Some (lp_value p) else None))"
proof (induction ps arbitrary: h)
  case Nil
  then show ?case by simp
next
  case (Cons x ps)
  obtain j p where x: "x = (j, p)" by fastforce
  let ?h = "if lp_commit p then gput j (lp_value p) h else h"
  have ok: "gmap_ok ps" "gmap_ok ?h" "j \<notin> set (gkeys ps)" "j \<notin> set (gkeys h)"
    using Cons.prems x by (auto simp: gmap_ok_def distinct_update)
  have "set (gkeys ps) \<inter> set (gkeys ?h) = {}"
    using Cons.prems x ok by (auto simp: gkeys_gput gmap_ok_def)
  note IH = Cons.IH [OF ok(1,2) this]
  have "gget h j = None" "gget ps j = None"
    using ok(3,4) by (auto simp: map_of_eq_None_iff)
  with IH show ?case by (auto simp: x Let_def split: option.splits)
qed

lemma getHistory_ok: "lr_ok lr \<Longrightarrow> gmap_ok (getHistory lr)"
  using getHistory_fold [of "lr_proto lr" "[]"] by (simp add: getHistory_def lr_ok_def Let_def)

lemma gget_getHistory: "lr_ok lr \<Longrightarrow> gget (getHistory lr) i = learnt lr i"
  using getHistory_fold [of "lr_proto lr" "[]" i]
  by (simp add: getHistory_def lr_ok_def Let_def learnt_def lr_get_def lp_init_def
      split: option.splits)

lemma length_getHistory: "lr_ok lr \<Longrightarrow> length (getHistory lr) = card (dom (learnt lr))"
  by (simp add: gmap_ok_length getHistory_ok gget_getHistory)

subsection \<open>What one packet does\<close>

lemma learnt_put:
  "learnt (lr_put lr i lp) j =
     (if j = i then (if lp_commit lp then Some (lp_value lp) else None) else learnt lr j)"
  by (simp add: learnt_def)

lemma learnt_put_same:
  "lp_commit lp = lp_commit (lr_get lr i) \<Longrightarrow> lp_value lp = lp_value (lr_get lr i) \<Longrightarrow>
     learnt (lr_put lr i lp) = learnt lr"
  by (rule ext) (simp add: learnt_put, simp add: learnt_def)

text \<open>
  The learnt instance is reported exactly when it becomes committed, with the value
  committed, and no other instance changes.
\<close>

lemma lr_operate_learnt:
  assumes "lr_operate lr p = (lr', out, i, v)"
  shows "learnt lr' = learnt lr \<and> i = 0 \<or>
    (i = Instance (PacketMsg p) \<and> v = Value (PacketMsg p) \<and> learnt lr i = None \<and>
     learnt lr' = (learnt lr)(i \<mapsto> v) \<and> MsgType (PacketMsg p) \<in> {ACCEPT_OK, COMMIT})"
proof (cases lr p rule: lr_operate_cases)
  case committed
  with assms show ?thesis by (auto simp: lr_operate_eqs learnt_put_same)
next
  case idle
  with assms show ?thesis by (auto simp: lr_operate_eqs learnt_put_same)
next
  case commit
  with assms show ?thesis by (auto simp: lr_operate_eqs learnt_def)
next
  case vote
  with assms show ?thesis
    by (auto simp: lr_operate_eqs Let_def learnt_put_same split: if_splits)
       (auto simp: learnt_def)
qed

lemma learnt_stable: "learnt lr i = Some v \<Longrightarrow> learnt (fst (lr_operate lr p)) i = Some v"
  using lr_operate_learnt [of lr p] by (cases "lr_operate lr p") fastforce

text \<open>Every message a learner sends is a \<open>COMMIT\<close> of a value committed at that moment.\<close>

lemma lr_operate_out:
  assumes "lr_operate lr p = (lr', Some m, i, v)"
  shows "MsgType m = COMMIT" and "Instance m = Instance (PacketMsg p)"
    and "learnt lr' (Instance m) = Some (Value m)"
  using assms
  by (cases lr p rule: lr_operate_cases;
      auto simp: lr_operate_eqs Let_def learnt_put split: if_splits)+


subsection \<open>Properties\<close>


fun lr_run :: "Learner \<Rightarrow> Packet list \<Rightarrow> Learner" where
  "lr_run lr [] = lr"
| "lr_run lr (p # ps) = lr_run (fst (lr_operate lr p)) ps"

lemma lr_run_ok: "lr_ok lr \<Longrightarrow> lr_ok (lr_run lr ps)"
  by (induction ps arbitrary: lr) (auto intro: lr_operate_ok)

lemma lr_run_stable: "learnt lr i = Some v \<Longrightarrow> learnt (lr_run lr ps) i = Some v"
  by (induction ps arbitrary: lr) (auto intro: learnt_stable)

lemma lr_run_append: "lr_run lr (ps @ qs) = lr_run (lr_run lr ps) qs"
  by (induction ps arbitrary: lr) auto

text \<open>The history a learner reports is the committed instances with their values, each
  once, and what it ever reported at an instance it reports for ever.\<close>

theorem learner_history:
  "distinct (gkeys (getHistory (lr_run (lr_init q) ps))) \<and>
   gget (getHistory (lr_run (lr_init q) ps)) i = learnt (lr_run (lr_init q) ps) i \<and>
   (gget (getHistory (lr_run (lr_init q) ps)) i \<in> {None, gget (getHistory (lr_run (lr_init q) (ps @ qs))) i})"
proof -
  have ok: "lr_ok (lr_run (lr_init q) rs)" for rs by (rule lr_run_ok) simp
  show ?thesis
    using getHistory_ok [OF ok, of ps] lr_run_stable [of "lr_run (lr_init q) ps" i _ qs]
    by (cases "learnt (lr_run (lr_init q) ps) i")
       (simp_all add: gget_getHistory [OF ok] gmap_ok_def lr_run_append [symmetric])
qed

end
