(* ===== verification/Libpaxos.thy ===== *)
theory Libpaxos
  imports Acceptor Coordinator Learner
begin

section \<open>A Paxos node (contrib/libpaxos/libpaxos.go)\<close>

text \<open>
  One node owns a coordinator, a learner and an acceptor and feeds every packet to all
  three (\<open>handleOperate\<close>). What the node does to the outside is a list of effects, in the
  order of the code: a broadcast to all replicas, a packet queued for itself, a command
  handed to the client (\<open>PaxosResponse\<close>). \<open>None\<close> is a handler that does not come back:
  a panic (index out of range in \<open>getFromModifiedValue\<close>) or the loop of
  \<open>newProposalNumber\<close> running forever.

  The lemmas show: a value is delivered as it was proposed, up to its first separator; a
  node whose history is as long as the highest instance it learnt has no gap below it, so
  the execution loop never reads a missing instance; and the commands handed to the client
  are the log in order, without repetitions.
\<close>

subsection \<open>State\<close>

record Libpaxos =
  replicas :: "string list"
  self :: string
  lp_c :: Coordinator
  lp_l :: Learner
  lp_a :: Acceptor
  highestLearnt :: int
  lastCommandExecuted :: int
  unsentValues :: "(string, Packet) gomap"
  executeHistory :: "string \<rightharpoonup> bool"
  proposeCounter :: int
  nodepos :: int

datatype paxos_effect = Broadcast Packet | Local Packet | Exec string

definition NewLibpaxos :: "string \<Rightarrow> string list \<Rightarrow> int \<Rightarrow> int \<Rightarrow> Libpaxos" where
  "NewLibpaxos own reps q pos =
     \<lparr>replicas = reps, self = own, lp_c = c_init pos (int (length reps)) q, lp_l = lr_init q,
      lp_a = ac_init, highestLearnt = 0, lastCommandExecuted = 0, unsentValues = [],
      executeHistory = Map.empty, proposeCounter = 0, nodepos = pos\<rparr>"

subsection \<open>Tagged values\<close>

definition getModifiedValue :: "Libpaxos \<Rightarrow> string \<Rightarrow> string" where
  "getModifiedValue lp v = Itoa (nodepos lp) @ ''$$'' @ Itoa (proposeCounter lp) @ ''$$'' @ v"

definition getFromModifiedValue :: "string \<Rightarrow> string option" where
  "getFromModifiedValue mv =
     (let split = strings_Split mv ''$$'' in if length split > 2 then Some (split ! 2) else None)"

definition ProposeCommand :: "Libpaxos \<Rightarrow> string \<Rightarrow> Libpaxos \<times> paxos_effect list" where
  "ProposeCommand lp v =
     (lp\<lparr>proposeCounter := proposeCounter lp + 1\<rparr>,
      [Local (mk_packet (zero_msg\<lparr>MsgType := PROPOSE, Value := getModifiedValue lp v\<rparr>) (self lp))])"

definition epoch_packet :: "Libpaxos \<Rightarrow> Packet" where
  "epoch_packet lp = mk_packet (zero_msg\<lparr>MsgType := EPOCH, Value := ''''\<rparr>) (self lp)"

definition learn :: "Libpaxos \<Rightarrow> int \<Rightarrow> paxos_effect" where
  "learn lp i = Local (mk_packet (zero_msg\<lparr>MsgType := LEARN, Instance := i\<rparr>) (self lp))"

definition broadcast :: "Libpaxos \<Rightarrow> Msg option \<Rightarrow> paxos_effect list" where
  "broadcast lp m = (case m of None \<Rightarrow> [] | Some msg \<Rightarrow> [Broadcast (mk_packet msg (self lp))])"

subsection \<open>Executing the log\<close>

definition execute :: "Libpaxos \<Rightarrow> string \<Rightarrow> (Libpaxos \<times> paxos_effect list) option" where
  "execute lp v =
     (case executeHistory lp v of
        Some _ \<Rightarrow> Some (lp, [])
      | None \<Rightarrow>
          (case getFromModifiedValue v of
             None \<Rightarrow> None
           | Some cmd \<Rightarrow> Some (lp\<lparr>executeHistory := (executeHistory lp)(v \<mapsto> True)\<rparr>, [Exec cmd])))"

text \<open>The loop over the instances; a missing entry of the history reads as the empty string.\<close>

fun execute_range ::
  "Libpaxos \<Rightarrow> (int, string) gomap \<Rightarrow> int list \<Rightarrow> (Libpaxos \<times> paxos_effect list) option" where
  "execute_range lp history [] = Some (lp, [])"
| "execute_range lp history (i # is) =
     (case execute lp (case gget history i of None \<Rightarrow> '''' | Some v \<Rightarrow> v) of
        None \<Rightarrow> None
      | Some (lp1, es1) \<Rightarrow>
          (case execute_range lp1 history is of
             None \<Rightarrow> None
           | Some (lp2, es2) \<Rightarrow> Some (lp2, es1 @ es2)))"

definition on_learnt :: "Libpaxos \<Rightarrow> int \<Rightarrow> string \<Rightarrow> (Libpaxos \<times> paxos_effect list) option" where
  "on_learnt lp inst value =
     (if inst > 0 then
        (let lp1 = (if inst > highestLearnt lp
                    then lp\<lparr>highestLearnt := inst, lp_c := (lp_c lp)\<lparr>c_instance := inst\<rparr>\<rparr>
                    else lp);
             history = getHistory (lp_l lp1);
             result =
               (if int (length history) = highestLearnt lp1
                then (case execute_range lp1 history
                             [lastCommandExecuted lp1 + 1 .. highestLearnt lp1] of
                        None \<Rightarrow> None
                      | Some (lp2, es) \<Rightarrow>
                          Some (lp2\<lparr>lastCommandExecuted := highestLearnt lp2\<rparr>, es))
                else Some (lp1, map (learn lp1)
                             (filter (\<lambda>i. gget history i = None) [1 .. highestLearnt lp1 - 1]))) in
         case result of
           None \<Rightarrow> None
         | Some (lp3, es) \<Rightarrow>
             Some (if gget (unsentValues lp3) value \<noteq> None
                   then lp3\<lparr>unsentValues := gdel value (unsentValues lp3)\<rparr>
                   else lp3, es))
      else Some (lp, []))"

subsection \<open>The handler\<close>

definition pre_operate :: "Libpaxos \<Rightarrow> Packet \<Rightarrow> Libpaxos \<times> paxos_effect list" where
  "pre_operate lp p =
     (case MsgType (PacketMsg p) of
        PROPOSE \<Rightarrow> (lp\<lparr>unsentValues := gput (Value (PacketMsg p)) p (unsentValues lp)\<rparr>, [])
      | EPOCH \<Rightarrow> (lp, map (\<lambda>(v, q). Local q) (unsentValues lp))
      | _ \<Rightarrow> (lp, []))"

definition handleOperate :: "Libpaxos \<Rightarrow> Packet \<Rightarrow> (Libpaxos \<times> paxos_effect list) option" where
  "handleOperate lp0 p =
     (let (lp, es0) = pre_operate lp0 p in
      case c_operate (lp_c lp) p of
        None \<Rightarrow> None
      | Some (c', m1) \<Rightarrow>
          (let lp1 = lp\<lparr>lp_c := c'\<rparr>;
               (l', m2, i, v) = lr_operate (lp_l lp1) p;
               lp2 = lp1\<lparr>lp_l := l'\<rparr> in
           case on_learnt lp2 i v of
             None \<Rightarrow> None
           | Some (lp3, es3) \<Rightarrow>
               (let (a', m4) = ac_operate (lp_a lp3) p;
                    lp4 = lp3\<lparr>lp_a := a'\<rparr> in
                Some (lp4, es0 @ broadcast lp m1 @ broadcast lp m2 @ es3 @ broadcast lp m4))))"

subsection \<open>Tagged values: what is proposed is what is delivered\<close>

lemma Split_getModifiedValue:
  "strings_Split (getModifiedValue lp v) ''$$'' =
     Itoa (nodepos lp) # Itoa (proposeCounter lp) # strings_Split v ''$$''"
  by (simp add: getModifiedValue_def Split_part [of "''$$''", simplified])

lemma getFrom_getModified:
  "getFromModifiedValue (getModifiedValue lp v) = Some (hd (strings_Split v ''$$''))"
  by (cases "strings_Split v ''$$''") (simp_all add: getFromModifiedValue_def Split_getModifiedValue)

lemma getModifiedValue_inject:
  assumes "getModifiedValue lp v = getModifiedValue lp' v'"
  shows "nodepos lp = nodepos lp'" and "proposeCounter lp = proposeCounter lp'" and "v = v'"
proof -
  have "Itoa (nodepos lp) # Itoa (proposeCounter lp) # strings_Split v ''$$'' =
        Itoa (nodepos lp') # Itoa (proposeCounter lp') # strings_Split v' ''$$''"
    using arg_cong [OF assms, of "\<lambda>s. strings_Split s ''$$''"] by (simp add: Split_getModifiedValue)
  then show pos: "nodepos lp = nodepos lp'" and cnt: "proposeCounter lp = proposeCounter lp'"
    by simp_all
  from assms show "v = v'" by (simp add: getModifiedValue_def pos cnt)
qed

lemma getModifiedValue_nonempty [simp]: "getModifiedValue lp v \<noteq> ''''"
  by (simp add: getModifiedValue_def)

subsection \<open>The commands handed to the client\<close>

fun execs :: "paxos_effect list \<Rightarrow> string list" where
  "execs [] = []"
| "execs (Exec c # es) = c # execs es"
| "execs (_ # es) = execs es"

lemma execs_append [simp]: "execs (es @ fs) = execs es @ execs fs"
  by (induction es rule: execs.induct) auto

lemma execs_broadcast [simp]: "execs (broadcast lp m) = []"
  by (simp add: broadcast_def split: option.splits)

lemma execs_learn [simp]: "execs (map (learn lp) is) = []"
  by (induction "is") (auto simp: learn_def)

lemma execs_local [simp]: "execs (map (\<lambda>(v, q). Local q) us) = []"
  by (induction us) auto

definition deliverable :: "string \<Rightarrow> bool" where
  "deliverable v \<longleftrightarrow> getFromModifiedValue v \<noteq> None"

definition payload :: "string \<Rightarrow> string" where
  "payload v = (case getFromModifiedValue v of None \<Rightarrow> '''' | Some c \<Rightarrow> c)"

lemma deliverable_getModified [simp]: "deliverable (getModifiedValue lp v)"
  by (simp add: deliverable_def getFrom_getModified)

lemma execute_deliverable:
  "deliverable v \<Longrightarrow>
     execute lp v =
       Some (if executeHistory lp v = None
             then (lp\<lparr>executeHistory := (executeHistory lp)(v \<mapsto> True)\<rparr>, [Exec (payload v)])
             else (lp, []))"
  by (auto simp: execute_def deliverable_def payload_def split: option.splits)

lemma execute_range_result:
  assumes "\<And>i. i \<in> set is \<Longrightarrow> \<exists>v. gget h i = Some v \<and> val i = v \<and> deliverable v"
  shows "\<exists>H es. execute_range lp h is = Some (lp\<lparr>executeHistory := H\<rparr>, es) \<and>
    dom H = dom (executeHistory lp) \<union> val ` set is \<and>
    execs es = map payload (firsts (dom (executeHistory lp)) (map val is))"
  using assms
proof (induction "is" arbitrary: lp)
  case Nil
  have "lp = lp\<lparr>executeHistory := executeHistory lp\<rparr>" by simp
  then show ?case by (intro exI [of _ "executeHistory lp"]) auto
next
  case (Cons i js)
  from Cons.prems [of i] have v: "gget h i = Some (val i)" "deliverable (val i)" by auto
  let ?lp1 = "if executeHistory lp (val i) = None
    then lp\<lparr>executeHistory := (executeHistory lp)(val i \<mapsto> True)\<rparr> else lp"
  have d1: "dom (executeHistory ?lp1) = insert (val i) (dom (executeHistory lp))" by auto
  obtain H es where r: "execute_range ?lp1 h js = Some (?lp1\<lparr>executeHistory := H\<rparr>, es)"
    "dom H = dom (executeHistory ?lp1) \<union> val ` set js"
    "execs es = map payload (firsts (dom (executeHistory ?lp1)) (map val js))"
    using Cons.IH [of ?lp1] Cons.prems by auto
  have same: "?lp1\<lparr>executeHistory := H\<rparr> = lp\<lparr>executeHistory := H\<rparr>" by simp
  show ?case
  proof (cases "executeHistory lp (val i)")
    case None
    then show ?thesis using v r same d1
      by (intro exI [of _ H] exI [of _ "Exec (payload (val i)) # es"])
         (auto simp: execute_deliverable)
  next
    case (Some b)
    then have "dom (executeHistory lp) = insert (val i) (dom (executeHistory lp))" by auto
    with Some show ?thesis using v r same d1
      by (intro exI [of _ H] exI [of _ es]) (auto simp: execute_deliverable)
  qed
qed

subsection \<open>The invariant of a node\<close>

text \<open>
  \<open>log_values lr n\<close> is the log up to instance \<open>n\<close>. A node that has handed the commands
  \<open>cmds\<close> to its client has committed every instance up to \<open>lastCommandExecuted\<close> and
  handed over exactly those values, in order, each once.
\<close>

definition log_values :: "Learner \<Rightarrow> int \<Rightarrow> string list" where
  "log_values lr n = map (\<lambda>i. case learnt lr i of None \<Rightarrow> '''' | Some v \<Rightarrow> v) [1 .. n]"

definition node_inv :: "Libpaxos \<Rightarrow> string list \<Rightarrow> bool" where
  "node_inv lp cmds \<longleftrightarrow>
     lr_ok (lp_l lp) \<and>
     dom (learnt (lp_l lp)) \<subseteq> {1 .. highestLearnt lp} \<and>
     0 \<le> lastCommandExecuted lp \<and> lastCommandExecuted lp \<le> highestLearnt lp \<and>
     {1 .. lastCommandExecuted lp} \<subseteq> dom (learnt (lp_l lp)) \<and>
     (\<forall>v \<in> ran (learnt (lp_l lp)). deliverable v) \<and>
     dom (executeHistory lp) = set (log_values (lp_l lp) (lastCommandExecuted lp)) \<and>
     cmds = map payload (firsts {} (log_values (lp_l lp) (lastCommandExecuted lp)))"

lemma node_inv_New [simp]: "node_inv (NewLibpaxos own reps q pos) []"
proof -
  have "learnt (lr_init q) = Map.empty" by (rule ext) simp
  then show ?thesis by (simp add: node_inv_def NewLibpaxos_def log_values_def)
qed

lemma upto_split_at: "0 \<le> m \<Longrightarrow> m \<le> n \<Longrightarrow> [1 .. n] = [1 .. m] @ [m + 1 .. n :: int]"
  by (cases "m = 0") (auto intro: upto_split2)

lemma log_values_split:
  "0 \<le> m \<Longrightarrow> m \<le> n \<Longrightarrow>
     log_values lr n = log_values lr m @
       map (\<lambda>i. case learnt lr i of None \<Rightarrow> '''' | Some v \<Rightarrow> v) [m + 1 .. n]"
  unfolding log_values_def by (subst upto_split_at [of m n]) simp_all

lemma log_values_stable:
  "{1 .. n} \<subseteq> dom (learnt lr) \<Longrightarrow> (\<And>i v. learnt lr i = Some v \<Longrightarrow> learnt lr' i = Some v) \<Longrightarrow>
     log_values lr' n = log_values lr n"
  by (force simp: log_values_def)

text \<open>The pigeonhole argument behind the test \<open>len(history) == highestLearnt\<close>.\<close>

lemma history_complete:
  assumes ok: "lr_ok lr" and sub: "dom (learnt lr) \<subseteq> {1 .. h}"
    and len: "int (length (getHistory lr)) = h"
  shows "dom (learnt lr) = {1 .. h}"
proof (rule card_subset_eq)
  show "finite {1 .. h}" by simp
  show "dom (learnt lr) \<subseteq> {1 .. h}" by (rule sub)
  show "card (dom (learnt lr)) = card {1 .. h}"
    using len by (simp add: length_getHistory [OF ok, symmetric])
qed

subsection \<open>The invariant is kept\<close>

lemma node_inv_frame [simp]:
  "node_inv (lp\<lparr>lp_c := c\<rparr>) cmds = node_inv lp cmds"
  "node_inv (lp\<lparr>lp_a := a\<rparr>) cmds = node_inv lp cmds"
  "node_inv (lp\<lparr>unsentValues := u\<rparr>) cmds = node_inv lp cmds"
  "node_inv (lp\<lparr>proposeCounter := n\<rparr>) cmds = node_inv lp cmds"
  by (simp_all add: node_inv_def)

text \<open>Catching up with a complete history.\<close>

lemma execute_all_inv:
  assumes inv: "node_inv lp cmds" and len: "int (length (getHistory (lp_l lp))) = highestLearnt lp"
  shows "\<exists>H es. execute_range lp (getHistory (lp_l lp))
             [lastCommandExecuted lp + 1 .. highestLearnt lp] = Some (lp\<lparr>executeHistory := H\<rparr>, es) \<and>
           node_inv (lp\<lparr>executeHistory := H, lastCommandExecuted := highestLearnt lp\<rparr>) (cmds @ execs es)"
proof -
  let ?l = "lp_l lp" and ?m = "lastCommandExecuted lp" and ?h = "highestLearnt lp"
  let ?val = "\<lambda>i. case learnt ?l i of None \<Rightarrow> '''' | Some v \<Rightarrow> v"
  let ?is = "[?m + 1 .. ?h]"
  from inv have ok: "lr_ok ?l" and sub: "dom (learnt ?l) \<subseteq> {1 .. ?h}" and m: "0 \<le> ?m" "?m \<le> ?h"
    and vals: "\<forall>v \<in> ran (learnt ?l). deliverable v"
    and ex: "dom (executeHistory lp) = set (log_values ?l ?m)"
    and cmds: "cmds = map payload (firsts {} (log_values ?l ?m))"
    by (simp_all add: node_inv_def)
  have full: "dom (learnt ?l) = {1 .. ?h}" using ok sub len by (rule history_complete)
  have "\<exists>v. gget (getHistory ?l) i = Some v \<and> ?val i = v \<and> deliverable v" if "i \<in> set ?is" for i
  proof -
    from that m full have "i \<in> dom (learnt ?l)" by auto
    then obtain v where "learnt ?l i = Some v" by auto
    with vals ok show ?thesis by (auto simp: gget_getHistory ran_def)
  qed
  from execute_range_result [of ?is "getHistory ?l" ?val lp, OF this] obtain H es where
    r: "execute_range lp (getHistory ?l) ?is = Some (lp\<lparr>executeHistory := H\<rparr>, es)"
    "dom H = dom (executeHistory lp) \<union> ?val ` set ?is"
    "execs es = map payload (firsts (dom (executeHistory lp)) (map ?val ?is))" by blast
  have log: "log_values ?l ?h = log_values ?l ?m @ map ?val ?is"
    using m by (rule log_values_split)
  have "node_inv (lp\<lparr>executeHistory := H, lastCommandExecuted := ?h\<rparr>) (cmds @ execs es)"
    using ok full vals m r(2,3) cmds by (simp add: node_inv_def log ex firsts_append)
  with r(1) show ?thesis by blast
qed

text \<open>Committing one more instance.\<close>

definition raise_high :: "Libpaxos \<Rightarrow> int \<Rightarrow> Libpaxos" where
  "raise_high lp i =
     (if i > highestLearnt lp
      then lp\<lparr>highestLearnt := i, lp_c := (lp_c lp)\<lparr>c_instance := i\<rparr>\<rparr> else lp)"

lemma raise_high_simps [simp]:
  "lp_l (raise_high lp i) = lp_l lp" "lp_a (raise_high lp i) = lp_a lp"
  "highestLearnt (raise_high lp i) = max (highestLearnt lp) i"
  "lastCommandExecuted (raise_high lp i) = lastCommandExecuted lp"
  "executeHistory (raise_high lp i) = executeHistory lp"
  "unsentValues (raise_high lp i) = unsentValues lp" "self (raise_high lp i) = self lp"
  "replicas (raise_high lp i) = replicas lp" "nodepos (raise_high lp i) = nodepos lp"
  "proposeCounter (raise_high lp i) = proposeCounter lp"
  by (simp_all add: raise_high_def)

lemma raise_high_coordinator [simp]:
  "c_proto (lp_c (raise_high lp i)) = c_proto (lp_c lp)"
  "c_nextproposal (lp_c (raise_high lp i)) = c_nextproposal (lp_c lp)"
  "c_nodes (lp_c (raise_high lp i)) = c_nodes (lp_c lp)"
  "c_nodepos (lp_c (raise_high lp i)) = c_nodepos (lp_c lp)"
  "c_quorum (lp_c (raise_high lp i)) = c_quorum (lp_c lp)"
  by (simp_all add: raise_high_def)

lemma commit_inv:
  assumes inv: "node_inv lp cmds" and ok: "lr_ok l'" and l': "learnt l' = (learnt (lp_l lp))(i \<mapsto> v)"
    and new: "learnt (lp_l lp) i = None" and i: "1 \<le> i" and v: "deliverable v"
  shows "node_inv (raise_high (lp\<lparr>lp_l := l'\<rparr>) i) cmds"
proof -
  have "log_values l' (lastCommandExecuted lp) = log_values (lp_l lp) (lastCommandExecuted lp)"
    using inv new by (intro log_values_stable) (auto simp: node_inv_def l')
  moreover have "dom (learnt l') \<subseteq> {1 .. max (highestLearnt lp) i}"
  proof -
    have "dom (learnt (lp_l lp)) \<subseteq> {1 .. max (highestLearnt lp) i}"
      using inv by (fastforce simp: node_inv_def)
    with i show ?thesis by (simp add: l')
  qed
  moreover have "\<forall>w \<in> ran (learnt l'). deliverable w"
    using inv v new by (auto simp: node_inv_def l' ran_def)
  moreover have "{1 .. lastCommandExecuted lp} \<subseteq> dom (learnt l')"
    using inv by (auto simp: node_inv_def l')
  ultimately show ?thesis
    using inv ok by (simp add: node_inv_def le_max_iff_disj)
qed

lemma on_learnt_eq:
  "inst > 0 \<Longrightarrow>
     on_learnt lp inst value =
       (let lp1 = raise_high lp inst; history = getHistory (lp_l lp1) in
        map_option
          (\<lambda>(lp3, es). (lp3\<lparr>unsentValues :=
             (if gget (unsentValues lp3) value \<noteq> None then gdel value (unsentValues lp3)
              else unsentValues lp3)\<rparr>, es))
          (if int (length history) = highestLearnt lp1
           then map_option (\<lambda>(lp2, es). (lp2\<lparr>lastCommandExecuted := highestLearnt lp2\<rparr>, es))
                  (execute_range lp1 history [lastCommandExecuted lp1 + 1 .. highestLearnt lp1])
           else Some (lp1, map (learn lp1)
                  (filter (\<lambda>i. gget history i = None) [1 .. highestLearnt lp1 - 1]))))"
  by (auto simp: on_learnt_def raise_high_def Let_def split: option.splits)

lemma on_learnt_idle [simp]: "\<not> inst > 0 \<Longrightarrow> on_learnt lp inst value = Some (lp, [])"
  by (simp add: on_learnt_def)

lemma execute_range_only:
  "execute_range lp h is = Some (lp', es) \<Longrightarrow> set es \<subseteq> range Exec"
proof (induction lp h "is" arbitrary: lp' es rule: execute_range.induct)
  case (1 lp h)
  then show ?case by simp
next
  case (2 lp h i "is")
  then obtain lp1 es1 lp2 es2 where
    e: "execute lp (case gget h i of None \<Rightarrow> '''' | Some v \<Rightarrow> v) = Some (lp1, es1)"
    "execute_range lp1 h is = Some (lp2, es2)" "es = es1 @ es2"
    by (auto split: option.splits)
  have "set es1 \<subseteq> range Exec"
    using e(1) by (auto simp: execute_def split: option.splits)
  with 2 e show ?case by auto
qed

lemma on_learnt_inv:
  assumes inv: "node_inv (raise_high lp i) cmds" and i: "1 \<le> i"
  shows "\<exists>lp' es. on_learnt lp i v = Some (lp', es) \<and> node_inv lp' (cmds @ execs es) \<and>
    (\<exists>n H u. lp' = (raise_high lp i)\<lparr>lastCommandExecuted := n, executeHistory := H, unsentValues := u\<rparr> \<and>
       (u = unsentValues lp \<or> u = gdel v (unsentValues lp))) \<and>
    set es \<subseteq> range Exec \<union> range (learn lp)"
proof -
  let ?lp = "raise_high lp i"
  let ?u = "if gget (unsentValues ?lp) v \<noteq> None then gdel v (unsentValues ?lp) else unsentValues ?lp"
  show ?thesis
  proof (cases "int (length (getHistory (lp_l lp))) = max (highestLearnt lp) i")
    case True
    obtain H es where r: "execute_range ?lp (getHistory (lp_l ?lp))
        [lastCommandExecuted ?lp + 1 .. highestLearnt ?lp] = Some (?lp\<lparr>executeHistory := H\<rparr>, es)"
      and n: "node_inv (?lp\<lparr>executeHistory := H, lastCommandExecuted := highestLearnt ?lp\<rparr>) (cmds @ execs es)"
      using execute_all_inv [OF inv] True by auto
    let ?lp' = "?lp\<lparr>lastCommandExecuted := highestLearnt ?lp, executeHistory := H, unsentValues := ?u\<rparr>"
    have "on_learnt lp i v = Some (?lp', es)"
      using r True i by (simp add: on_learnt_eq Let_def)
    moreover have "node_inv ?lp' (cmds @ execs es)" using n by (simp add: node_inv_def)
    moreover have "set es \<subseteq> range Exec \<union> range (learn lp)"
      using execute_range_only [OF r] by blast
    ultimately show ?thesis by (intro exI conjI) (assumption | rule refl | simp)+
  next
    case False
    let ?es = "map (learn ?lp) (filter (\<lambda>j. gget (getHistory (lp_l lp)) j = None) [1 .. highestLearnt ?lp - 1])"
    let ?lp' = "?lp\<lparr>lastCommandExecuted := lastCommandExecuted ?lp,
      executeHistory := executeHistory ?lp, unsentValues := ?u\<rparr>"
    have "on_learnt lp i v = Some (?lp', ?es)"
      using False i by (simp add: on_learnt_eq Let_def)
    moreover have "node_inv ?lp' (cmds @ execs ?es)" using inv by (simp add: node_inv_def)
    moreover have "set ?es \<subseteq> range Exec \<union> range (learn lp)" by (auto simp: learn_def)
    ultimately show ?thesis by (intro exI conjI) (assumption | rule refl | simp)+
  qed
qed

subsection \<open>One packet\<close>

text \<open>What the invariant asks of a packet: learnt instances are positive, their values deliverable.\<close>

definition packet_fit :: "Packet \<Rightarrow> bool" where
  "packet_fit p \<longleftrightarrow> (MsgType (PacketMsg p) \<in> {ACCEPT_OK, COMMIT} \<longrightarrow>
     1 \<le> Instance (PacketMsg p) \<and> deliverable (Value (PacketMsg p)))"

lemma set_gput: "set (gput k v m) \<subseteq> insert (k, v) (set m)"
  by (induction m) auto

lemma set_gdel: "set (gdel k m) \<subseteq> set m"
  by (auto simp: AList.delete_eq)

text \<open>
  \<open>handled lp p lp' es\<close> collects what a handled packet did: the three roles moved by their
  own handlers, the rest of the coordinator and of the node's identity is unchanged, and
  every effect is a broadcast of a role's answer, a delivery, a \<open>LEARN\<close> or a retry.
\<close>

definition handled :: "Libpaxos \<Rightarrow> Packet \<Rightarrow> Libpaxos \<Rightarrow> paxos_effect list \<Rightarrow> bool" where
  "handled lp p lp' es \<longleftrightarrow>
     (\<exists>c' m1 l' m2 i v a' m4 k.
        c_operate (lp_c lp) p = Some (c', m1) \<and> lr_operate (lp_l lp) p = (l', m2, i, v) \<and>
        ac_operate (lp_a lp) p = (a', m4) \<and>
        lp_c lp' = c'\<lparr>c_instance := k\<rparr> \<and> (k = c_instance c' \<or> k = i \<and> 1 \<le> i) \<and>
        lp_l lp' = l' \<and> lp_a lp' = a' \<and> self lp' = self lp \<and>
        replicas lp' = replicas lp \<and> nodepos lp' = nodepos lp \<and>
        proposeCounter lp' = proposeCounter lp \<and>
        set (unsentValues lp') \<subseteq> set (unsentValues lp) \<union>
          (if MsgType (PacketMsg p) = PROPOSE then {(Value (PacketMsg p), p)} else {}) \<and>
        set es \<subseteq> (\<lambda>m. Broadcast (mk_packet m (self lp))) ` (set_option m1 \<union> set_option m2 \<union> set_option m4) \<union>
          range Exec \<union> range (learn lp) \<union>
          (if MsgType (PacketMsg p) = EPOCH then (\<lambda>(v, q). Local q) ` set (unsentValues lp) else {}))"

lemma pre_operate_simps:
  "\<exists>u. fst (pre_operate lp p) = lp\<lparr>unsentValues := u\<rparr> \<and>
     set u \<subseteq> set (unsentValues lp) \<union>
       (if MsgType (PacketMsg p) = PROPOSE then {(Value (PacketMsg p), p)} else {}) \<and>
     snd (pre_operate lp p) =
       (if MsgType (PacketMsg p) = EPOCH then map (\<lambda>(v, q). Local q) (unsentValues lp) else [])"
proof -
  let ?u = "if MsgType (PacketMsg p) = PROPOSE
    then gput (Value (PacketMsg p)) p (unsentValues lp) else unsentValues lp"
  show ?thesis
    using set_gput [of "Value (PacketMsg p)" p "unsentValues lp"]
    by (intro exI [of _ ?u]; cases "MsgType (PacketMsg p)") (simp_all add: pre_operate_def)
qed

lemma set_broadcast: "set (broadcast lp m) = (\<lambda>m. Broadcast (mk_packet m (self lp))) ` set_option m"
  by (cases m) (auto simp: broadcast_def)

lemma learn_frame: "self lp' = self lp \<Longrightarrow> learn lp' = learn lp"
  by (rule ext) (simp add: learn_def)

theorem handleOperate_inv:
  assumes inv: "node_inv lp cmds" and nodes: "0 < c_nodes (lp_c lp)" and fit: "packet_fit p"
  shows "\<exists>lp' es. handleOperate lp p = Some (lp', es) \<and> node_inv lp' (cmds @ execs es) \<and>
    handled lp p lp' es"
proof -
  obtain u where u: "fst (pre_operate lp p) = lp\<lparr>unsentValues := u\<rparr>"
    "set u \<subseteq> set (unsentValues lp) \<union>
       (if MsgType (PacketMsg p) = PROPOSE then {(Value (PacketMsg p), p)} else {})"
    "snd (pre_operate lp p) =
       (if MsgType (PacketMsg p) = EPOCH then map (\<lambda>(v, q). Local q) (unsentValues lp) else [])"
    using pre_operate_simps [of lp p] by blast
  define es0 where "es0 = snd (pre_operate lp p)"
  have pre: "pre_operate lp p = (lp\<lparr>unsentValues := u\<rparr>, es0)"
    using u(1) unfolding es0_def by (metis prod.collapse)
  obtain c' m1 where c: "c_operate (lp_c lp) p = Some (c', m1)"
    using c_operate_returns [OF nodes, of p] by auto
  obtain l' m2 i v where l: "lr_operate (lp_l lp) p = (l', m2, i, v)"
    by (metis prod_cases4)
  obtain a' m4 where a: "ac_operate (lp_a lp) p = (a', m4)" by fastforce
  let ?lp1 = "lp\<lparr>unsentValues := u, lp_c := c'\<rparr>"
  let ?lp2 = "?lp1\<lparr>lp_l := l'\<rparr>"
  have inv1: "node_inv ?lp1 cmds" using inv by simp
  have ok: "lr_ok l'" using inv l lr_operate_ok [of "lp_l lp" p] by (simp add: node_inv_def)
  have execs0: "execs es0 = []" using u(3) by (simp add: es0_def)
  obtain lp3 es3 k where o: "on_learnt ?lp2 i v = Some (lp3, es3)" "node_inv lp3 (cmds @ execs es3)"
    "lp_c lp3 = c'\<lparr>c_instance := k\<rparr>" "k = c_instance c' \<or> k = i \<and> 1 \<le> i"
    "lp_l lp3 = l'" "lp_a lp3 = lp_a lp" "self lp3 = self lp"
    "replicas lp3 = replicas lp" "nodepos lp3 = nodepos lp" "proposeCounter lp3 = proposeCounter lp"
    "set (unsentValues lp3) \<subseteq> set u" "set es3 \<subseteq> range Exec \<union> range (learn lp)"
  proof (cases "learnt l' = learnt (lp_l lp) \<and> i = 0")
    case True
    have "node_inv ?lp2 cmds"
      using inv True ok by (simp add: node_inv_def log_values_def)
    moreover have "on_learnt ?lp2 i v = Some (?lp2, [])" using True by simp
    ultimately show thesis by (rule_tac that [of ?lp2 "[]" "c_instance c'"]) simp_all
  next
    case False
    then have i: "i = Instance (PacketMsg p)" "v = Value (PacketMsg p)" "learnt (lp_l lp) i = None"
      "learnt l' = (learnt (lp_l lp))(i \<mapsto> v)" "MsgType (PacketMsg p) \<in> {ACCEPT_OK, COMMIT}"
      using lr_operate_learnt [OF l] by auto
    with fit have pos: "1 \<le> i" and del: "deliverable v" by (auto simp: packet_fit_def)
    have l1: "lp_l ?lp1 = lp_l lp" by simp
    have "node_inv (raise_high ?lp2 i) cmds"
      by (rule commit_inv [OF inv1 ok i(4) [folded l1] i(3) [folded l1] pos del])
    from on_learnt_inv [OF this pos, of v] obtain lp3 es3 n H w where
      o: "on_learnt ?lp2 i v = Some (lp3, es3)" "node_inv lp3 (cmds @ execs es3)"
      and lp3: "lp3 = (raise_high ?lp2 i)\<lparr>lastCommandExecuted := n, executeHistory := H, unsentValues := w\<rparr>"
      and w: "w = unsentValues ?lp2 \<or> w = gdel v (unsentValues ?lp2)"
      and es3: "set es3 \<subseteq> range Exec \<union> range (learn ?lp2)" by (elim exE conjE)
    define k where "k = (if i > highestLearnt lp then i else c_instance c')"
    have k: "lp_c lp3 = c'\<lparr>c_instance := k\<rparr>" "k = c_instance c' \<or> k = i \<and> 1 \<le> i"
      using pos by (simp_all add: lp3 raise_high_def k_def)
    have "set (unsentValues lp3) \<subseteq> set u" using w set_gdel [of v u] by (auto simp: lp3)
    moreover have "learn ?lp2 = learn lp" by (rule learn_frame) simp
    ultimately show thesis using o k es3
      by (intro that [of lp3 es3 k]) (simp_all add: lp3)
  qed
  let ?b = "broadcast (lp\<lparr>unsentValues := u\<rparr>)"
  let ?es = "es0 @ ?b m1 @ ?b m2 @ es3 @ ?b m4"
  have h: "handleOperate lp p = Some (lp3\<lparr>lp_a := a'\<rparr>, ?es)"
    using c l a o(1,6) pre by (simp add: handleOperate_def Let_def)
  moreover have "node_inv (lp3\<lparr>lp_a := a'\<rparr>) (cmds @ execs ?es)"
    using o(2) execs0 by simp
  moreover have "handled lp p (lp3\<lparr>lp_a := a'\<rparr>) ?es"
  proof -
    let ?S = "(\<lambda>m. Broadcast (mk_packet m (self lp))) ` (set_option m1 \<union> set_option m2 \<union> set_option m4)"
    let ?E = "if MsgType (PacketMsg p) = EPOCH then (\<lambda>(v, q). Local q) ` set (unsentValues lp) else {}"
    have "set es0 = ?E" using u(3) by (simp add: es0_def)
    then have es: "set ?es \<subseteq> ?S \<union> range Exec \<union> range (learn lp) \<union> ?E"
      using o(12) by (simp add: set_broadcast image_Un) blast
    have un: "set (unsentValues (lp3\<lparr>lp_a := a'\<rparr>)) \<subseteq> set (unsentValues lp) \<union>
        (if MsgType (PacketMsg p) = PROPOSE then {(Value (PacketMsg p), p)} else {})"
      using o(11) u(2) by simp
    show ?thesis
      unfolding handled_def
      by (rule exI [of _ c'], rule exI [of _ m1], rule exI [of _ l'], rule exI [of _ m2],
          rule exI [of _ i], rule exI [of _ v], rule exI [of _ a'], rule exI [of _ m4],
          rule exI [of _ k])
         (intro conjI c l a es un; simp add: o)
  qed
  ultimately show ?thesis by blast
qed

end
