(* ===== verification/Paxos_Net.thy ===== *)
theory Paxos_Net
  imports Libpaxos
begin

section \<open>A cluster of Paxos nodes\<close>

text \<open>
  The replicas of one airline and the packets between them. \<open>Libpaxos.operate\<close> queues every
  packet in a goroutine of its own, so packets arrive in any order; a remote call that
  fails loses its packet. A packet is never duplicated. An event delivers or loses one
  queued packet, lets a client propose a command at a node, or fires a node's epoch timer.

  \<open>sent\<close> (every packet ever queued), \<open>proposed\<close> (every tagged value ever proposed) and
  \<open>delivered\<close> (the commands handed to each node's client) are history variables.

  \<open>net_inv\<close> is the invariant of the cluster. From it follow: a value is only ever learnt if
  a client proposed it and a quorum voted for it in one ballot; a ballot carries one value;
  no handler ever panics or loops; and each node hands its client its log in order, each
  value once.
\<close>

subsection \<open>The cluster\<close>

record paxos_net =
  procs :: "string \<rightharpoonup> Libpaxos"
  pend :: "(string \<times> Packet) list"
  sent :: "Packet list"
  proposed :: "string list"
  delivered :: "string \<Rightarrow> string list"

datatype net_event = Deliver nat | Drop nat | Propose string string | Tick string

text \<open>Node \<open>k\<close> of the list of replicas is started with position \<open>k + 1\<close>, as in the scripts.\<close>

definition init_net :: "string list \<Rightarrow> int \<Rightarrow> paxos_net" where
  "init_net reps q =
     \<lparr>procs = map_of (map (\<lambda>k. (reps ! k, NewLibpaxos (reps ! k) reps q (int k + 1))) [0 ..< length reps]),
      pend = [], sent = [], proposed = [], delivered = (\<lambda>_. [])\<rparr>"

text \<open>Where an effect puts its packets: a broadcast goes to every replica, the sender included.\<close>

fun packets_of :: "Libpaxos \<Rightarrow> paxos_effect \<Rightarrow> (string \<times> Packet) list" where
  "packets_of lp (Broadcast p) = map (\<lambda>r. (r, p)) (replicas lp)"
| "packets_of lp (Local p) = [(self lp, p)]"
| "packets_of lp (Exec c) = []"

definition emit :: "paxos_net \<Rightarrow> string \<Rightarrow> Libpaxos \<Rightarrow> paxos_effect list \<Rightarrow> paxos_net" where
  "emit s d lp es =
     (let out = concat (map (packets_of lp) es) in
      s\<lparr>procs := (procs s)(d \<mapsto> lp), pend := pend s @ out, sent := sent s @ map snd out,
        delivered := (delivered s)(d := delivered s d @ execs es)\<rparr>)"

definition remove_at :: "nat \<Rightarrow> 'a list \<Rightarrow> 'a list" where
  "remove_at i xs = take i xs @ drop (Suc i) xs"

fun net_step :: "paxos_net \<Rightarrow> net_event \<Rightarrow> paxos_net option" where
  "net_step s (Deliver i) =
     (if i < length (pend s)
      then (case pend s ! i of (d, p) \<Rightarrow>
        (case procs s d of
           None \<Rightarrow> None
         | Some lp \<Rightarrow>
             (case handleOperate lp p of
                None \<Rightarrow> None
              | Some (lp', es) \<Rightarrow> Some (emit (s\<lparr>pend := remove_at i (pend s)\<rparr>) d lp' es))))
      else None)"
| "net_step s (Drop i) =
     (if i < length (pend s) then Some (s\<lparr>pend := remove_at i (pend s)\<rparr>) else None)"
| "net_step s (Propose d v) =
     (case procs s d of
        None \<Rightarrow> None
      | Some lp \<Rightarrow>
          (case ProposeCommand lp v of (lp', es) \<Rightarrow>
             Some (emit (s\<lparr>proposed := proposed s @ [getModifiedValue lp v]\<rparr>) d lp' es)))"
| "net_step s (Tick d) =
     (case procs s d of
        None \<Rightarrow> None
      | Some lp \<Rightarrow> Some (emit s d lp [Local (epoch_packet lp)]))"

text \<open>The quorum the airline server passes to \<open>NewLibpaxos\<close>.\<close>

definition quorum_size :: "nat \<Rightarrow> nat" where
  "quorum_size n = n div 2 + n mod 2"

subsection \<open>Votes and choices\<close>

abbreviation accept_sent :: "Packet set \<Rightarrow> int \<Rightarrow> int \<Rightarrow> string \<Rightarrow> string \<Rightarrow> bool" where
  "accept_sent S i b v a \<equiv> mk_packet (mk_msg ACCEPT b v i) a \<in> S"

abbreviation vote :: "Packet set \<Rightarrow> int \<Rightarrow> int \<Rightarrow> string \<Rightarrow> string \<Rightarrow> bool" where
  "vote S i b v a \<equiv> mk_packet (mk_msg ACCEPT_OK b v i) a \<in> S"

definition chosen :: "string list \<Rightarrow> int \<Rightarrow> Packet set \<Rightarrow> int \<Rightarrow> int \<Rightarrow> string \<Rightarrow> bool" where
  "chosen reps q S i b v \<longleftrightarrow>
     (\<exists>Q. Q \<subseteq> set reps \<and> q \<le> int (card Q) \<and> (\<forall>a \<in> Q. vote S i b v a))"

lemma chosen_mono: "chosen reps q S i b v \<Longrightarrow> S \<subseteq> S' \<Longrightarrow> chosen reps q S' i b v"
  unfolding chosen_def by blast

lemma chosen_vote:
  assumes "chosen reps q S i b v" and "1 \<le> q"
  obtains a where "a \<in> set reps" "vote S i b v a"
proof -
  from assms(1) obtain Q where Q: "Q \<subseteq> set reps" "q \<le> int (card Q)" "\<forall>a \<in> Q. vote S i b v a"
    unfolding chosen_def by blast
  with assms(2) have "Q \<noteq> {}" by auto
  with Q that show thesis by blast
qed

lemma packet_eta:
  "p = mk_packet (mk_msg (MsgType (PacketMsg p)) (Proposal (PacketMsg p)) (Value (PacketMsg p))
         (Instance (PacketMsg p))) (PacketFrom p)"
  by simp

subsection \<open>The invariant, part by part\<close>

definition pkt_inv :: "string list \<Rightarrow> int \<Rightarrow> string set \<Rightarrow> Packet set \<Rightarrow> Packet \<Rightarrow> bool" where
  "pkt_inv reps q P S p \<longleftrightarrow>
     (let m = PacketMsg p in
      (MsgType m = PROPOSE \<longrightarrow> Value m \<in> P) \<and>
      (MsgType m = PREPARE_OK \<longrightarrow> 0 < Proposal m \<longrightarrow> Value m \<in> P) \<and>
      (MsgType m = ACCEPT \<longrightarrow> Value m \<in> P \<and> 1 \<le> Instance m \<and> 1 \<le> Proposal m \<and> PacketFrom p \<in> set reps) \<and>
      (MsgType m = ACCEPT_OK \<longrightarrow> PacketFrom p \<in> set reps \<and>
         (\<exists>a. accept_sent S (Instance m) (Proposal m) (Value m) a)) \<and>
      (MsgType m = COMMIT \<longrightarrow> (\<exists>b. chosen reps q S (Instance m) b (Value m))))"

definition cp_inv ::
  "int \<Rightarrow> string set \<Rightarrow> Packet set \<Rightarrow> string \<Rightarrow> int \<Rightarrow> int \<Rightarrow> int \<Rightarrow> CoordinatorProtocol \<Rightarrow> bool" where
  "cp_inv n P S a pos nextp i cp \<longleftrightarrow>
     1 \<le> i \<and> cp_pvalue cp \<in> P \<and> (0 < cp_aproposal cp \<longrightarrow> cp_avalue cp \<in> P) \<and>
     1 \<le> cp_proposal cp \<and> cp_proposal cp < nextp \<and> cp_proposal cp mod n = pos mod n \<and>
     (cp_nvalue cp = '''' \<longrightarrow> (\<forall>v. \<not> accept_sent S i (cp_proposal cp) v a))"

definition coord_inv ::
  "string list \<Rightarrow> int \<Rightarrow> string set \<Rightarrow> Packet set \<Rightarrow> string \<Rightarrow> int \<Rightarrow> Coordinator \<Rightarrow> bool" where
  "coord_inv reps q P S a pos c \<longleftrightarrow>
     c_nodes c = int (length reps) \<and> 0 \<le> c_instance c \<and>
     1 \<le> c_nextproposal c \<and> c_nextproposal c mod int (length reps) = pos mod int (length reps) \<and>
     (\<forall>i cp. c_proto c i = Some cp \<longrightarrow>
        cp_inv (int (length reps)) P S a pos (c_nextproposal c) i cp) \<and>
     (\<forall>i b v. accept_sent S i b v a \<longrightarrow>
        b < c_nextproposal c \<and> b mod int (length reps) = pos mod int (length reps))"

definition acc_inv :: "Packet set \<Rightarrow> Acceptor \<Rightarrow> bool" where
  "acc_inv S ac \<longleftrightarrow>
     (\<forall>i. 0 < ap_proposalAccepted (ac_get ac i) \<longrightarrow>
        (\<exists>a. accept_sent S i (ap_proposalAccepted (ac_get ac i)) (ap_value (ac_get ac i)) a))"

definition lp_inv :: "string list \<Rightarrow> int \<Rightarrow> Packet set \<Rightarrow> int \<Rightarrow> LearnerProtocol \<Rightarrow> bool" where
  "lp_inv reps q S i lp \<longleftrightarrow>
     dom (lp_responses lp) \<subseteq> set reps \<and>
     (\<forall>v. count_of (lp_valueCounts lp) v \<le>
        int (card {a \<in> dom (lp_responses lp). vote S i (lp_proposal lp) v a})) \<and>
     (lp_commit lp \<longrightarrow> (\<exists>b. chosen reps q S i b (lp_value lp)))"

definition learner_inv :: "string list \<Rightarrow> int \<Rightarrow> Packet set \<Rightarrow> Learner \<Rightarrow> bool" where
  "learner_inv reps q S lr \<longleftrightarrow> lr_quorum lr = q \<and> (\<forall>i. lp_inv reps q S i (lr_get lr i))"

definition ballots_unique :: "Packet set \<Rightarrow> bool" where
  "ballots_unique S \<longleftrightarrow>
     (\<forall>i b v v' a a'. accept_sent S i b v a \<longrightarrow> accept_sent S i b v' a' \<longrightarrow> a = a' \<and> v = v')"

definition proc_inv ::
  "string list \<Rightarrow> int \<Rightarrow> string set \<Rightarrow> Packet set \<Rightarrow> string \<Rightarrow> int \<Rightarrow> Libpaxos \<Rightarrow> string list \<Rightarrow> bool" where
  "proc_inv reps q P S a pos lp cmds \<longleftrightarrow>
     self lp = a \<and> replicas lp = reps \<and> nodepos lp = pos \<and> node_inv lp cmds \<and>
     coord_inv reps q P S a pos (lp_c lp) \<and> acc_inv S (lp_a lp) \<and> learner_inv reps q S (lp_l lp) \<and>
     (\<forall>(v, p) \<in> set (unsentValues lp). p \<in> S)"

definition values_ok :: "string set \<Rightarrow> bool" where
  "values_ok P \<longleftrightarrow> (\<forall>v \<in> P. v \<noteq> '''' \<and> deliverable v)"

definition cluster_ok :: "string list \<Rightarrow> int \<Rightarrow> bool" where
  "cluster_ok reps q \<longleftrightarrow> distinct reps \<and> reps \<noteq> [] \<and> 1 \<le> q"

definition net_inv :: "string list \<Rightarrow> int \<Rightarrow> paxos_net \<Rightarrow> bool" where
  "net_inv reps q s \<longleftrightarrow>
     cluster_ok reps q \<and> values_ok (set (proposed s)) \<and> ballots_unique (set (sent s)) \<and>
     (\<forall>p \<in> set (sent s). pkt_inv reps q (set (proposed s)) (set (sent s)) p) \<and>
     snd ` set (pend s) \<subseteq> set (sent s) \<and> fst ` set (pend s) \<subseteq> set reps \<and>
     dom (procs s) = set reps \<and>
     (\<forall>k < length reps. \<exists>lp. procs s (reps ! k) = Some lp \<and>
        proc_inv reps q (set (proposed s)) (set (sent s)) (reps ! k) (int k + 1) lp
          (delivered s (reps ! k)))"

subsection \<open>More packets, more proposals\<close>

lemma pkt_inv_mono:
  "pkt_inv reps q P S p \<Longrightarrow> P \<subseteq> P' \<Longrightarrow> S \<subseteq> S' \<Longrightarrow> pkt_inv reps q P' S' p"
  unfolding pkt_inv_def Let_def by (meson chosen_mono subsetD)

lemma acc_inv_mono: "acc_inv S ac \<Longrightarrow> S \<subseteq> S' \<Longrightarrow> acc_inv S' ac"
  unfolding acc_inv_def by (meson subsetD)

lemma lp_inv_mono:
  assumes "lp_inv reps q S i lp" and "S \<subseteq> S'"
  shows "lp_inv reps q S' i lp"
proof -
  have fin: "finite (dom (lp_responses lp))"
    using assms(1) by (meson List.finite_set finite_subset lp_inv_def)
  have "card {a \<in> dom (lp_responses lp). vote S i (lp_proposal lp) v a}
      \<le> card {a \<in> dom (lp_responses lp). vote S' i (lp_proposal lp) v a}" for v
    using fin assms(2) by (intro card_mono) auto
  then show ?thesis
    using assms unfolding lp_inv_def by (meson chosen_mono of_nat_mono order_trans)
qed

lemma learner_inv_mono: "learner_inv reps q S lr \<Longrightarrow> S \<subseteq> S' \<Longrightarrow> learner_inv reps q S' lr"
  unfolding learner_inv_def by (meson lp_inv_mono)

lemma coord_inv_mono:
  assumes "coord_inv reps q P S a pos c" and "P \<subseteq> P'"
    and "\<And>i b v. accept_sent S' i b v a \<Longrightarrow> accept_sent S i b v a"
  shows "coord_inv reps q P' S' a pos c"
  using assms unfolding coord_inv_def cp_inv_def by (meson subsetD)

lemma coord_inv_instance:
  "coord_inv reps q P S a pos c \<Longrightarrow> 0 \<le> k \<Longrightarrow> coord_inv reps q P S a pos (c\<lparr>c_instance := k\<rparr>)"
  by (simp add: coord_inv_def)

subsection \<open>A coordinator's step\<close>

lemma coord_inv_sent:
  "coord_inv reps q P S a pos c \<Longrightarrow> accept_sent S i b v a \<Longrightarrow>
     b < c_nextproposal c \<and> b mod int (length reps) = pos mod int (length reps)"
  unfolding coord_inv_def by blast

lemma coord_inv_proto:
  "coord_inv reps q P S a pos c \<Longrightarrow> c_proto c i = Some cp \<Longrightarrow>
     cp_inv (int (length reps)) P S a pos (c_nextproposal c) i cp"
  unfolding coord_inv_def by blast

lemma cp_inv_later:
  "cp_inv n P S a pos np i cp \<Longrightarrow> np \<le> np' \<Longrightarrow> cp_inv n P S a pos np' i cp"
  by (auto simp: cp_inv_def)

lemma coord_step_PROPOSE:
  assumes inv: "coord_inv reps q P S a pos c" and reps: "reps \<noteq> []"
    and t: "MsgType (PacketMsg p) = PROPOSE" and v: "Value (PacketMsg p) \<in> P"
    and op: "c_operate c p = Some (c', m1)"
  shows "coord_inv reps q P S a pos c'" and "\<exists>b i. m1 = Some (mk_msg PREPARE b '''' i)"
proof -
  let ?n = "int (length reps)"
  from inv have nodes: "c_nodes c = ?n" by (simp add: coord_inv_def)
  with reps have pos: "0 < c_nodes c" by simp
  obtain np where e: "c' = c\<lparr>c_nextproposal := np, c_instance := c_instance c + 1,
      c_proto := (c_proto c)(c_instance c + 1 \<mapsto>
        cp_init\<lparr>cp_pvalue := Value (PacketMsg p), cp_proposal := c_nextproposal c\<rparr>)\<rparr>"
    "m1 = Some (mk_msg PREPARE (c_nextproposal c) '''' (c_instance c + 1))"
    "c_nextproposal c + ?n \<le> np" "np mod ?n = c_nextproposal c mod ?n"
    using c_operate_PROPOSE [OF t pos] op nodes by (metis option.inject prod.inject)
  from inv have acc: "accept_sent S i b w a \<Longrightarrow> b < c_nextproposal c" for i b w
    unfolding coord_inv_def by blast
  have lt: "c_nextproposal c < np" using e(3) reps by (cases reps) auto
  have new: "cp_inv ?n P S a pos np (c_instance c + 1)
      (cp_init\<lparr>cp_pvalue := Value (PacketMsg p), cp_proposal := c_nextproposal c\<rparr>)"
    using inv v lt acc by (fastforce simp: cp_inv_def cp_init_def coord_inv_def)
  show "coord_inv reps q P S a pos c'"
    unfolding coord_inv_def
  proof (intro conjI allI impI)
    fix i cp
    assume "c_proto c' i = Some cp"
    then have "cp_inv ?n P S a pos np i cp \<or> c_proto c i = Some cp"
      using new by (auto simp: e(1) split: if_splits)
    moreover have "cp_inv ?n P S a pos np i cp" if "c_proto c i = Some cp"
      by (rule cp_inv_later [of _ _ _ _ _ "c_nextproposal c"])
         (use inv that lt in \<open>unfold coord_inv_def, auto\<close>)
    ultimately show "cp_inv ?n P S a pos (c_nextproposal c') i cp" by (auto simp: e(1))
  next
    fix i b w
    assume w: "accept_sent S i b w a"
    from acc [OF w] lt show "b < c_nextproposal c'" by (simp add: e(1))
    from inv w show "b mod ?n = pos mod ?n" unfolding coord_inv_def by blast
  qed (use inv e(4) lt in \<open>auto simp: e(1) coord_inv_def\<close>)
  show "\<exists>b i. m1 = Some (mk_msg PREPARE b '''' i)" using e(2) by blast
qed

lemma cp_answer_inv:
  assumes inv: "cp_inv n P S a pos np i cp" and pk: "pkt_inv reps q P S p"
    and t: "MsgType (PacketMsg p) = PREPARE_OK"
  shows "cp_inv n P S a pos np i (cp_answer cp p)"
proof -
  have "0 < Proposal (PacketMsg p) \<Longrightarrow> Value (PacketMsg p) \<in> P"
    using pk t by (simp add: pkt_inv_def)
  with inv cp_answer_accepted [of cp p] show ?thesis
    by (auto simp: cp_inv_def split: if_splits)
qed

lemma cp_choice_in: "cp_inv n P S a pos np i cp \<Longrightarrow> cp_choice cp \<in> P"
  by (simp add: cp_inv_def cp_choice_def)

text \<open>
  The step that sends \<open>ACCEPT\<close>: the value was proposed, the ballot is the coordinator's own
  and no \<open>ACCEPT\<close> was sent for it yet.
\<close>

lemma coord_step_ACCEPT:
  assumes inv: "coord_inv reps q P S a pos c" and pk: "pkt_inv reps q P S p"
    and t: "MsgType (PacketMsg p) = PREPARE_OK" and op: "c_operate c p = Some (c', m1)"
    and vals: "values_ok P"
    and new: "\<And>i b v. accept_sent S' i b v a \<Longrightarrow>
      accept_sent S i b v a \<or> m1 = Some (mk_msg ACCEPT b v i)"
  shows "coord_inv reps q P S' a pos c'"
    and "m1 = None \<or> (\<exists>i b v. m1 = Some (mk_msg ACCEPT b v i) \<and> v \<in> P \<and> 1 \<le> i \<and> 1 \<le> b \<and>
      b mod int (length reps) = pos mod int (length reps) \<and> (\<forall>v'. \<not> accept_sent S i b v' a))"
proof -
  let ?n = "int (length reps)" and ?i = "Instance (PacketMsg p)"
  have same: "coord_inv reps q P S' a pos c'" if "c' = c" "m1 = None"
    using inv new that by (auto intro: coord_inv_mono)
  have "coord_inv reps q P S' a pos c' \<and>
    (m1 = None \<or> (\<exists>i b v. m1 = Some (mk_msg ACCEPT b v i) \<and> v \<in> P \<and> 1 \<le> i \<and> 1 \<le> b \<and>
      b mod ?n = pos mod ?n \<and> (\<forall>v'. \<not> accept_sent S i b v' a)))"
  proof (cases "\<exists>cp. c_proto c ?i = Some cp \<and> cp_nvalue cp = ''''")
    case False
    then have "c' = c" "m1 = None"
      using op by (auto simp: c_operate_PREPARE_OK [OF t] split: option.splits)
    with same show ?thesis by simp
  next
    case True
    then obtain cp where cp: "c_proto c ?i = Some cp" "cp_nvalue cp = ''''" by blast
    let ?cp1 = "cp_answer cp p"
    have ci: "cp_inv ?n P S a pos (c_nextproposal c) ?i cp"
      using inv cp(1) by (simp add: coord_inv_def)
    have ci1: "cp_inv ?n P S a pos (c_nextproposal c) ?i ?cp1"
      using ci pk t by (rule cp_answer_inv)
    define cp2 where "cp2 = (if int (length (cp_responses ?cp1)) < c_quorum c then ?cp1
      else ?cp1\<lparr>cp_nvalue := cp_choice ?cp1\<rparr>)"
    have e: "c' = c\<lparr>c_proto := (c_proto c)(?i \<mapsto> cp2)\<rparr>"
      "m1 = (if int (length (cp_responses ?cp1)) < c_quorum c then None
             else Some (mk_msg ACCEPT (cp_proposal cp) (cp_choice ?cp1) ?i))"
      using op cp by (auto simp: c_operate_PREPARE_OK [OF t] cp2_def Let_def split: if_splits)
    have nonempty: "cp_choice ?cp1 \<noteq> ''''"
      using cp_choice_in [OF ci1] vals by (auto simp: values_ok_def)
    have other: "accept_sent S' j b v a \<Longrightarrow> j \<noteq> ?i \<or> b \<noteq> cp_proposal cp \<or> m1 = None \<Longrightarrow>
        accept_sent S j b v a" for j b v
      using new [of b v j] e(2) by (auto split: if_splits)
    have "cp_inv ?n P S' a pos (c_nextproposal c) ?i cp2"
    proof (cases "m1 = None")
      case True
      then have "cp2 = ?cp1" using e(2) by (auto simp: cp2_def split: if_splits)
      with ci1 True new show ?thesis unfolding cp_inv_def by auto
    next
      case False
      then have "cp2 = ?cp1\<lparr>cp_nvalue := cp_choice ?cp1\<rparr>"
        using e(2) by (auto simp: cp2_def split: if_splits)
      with ci1 nonempty show ?thesis by (simp add: cp_inv_def)
    qed
    moreover have "cp_inv ?n P S' a pos (c_nextproposal c) j cpj"
      if "c_proto c j = Some cpj" "j \<noteq> ?i" for j cpj
    proof -
      have "cp_inv ?n P S a pos (c_nextproposal c) j cpj"
        using inv that(1) unfolding coord_inv_def by blast
      then show ?thesis using other [where j = j] that(2) unfolding cp_inv_def by blast
    qed
    moreover have "b < c_nextproposal c \<and> b mod ?n = pos mod ?n" if "accept_sent S' j b v a" for j b v
    proof -
      have "accept_sent S j b v a \<or> b = cp_proposal cp"
        using new [OF that] e(2) by (auto split: if_splits)
      with coord_inv_sent [OF inv] ci show ?thesis unfolding cp_inv_def by blast
    qed
    ultimately have "coord_inv reps q P S' a pos c'"
      using inv by (simp add: coord_inv_def e(1))
    moreover have "m1 = None \<or> (\<exists>i b v. m1 = Some (mk_msg ACCEPT b v i) \<and> v \<in> P \<and> 1 \<le> i \<and> 1 \<le> b \<and>
      b mod ?n = pos mod ?n \<and> (\<forall>v'. \<not> accept_sent S i b v' a))"
      using ci cp(2) cp_choice_in [OF ci1] e(2) by (auto simp: cp_inv_def)
    ultimately show ?thesis by blast
  qed
  then show "coord_inv reps q P S' a pos c'"
    and "m1 = None \<or> (\<exists>i b v. m1 = Some (mk_msg ACCEPT b v i) \<and> v \<in> P \<and> 1 \<le> i \<and> 1 \<le> b \<and>
      b mod ?n = pos mod ?n \<and> (\<forall>v'. \<not> accept_sent S i b v' a))" by blast+
qed


lemma coord_step_other:
  assumes inv: "coord_inv reps q P S a pos c" and op: "c_operate c p = Some (c', m1)"
    and t: "MsgType (PacketMsg p) \<noteq> PROPOSE" "MsgType (PacketMsg p) \<noteq> PREPARE_OK"
  shows "coord_inv reps q P S a pos c'" and "m1 = Some m \<Longrightarrow> MsgType m = NOP"
proof -
  have "c' = c \<or> c' = c\<lparr>c_highproposal := Proposal (PacketMsg p)\<rparr>"
    and m: "m1 = None \<or> (\<exists>i. m1 = Some (mk_msg NOP 0 '''' i))"
    using op t by (auto simp: c_operate_def Let_def split: msg_splits)
  moreover have "coord_inv reps q P S a pos (c\<lparr>c_highproposal := h\<rparr>)" for h
    using inv by (simp add: coord_inv_def)
  ultimately show "coord_inv reps q P S a pos c'" using inv by blast
  show "m1 = Some m \<Longrightarrow> MsgType m = NOP" using m by auto
qed

text \<open>What an \<open>ACCEPT\<close> of the coordinator of node \<open>a\<close> satisfies when it is sent.\<close>

definition fresh_accept ::
  "string list \<Rightarrow> string set \<Rightarrow> Packet set \<Rightarrow> string \<Rightarrow> int \<Rightarrow> Msg \<Rightarrow> bool" where
  "fresh_accept reps P S a pos m \<longleftrightarrow>
     Value m \<in> P \<and> 1 \<le> Instance m \<and> 1 \<le> Proposal m \<and>
     Proposal m mod int (length reps) = pos mod int (length reps) \<and>
     (\<forall>v. \<not> accept_sent S (Instance m) (Proposal m) v a)"

lemma coord_step:
  assumes inv: "coord_inv reps q P S a pos c" and reps: "reps \<noteq> []" and pk: "pkt_inv reps q P S p"
    and op: "c_operate c p = Some (c', m1)" and vals: "values_ok P"
    and new: "\<And>i b v. accept_sent S' i b v a \<Longrightarrow>
      accept_sent S i b v a \<or> m1 = Some (mk_msg ACCEPT b v i)"
  shows "coord_inv reps q P S' a pos c'"
    and "m1 = Some m \<Longrightarrow> MsgType m \<in> {NOP, PREPARE} \<or> MsgType m = ACCEPT \<and> fresh_accept reps P S a pos m"
proof -
  have mono: "coord_inv reps q P S' a pos c'"
    if "coord_inv reps q P S a pos c'" and "\<And>b v i. m1 \<noteq> Some (mk_msg ACCEPT b v i)"
  proof (rule coord_inv_mono [OF that(1) order_refl])
    show "accept_sent S i b v a" if "accept_sent S' i b v a" for i b v
      using new [OF that] \<open>\<And>b v i. m1 \<noteq> Some (mk_msg ACCEPT b v i)\<close> by simp
  qed
  consider (propose) "MsgType (PacketMsg p) = PROPOSE" | (answer) "MsgType (PacketMsg p) = PREPARE_OK"
    | (other) "MsgType (PacketMsg p) \<noteq> PROPOSE" "MsgType (PacketMsg p) \<noteq> PREPARE_OK" by blast
  then have "coord_inv reps q P S' a pos c' \<and>
    (\<forall>m. m1 = Some m \<longrightarrow> MsgType m \<in> {NOP, PREPARE} \<or> MsgType m = ACCEPT \<and> fresh_accept reps P S a pos m)"
  proof cases
    case propose
    have v: "Value (PacketMsg p) \<in> P" using pk propose by (simp add: pkt_inv_def)
    note step = coord_step_PROPOSE [OF inv reps propose v op]
    from step(2) obtain b i where m1: "m1 = Some (mk_msg PREPARE b '''' i)" by blast
    have "coord_inv reps q P S' a pos c'" by (rule mono [OF step(1)]) (simp add: m1)
    then show ?thesis by (simp add: m1)
  next
    case answer
    note step = coord_step_ACCEPT [OF inv pk answer op vals new]
    from step(2) consider "m1 = None"
      | i b v where "m1 = Some (mk_msg ACCEPT b v i)" "fresh_accept reps P S a pos (mk_msg ACCEPT b v i)"
      unfolding fresh_accept_def Msg.simps by blast
    then show ?thesis using step(1) by cases simp_all
  next
    case other
    note step = coord_step_other [OF inv op other]
    have m1: "MsgType m = NOP" if "m1 = Some m" for m by (rule step(2) [OF that])
    have "coord_inv reps q P S' a pos c'" by (rule mono [OF step(1)]) (auto dest: m1)
    then show ?thesis using m1 by simp
  qed
  then show "coord_inv reps q P S' a pos c'"
    and "m1 = Some m \<Longrightarrow> MsgType m \<in> {NOP, PREPARE} \<or> MsgType m = ACCEPT \<and> fresh_accept reps P S a pos m"
    by blast+
qed

subsection \<open>An acceptor's step\<close>

lemma acc_step:
  assumes inv: "acc_inv S ac" and S: "\<forall>p \<in> S. pkt_inv reps q P S p" and p: "p \<in> S"
    and op: "ac_operate ac p = (ac', m4)"
  shows "acc_inv S ac'"
    and "m4 = Some m \<Longrightarrow> MsgType m = PREPARE_OK \<Longrightarrow> 0 < Proposal m \<Longrightarrow> Value m \<in> P"
    and "m4 = Some m \<Longrightarrow> MsgType m = ACCEPT_OK \<Longrightarrow> \<exists>a. accept_sent S (Instance m) (Proposal m) (Value m) a"
proof -
  have sent: "\<exists>a. accept_sent S i b v a"
    if "MsgType (PacketMsg p) = ACCEPT" "i = Instance (PacketMsg p)" "b = Proposal (PacketMsg p)"
      "v = Value (PacketMsg p)" for i b v
    using p that packet_eta [of p] by metis
  show "acc_inv S ac'"
    unfolding acc_inv_def
  proof (intro allI impI)
    fix i
    assume "0 < ap_proposalAccepted (ac_get ac' i)"
    then show "\<exists>a. accept_sent S i (ap_proposalAccepted (ac_get ac' i)) (ap_value (ac_get ac' i)) a"
      using ac_operate_accepted [OF op, of i] inv sent unfolding acc_inv_def by metis
  qed
  show "Value m \<in> P" if m: "m4 = Some m" "MsgType m = PREPARE_OK" "0 < Proposal m"
  proof -
    note ok = ac_operate_PREPARE_OK [OF op [unfolded m(1)] m(2)]
    with inv m(3) obtain a where "accept_sent S (Instance m) (Proposal m) (Value m) a"
      unfolding acc_inv_def by metis
    from bspec [OF S this] show ?thesis by (simp add: pkt_inv_def)
  qed
  show "\<exists>a. accept_sent S (Instance m) (Proposal m) (Value m) a"
    if m: "m4 = Some m" "MsgType m = ACCEPT_OK"
    using ac_operate_ACCEPT_OK(1,2) [OF op [unfolded m(1)] m(2)] by (intro sent) simp_all
qed

subsection \<open>A learner's step\<close>

lemma learner_inv_get: "learner_inv reps q S lr \<Longrightarrow> lp_inv reps q S i (lr_get lr i)"
  by (simp add: learner_inv_def)

lemma learner_inv_put:
  "learner_inv reps q S lr \<Longrightarrow> lp_inv reps q S i lp \<Longrightarrow> learner_inv reps q S (lr_put lr i lp)"
  by (simp add: learner_inv_def)

lemma lp_inv_raise: "lp_inv reps q S i lp \<Longrightarrow> lp_inv reps q S i (lp_raise lp n)"
  by (simp add: lp_inv_def lp_raise_def count_of_def)

lemma lp_inv_count:
  assumes inv: "lp_inv reps q S i lp" and a: "lp_responses lp a = None" "a \<in> set reps"
    and vote: "vote S i (lp_proposal lp) v a"
  shows "lp_inv reps q S i (lp_count lp a v)"
proof -
  let ?lp = "lp_count lp a v"
  let ?Q = "\<lambda>l w. {x \<in> dom (lp_responses l). vote S i (lp_proposal l) w x}"
  have fin: "finite (dom (lp_responses lp))"
    using inv by (meson List.finite_set finite_subset lp_inv_def)
  have "count_of (lp_valueCounts ?lp) w \<le> int (card (?Q ?lp w))" for w
  proof -
    have le: "count_of (lp_valueCounts lp) w \<le> int (card (?Q lp w))"
      using inv by (simp add: lp_inv_def)
    show ?thesis
    proof (cases "w = v")
      case True
      have "?Q ?lp w = insert a (?Q lp w)" using True vote by (auto simp: lp_count_def)
      moreover have "a \<notin> ?Q lp w" using a by auto
      ultimately show ?thesis using le fin True by (simp add: lp_count_def count_of_def)
    next
      case False
      have "?Q lp w \<subseteq> ?Q ?lp w" by (auto simp: lp_count_def)
      then have "card (?Q lp w) \<le> card (?Q ?lp w)" using fin by (intro card_mono) (auto simp: lp_count_def)
      with le False show ?thesis by (simp add: lp_count_def count_of_def)
    qed
  qed
  then show ?thesis using inv a(2) by (simp add: lp_inv_def) (simp add: lp_count_def)
qed

lemma lp_inv_quorum:
  assumes "lp_inv reps q S i lp" and "q \<le> count_of (lp_valueCounts lp) v"
  shows "chosen reps q S i (lp_proposal lp) v"
  unfolding chosen_def
proof (intro exI conjI)
  let ?Q = "{a \<in> dom (lp_responses lp). vote S i (lp_proposal lp) v a}"
  show "?Q \<subseteq> set reps" using assms(1) by (auto simp: lp_inv_def)
  have "count_of (lp_valueCounts lp) v \<le> int (card ?Q)" using assms(1) by (simp add: lp_inv_def)
  with assms(2) show "q \<le> int (card ?Q)" by (rule order_trans)
qed simp

lemma lp_inv_commit:
  "lp_inv reps q S i lp \<Longrightarrow> chosen reps q S i b v \<Longrightarrow>
     lp_inv reps q S i (lp\<lparr>lp_commit := True, lp_value := v\<rparr>)"
  by (auto simp: lp_inv_def)

lemma learner_step:
  assumes inv: "learner_inv reps q S lr" and pk: "pkt_inv reps q P S p" and p: "p \<in> S"
    and op: "lr_operate lr p = (lr', m2, i, v)"
  shows "learner_inv reps q S lr'"
    and "m2 = Some m \<Longrightarrow> MsgType m = COMMIT \<and> (\<exists>b. chosen reps q S (Instance m) b (Value m))"
proof -
  let ?m = "PacketMsg p"
  let ?lp = "lr_get lr (Instance ?m)"
  note get = learner_inv_get [OF inv, of "Instance ?m"]
  have q: "lr_quorum lr = q" using inv by (simp add: learner_inv_def)
  show inv': "learner_inv reps q S lr'"
  proof (cases lr p rule: lr_operate_cases)
    case committed
    with op show ?thesis by (auto simp: lr_operate_eqs intro: learner_inv_put [OF inv get])
  next
    case idle
    with op show ?thesis by (auto simp: lr_operate_eqs intro: learner_inv_put [OF inv get])
  next
    case commit
    then obtain b where "chosen reps q S (Instance ?m) b (Value ?m)"
      using pk by (auto simp: pkt_inv_def Let_def)
    with commit op show ?thesis
      by (auto simp: lr_operate_eqs intro!: learner_inv_put [OF inv] lp_inv_commit get)
  next
    case vote
    let ?lp1 = "lp_raise ?lp (Proposal ?m)"
    let ?lp2 = "lp_count ?lp1 (PacketFrom p) (Value ?m)"
    have "PacketFrom p \<in> set reps" using pk vote by (simp add: pkt_inv_def Let_def)
    moreover have "vote S (Instance ?m) (Proposal ?m) (Value ?m) (PacketFrom p)"
      using p vote(2) packet_eta [of p] by metis
    moreover have "\<not> Proposal ?m < lp_proposal ?lp \<Longrightarrow> lp_proposal ?lp1 = Proposal ?m"
      by (simp add: lp_raise_def)
    ultimately have lp2: "lp_inv reps q S (Instance ?m) ?lp2"
      if "\<not> Proposal ?m < lp_proposal ?lp" "lp_responses ?lp1 (PacketFrom p) = None"
      using that by (intro lp_inv_count lp_inv_raise get) simp_all
    let ?lp3 = "?lp2\<lparr>lp_commit := True, lp_value := Value ?m\<rparr>"
    have "lr' = lr_put lr (Instance ?m) ?lp \<or> lr' = lr_put lr (Instance ?m) ?lp1 \<or>
      (\<not> Proposal ?m < lp_proposal ?lp \<and> lp_responses ?lp1 (PacketFrom p) = None \<and>
       (lr' = lr_put lr (Instance ?m) ?lp2 \<or>
        lr' = lr_put lr (Instance ?m) ?lp3 \<and> q \<le> count_of (lp_valueCounts ?lp2) (Value ?m)))"
      using op unfolding lr_operate_ACCEPT_OK [OF vote] Let_def q by (auto split: if_splits)
    moreover have "lp_inv reps q S (Instance ?m) ?lp3"
      if "lp_inv reps q S (Instance ?m) ?lp2" "q \<le> count_of (lp_valueCounts ?lp2) (Value ?m)"
      using that(1) lp_inv_quorum [OF that] by (rule lp_inv_commit)
    ultimately show ?thesis
      using lp2 lp_inv_raise [OF get] get learner_inv_put [OF inv] by blast
  qed
  show "MsgType m = COMMIT \<and> (\<exists>b. chosen reps q S (Instance m) b (Value m))" if m: "m2 = Some m"
  proof -
    note out = lr_operate_out [OF op [unfolded m]]
    then have "lp_commit (lr_get lr' (Instance m))" "lp_value (lr_get lr' (Instance m)) = Value m"
      by (auto simp: learnt_def split: if_splits)
    with learner_inv_get [OF inv', of "Instance m"] out(1) show ?thesis by (auto simp: lp_inv_def)
  qed
qed


subsection \<open>A step of the cluster\<close>

fun packet_of :: "paxos_effect \<Rightarrow> Packet set" where
  "packet_of (Broadcast p) = {p}"
| "packet_of (Local p) = {p}"
| "packet_of (Exec c) = {}"

definition emitted :: "Libpaxos \<Rightarrow> paxos_effect list \<Rightarrow> Packet set" where
  "emitted lp es = snd ` set (concat (map (packets_of lp) es))"

lemma emitted_sub: "emitted lp es \<subseteq> (\<Union>e \<in> set es. packet_of e)"
proof -
  have "snd ` set (packets_of lp e) \<subseteq> packet_of e" for e by (cases e) auto
  then show ?thesis by (fastforce simp: emitted_def)
qed

lemma emit_fields [simp]:
  "procs (emit s d lp es) = (procs s)(d \<mapsto> lp)"
  "set (sent (emit s d lp es)) = set (sent s) \<union> emitted lp es"
  "proposed (emit s d lp es) = proposed s"
  "delivered (emit s d lp es) = (delivered s)(d := delivered s d @ execs es)"
  "snd ` set (pend (emit s d lp es)) = snd ` set (pend s) \<union> emitted lp es"
  by (auto simp: emit_def emitted_def Let_def)

lemma emit_destinations:
  assumes "set (replicas lp) \<subseteq> R" and "self lp \<in> R"
  shows "fst ` set (pend (emit s d lp es)) \<subseteq> fst ` set (pend s) \<union> R"
proof -
  have "fst ` set (packets_of lp e) \<subseteq> R" for e using assms by (cases e) auto
  then have "fst ` set (concat (map (packets_of lp) es)) \<subseteq> R" by (simp add: image_UN UN_least)
  then show ?thesis by (auto simp: emit_def Let_def image_Un simp del: set_concat)
qed

lemma proc_inv_mono:
  assumes inv: "proc_inv reps q P S a pos lp cmds" and P: "P \<subseteq> P'" and S: "S \<subseteq> S'"
    and new: "\<And>i b v. accept_sent S' i b v a \<Longrightarrow> accept_sent S i b v a"
  shows "proc_inv reps q P' S' a pos lp cmds"
proof -
  have "coord_inv reps q P' S' a pos (lp_c lp)"
    by (rule coord_inv_mono [OF _ P new]) (use inv in \<open>simp_all add: proc_inv_def\<close>)
  moreover have "acc_inv S' (lp_a lp)"
    by (rule acc_inv_mono [OF _ S]) (use inv in \<open>simp add: proc_inv_def\<close>)
  moreover have "learner_inv reps q S' (lp_l lp)"
    by (rule learner_inv_mono [OF _ S]) (use inv in \<open>simp add: proc_inv_def\<close>)
  ultimately show ?thesis using inv S unfolding proc_inv_def by blast
qed

lemma net_inv_proc:
  assumes "net_inv reps q s" and "procs s d = Some lp"
  obtains k where "k < length reps" "d = reps ! k"
    "proc_inv reps q (set (proposed s)) (set (sent s)) d (int k + 1) lp (delivered s d)"
proof -
  from assms have "d \<in> set reps" unfolding net_inv_def by blast
  then obtain k where k: "k < length reps" "d = reps ! k" by (auto simp: in_set_conv_nth)
  with assms obtain lp' where "procs s d = Some lp'"
    "proc_inv reps q (set (proposed s)) (set (sent s)) d (int k + 1) lp' (delivered s d)"
    unfolding net_inv_def by blast
  with assms(2) k show thesis by (intro that) auto
qed

lemma net_inv_emit:
  assumes inv: "net_inv reps q s" and d: "procs s d = Some lp" "k < length reps" "d = reps ! k"
    and pr: "set (proposed s) \<subseteq> set pr" "values_ok (set pr)" and pd: "set pd \<subseteq> set (pend s)"
    and S': "S' = set (sent s) \<union> emitted lp' es"
    and new: "\<And>p. p \<in> emitted lp' es \<Longrightarrow> p \<in> set (sent s) \<or> pkt_inv reps q (set pr) S' p"
    and acc: "\<And>i b v a. accept_sent S' i b v a \<Longrightarrow> accept_sent (set (sent s)) i b v a \<or> a = d"
    and uniq: "ballots_unique S'"
    and proc: "proc_inv reps q (set pr) S' d (int k + 1) lp' (delivered s d @ execs es)"
  shows "net_inv reps q (emit (s\<lparr>pend := pd, proposed := pr\<rparr>) d lp' es)"
    (is "net_inv reps q ?t")
proof -
  let ?S = "set (sent s)"
  have S: "?S \<subseteq> S'" using S' by simp
  have sent: "set (sent ?t) = S'" using S' by simp
  from inv have cl: "cluster_ok reps q" and dom: "dom (procs s) = set reps"
    and pk: "\<And>p. p \<in> ?S \<Longrightarrow> pkt_inv reps q (set (proposed s)) ?S p"
    and pend: "snd ` set (pend s) \<subseteq> ?S" "fst ` set (pend s) \<subseteq> set reps" by (auto simp: net_inv_def)
  have "pkt_inv reps q (set pr) S' p" if "p \<in> S'" for p
    using that new pkt_inv_mono [OF pk pr(1) S] S' by blast
  moreover have "snd ` set (pend ?t) \<subseteq> S'" using pend(1) pd S' by auto
  moreover have "fst ` set (pend ?t) \<subseteq> set reps"
  proof -
    have "set (replicas lp') \<subseteq> set reps" "self lp' \<in> set reps"
      using proc d by (simp_all add: proc_inv_def)
    from emit_destinations [OF this, of "s\<lparr>pend := pd, proposed := pr\<rparr>" d es]
    have "fst ` set (pend ?t) \<subseteq> fst ` set pd \<union> set reps" by simp
    moreover have "fst ` set pd \<subseteq> set reps" using pend(2) pd by blast
    ultimately show ?thesis by blast
  qed
  moreover have "dom (procs ?t) = set reps" using dom d by auto
  moreover have "\<exists>lp. procs ?t (reps ! j) = Some lp \<and>
      proc_inv reps q (set pr) S' (reps ! j) (int j + 1) lp (delivered ?t (reps ! j))"
    if j: "j < length reps" for j
  proof (cases "j = k")
    case True
    with proc d show ?thesis by simp
  next
    case False
    with cl j d have ne: "reps ! j \<noteq> d" by (auto simp: cluster_ok_def nth_eq_iff_index_eq)
    obtain lpj where lpj: "procs s (reps ! j) = Some lpj"
      "proc_inv reps q (set (proposed s)) ?S (reps ! j) (int j + 1) lpj (delivered s (reps ! j))"
      using inv j unfolding net_inv_def by blast
    have "proc_inv reps q (set pr) S' (reps ! j) (int j + 1) lpj (delivered s (reps ! j))"
      by (rule proc_inv_mono [OF lpj(2) pr(1) S]) (use acc ne in blast)
    with lpj(1) ne show ?thesis by simp
  qed
  ultimately show ?thesis using cl pr(2) uniq unfolding net_inv_def sent by simp
qed

text \<open>The packets a handled packet gives rise to.\<close>

definition is_learn :: "Packet \<Rightarrow> bool" where
  "is_learn p \<longleftrightarrow> MsgType (PacketMsg p) = LEARN"

lemma handled_emitted:
  assumes "set es \<subseteq> (\<lambda>m. Broadcast (mk_packet m a)) ` M \<union> range Exec \<union> range (learn lp) \<union>
    (if b then (\<lambda>(v, q). Local q) ` U else {})"
  shows "emitted lp' es \<subseteq> (\<lambda>m. mk_packet m a) ` M \<union> {p. is_learn p} \<union> snd ` U"
proof
  fix p
  assume "p \<in> emitted lp' es"
  with emitted_sub obtain e where e: "e \<in> set es" "p \<in> packet_of e" by blast
  from assms e(1) consider m where "m \<in> M" "e = Broadcast (mk_packet m a)" | c where "e = Exec c"
    | i where "e = learn lp i" | v r where "(v, r) \<in> U" "e = Local r"
    by (auto split: if_splits)
  then show "p \<in> (\<lambda>m. mk_packet m a) ` M \<union> {p. is_learn p} \<union> snd ` U"
    using e(2) by cases (force simp: learn_def is_learn_def)+
qed

text \<open>Ballots of different nodes differ.\<close>

lemma positions_differ:
  assumes "j < n" and "k < n" and "(int j + 1) mod int n = (int k + 1) mod int n"
  shows "j = k"
proof -
  have "int n dvd (int j + 1) - (int k + 1)" using assms(3) by (rule mod_eq_dvd_iff [THEN iffD1])
  then have "int n dvd int j - int k" by simp
  moreover have "\<bar>int j - int k\<bar> < int n" using assms(1,2) by linarith
  ultimately show ?thesis using zdvd_imp_le [of "int n" "\<bar>int j - int k\<bar>"] by fastforce
qed

lemma ballots_unique_step:
  assumes inv: "net_inv reps q s" and k: "k < length reps" "d = reps ! k"
    and new: "\<And>i b v a. accept_sent S' i b v a \<Longrightarrow> accept_sent (set (sent s)) i b v a \<or>
       (a = d \<and> m1 = Some (mk_msg ACCEPT b v i) \<and>
        fresh_accept reps P (set (sent s)) d (int k + 1) (mk_msg ACCEPT b v i))"
  shows "ballots_unique S'"
proof -
  let ?S = "set (sent s)"
  have old: "ballots_unique ?S" using inv by (simp add: net_inv_def)
  have clash: False
    if "accept_sent ?S i b v a" "fresh_accept reps P ?S d (int k + 1) (mk_msg ACCEPT b w i)" for i b v w a
  proof -
    have "pkt_inv reps q (set (proposed s)) ?S (mk_packet (mk_msg ACCEPT b v i) a)"
      using inv that(1) unfolding net_inv_def by blast
    then have "a \<in> set reps" by (simp add: pkt_inv_def)
    then obtain j where j: "j < length reps" "a = reps ! j" by (auto simp: in_set_conv_nth)
    then obtain lp where "proc_inv reps q (set (proposed s)) ?S a (int j + 1) lp (delivered s a)"
      using inv unfolding net_inv_def by blast
    then have "b mod int (length reps) = (int j + 1) mod int (length reps)"
      unfolding proc_inv_def using coord_inv_sent that(1) by blast
    moreover have "b mod int (length reps) = (int k + 1) mod int (length reps)"
      using that(2) by (simp add: fresh_accept_def)
    ultimately have "j = k" by (intro positions_differ [OF j(1) k(1)]) simp
    with that j k show False by (simp add: fresh_accept_def)
  qed
  show ?thesis unfolding ballots_unique_def
  proof (intro allI impI)
    fix i b v v' a a'
    assume "accept_sent S' i b v a" "accept_sent S' i b v' a'"
    from new [OF this(1)] new [OF this(2)] show "a = a' \<and> v = v'"
      using old clash unfolding ballots_unique_def by (elim disjE) (blast | simp)+
  qed
qed


lemma net_packet_fit:
  assumes inv: "net_inv reps q s" and p: "p \<in> set (sent s)"
  shows "packet_fit p"
proof -
  let ?S = "set (sent s)" and ?P = "set (proposed s)" and ?m = "PacketMsg p"
  from inv have vals: "values_ok ?P" and q: "1 \<le> q"
    and pk: "\<And>p. p \<in> ?S \<Longrightarrow> pkt_inv reps q ?P ?S p" by (auto simp: net_inv_def cluster_ok_def)
  have acc: "1 \<le> i \<and> deliverable v" if "accept_sent ?S i b v a" for i b v a
    using pk [OF that] vals by (auto simp: pkt_inv_def values_ok_def)
  have vote: "1 \<le> i \<and> deliverable v" if "vote ?S i b v a" for i b v a
    using pk [OF that] acc by (auto simp: pkt_inv_def)
  have "1 \<le> Instance ?m \<and> deliverable (Value ?m)" if "MsgType ?m = COMMIT"
  proof -
    from pk [OF p] that obtain b where "chosen reps q ?S (Instance ?m) b (Value ?m)"
      by (auto simp: pkt_inv_def Let_def)
    then obtain a where "vote ?S (Instance ?m) b (Value ?m) a" using q by (rule chosen_vote)
    then show ?thesis by (rule vote)
  qed
  moreover have "1 \<le> Instance ?m \<and> deliverable (Value ?m)" if "MsgType ?m = ACCEPT_OK"
  proof (rule vote)
    show "vote ?S (Instance ?m) (Proposal ?m) (Value ?m) (PacketFrom p)"
      using p that packet_eta [of p] by metis
  qed
  ultimately show ?thesis by (auto simp: packet_fit_def)
qed

text \<open>
  A packet is handled at a node: the handler comes back, and the state it leaves, with the
  packets it emits, satisfies the invariant.
\<close>

lemma deliver_step:
  assumes inv: "net_inv reps q s" and i: "procs s d = Some lp" and p: "p \<in> set (sent s)"
    and pd: "set pd \<subseteq> set (pend s)"
  shows "\<exists>lp' es. handleOperate lp p = Some (lp', es) \<and>
    net_inv reps q (emit (s\<lparr>pend := pd\<rparr>) d lp' es)"
proof -
  let ?S = "set (sent s)" and ?P = "set (proposed s)"
  from inv have vals: "values_ok ?P" and q: "1 \<le> q" and reps: "reps \<noteq> []"
    and pk: "\<And>p. p \<in> ?S \<Longrightarrow> pkt_inv reps q ?P ?S p" by (auto simp: net_inv_def cluster_ok_def)
  obtain k where k: "k < length reps" "d = reps ! k"
    and proc: "proc_inv reps q ?P ?S d (int k + 1) lp (delivered s d)"
    using net_inv_proc [OF inv i] .
  from proc have self: "self lp = d" and ninv: "node_inv lp (delivered s d)"
    and cinv: "coord_inv reps q ?P ?S d (int k + 1) (lp_c lp)" and ainv: "acc_inv ?S (lp_a lp)"
    and linv: "learner_inv reps q ?S (lp_l lp)"
    and uns: "snd ` set (unsentValues lp) \<subseteq> ?S" by (auto simp: proc_inv_def)
  have "0 < c_nodes (lp_c lp)" using cinv reps by (simp add: coord_inv_def)
  from handleOperate_inv [OF ninv this net_packet_fit [OF inv p]] obtain lp' es where
    h: "handleOperate lp p = Some (lp', es)" "node_inv lp' (delivered s d @ execs es)"
      "handled lp p lp' es" by blast
  from h(3) obtain c' m1 l' m2 ia v a' m4 n where
    c: "c_operate (lp_c lp) p = Some (c', m1)" and l: "lr_operate (lp_l lp) p = (l', m2, ia, v)"
    and a: "ac_operate (lp_a lp) p = (a', m4)"
    and n: "lp_c lp' = c'\<lparr>c_instance := n\<rparr>" "n = c_instance c' \<or> n = ia \<and> 1 \<le> ia"
    and lp': "lp_l lp' = l'" "lp_a lp' = a'" "self lp' = d" "replicas lp' = replicas lp"
      "nodepos lp' = nodepos lp"
    and uns': "set (unsentValues lp') \<subseteq> set (unsentValues lp) \<union>
          (if MsgType (PacketMsg p) = PROPOSE then {(Value (PacketMsg p), p)} else {})"
    and es: "set es \<subseteq> (\<lambda>m. Broadcast (mk_packet m (self lp))) ` (set_option m1 \<union> set_option m2 \<union> set_option m4) \<union>
          range Exec \<union> range (learn lp) \<union>
          (if MsgType (PacketMsg p) = EPOCH then (\<lambda>(v, q). Local q) ` set (unsentValues lp) else {})"
    unfolding handled_def self by blast
  define S' where "S' = ?S \<union> emitted lp' es"
  have sub: "?S \<subseteq> S'" by (simp add: S'_def)
  have em: "emitted lp' es \<subseteq> (\<lambda>m. mk_packet m d) ` (set_option m1 \<union> set_option m2 \<union> set_option m4) \<union>
      {p. is_learn p} \<union> snd ` set (unsentValues lp)"
    using handled_emitted [OF es] by (simp add: self)
  note ls = learner_step [OF linv pk [OF p] p l]
  have "\<forall>p \<in> ?S. pkt_inv reps q ?P ?S p" using pk by blast
  note as = acc_step [OF ainv this p a]

  have acc: "accept_sent ?S i b w x \<or> (x = d \<and> m1 = Some (mk_msg ACCEPT b w i))"
    if "accept_sent S' i b w x" for i b w x
  proof -
    from that consider "accept_sent ?S i b w x" | "accept_sent (emitted lp' es) i b w x"
      unfolding S'_def by blast
    then show ?thesis
    proof cases
      case 2
      with em uns consider m where "m \<in> set_option m1 \<union> set_option m2 \<union> set_option m4"
          "mk_packet (mk_msg ACCEPT b w i) x = mk_packet m d"
        | "is_learn (mk_packet (mk_msg ACCEPT b w i) x)" | "accept_sent ?S i b w x" by blast
      then show ?thesis
      proof cases
        case 1
        moreover have "m2 \<noteq> Some m" if "m = mk_msg ACCEPT b w i" using ls(2) that by force
        moreover have "m4 \<noteq> Some m" if "m = mk_msg ACCEPT b w i"
          using ac_operate_kinds [of "lp_a lp" p a' m] a that by auto
        ultimately show ?thesis by auto
      qed (simp_all add: is_learn_def)
    qed simp
  qed
  have accd: "accept_sent ?S i b w d \<or> m1 = Some (mk_msg ACCEPT b w i)"
    if "accept_sent S' i b w d" for i b w using acc [OF that] by blast
  have cs1: "coord_inv reps q ?P S' d (int k + 1) c'"
    by (rule coord_step(1) [OF cinv reps pk [OF p] c vals]) (rule accd)
  have cs2: "MsgType m \<in> {NOP, PREPARE} \<or> MsgType m = ACCEPT \<and> fresh_accept reps ?P ?S d (int k + 1) m"
    if "m1 = Some m" for m
    by (rule coord_step(2) [OF cinv reps pk [OF p] c vals _ that]) (rule accd)
  have fresh: "fresh_accept reps ?P ?S d (int k + 1) (mk_msg ACCEPT b w i)"
    if "m1 = Some (mk_msg ACCEPT b w i)" for b w i using cs2 [OF that] by simp
  have new: "pkt_inv reps q ?P S' r" if "r = mk_packet m d" "m \<in> set_option m1 \<union> set_option m2 \<union> set_option m4"
    for r m
  proof -
    from that(2) consider "m1 = Some m" | "m2 = Some m" | "m4 = Some m" by auto
    then show ?thesis
    proof cases
      case 1
      with cs2 [OF this] k show ?thesis by (auto simp: that(1) pkt_inv_def fresh_accept_def)
    next
      case 2
      from ls(2) [OF this] obtain b where "MsgType m = COMMIT" "chosen reps q S' (Instance m) b (Value m)"
        using chosen_mono [OF _ sub] by blast
      then show ?thesis by (auto simp: that(1) pkt_inv_def)
    next
      case 3
      then have "MsgType m \<in> {PREPARE_OK, PREPARE_REJECT, ACCEPT_OK, ACCEPT_REJECT}"
        using ac_operate_kinds a by blast
      with as(2,3) [OF 3] sub k show ?thesis by (auto simp: that(1) pkt_inv_def Let_def)
    qed
  qed
  have new': "r \<in> ?S \<or> pkt_inv reps q ?P S' r" if "r \<in> emitted lp' es" for r
  proof -
    from that em uns consider m where "r = mk_packet m d" "m \<in> set_option m1 \<union> set_option m2 \<union> set_option m4"
      | "is_learn r" | "r \<in> ?S" by blast
    then show ?thesis by cases (simp_all add: new is_learn_def, simp add: pkt_inv_def Let_def)
  qed
  have "0 \<le> n" using n(2) cs1 by (auto simp: coord_inv_def)
  with cs1 have "coord_inv reps q ?P S' d (int k + 1) (lp_c lp')"
    unfolding n(1) by (rule coord_inv_instance)
  moreover have "acc_inv S' (lp_a lp')" using acc_inv_mono [OF as(1) sub] lp'(2) by simp
  moreover have "learner_inv reps q S' (lp_l lp')" using learner_inv_mono [OF ls(1) sub] lp'(1) by simp
  moreover have "\<forall>(v, r) \<in> set (unsentValues lp'). r \<in> S'"
  proof clarify
    fix w r
    assume "(w, r) \<in> set (unsentValues lp')"
    with uns' have "(w, r) \<in> set (unsentValues lp) \<or> r = p" by (auto split: if_splits)
    with uns p sub show "r \<in> S'" by force
  qed
  ultimately have proc': "proc_inv reps q ?P S' d (int k + 1) lp' (delivered s d @ execs es)"
    using proc lp' h(2) by (simp add: proc_inv_def)
  have uniq: "ballots_unique S'"
  proof (rule ballots_unique_step [OF inv k])
    show "accept_sent ?S i b w x \<or> (x = d \<and> m1 = Some (mk_msg ACCEPT b w i) \<and>
        fresh_accept reps ?P ?S d (int k + 1) (mk_msg ACCEPT b w i))"
      if "accept_sent S' i b w x" for i b w x
      using acc [OF that] fresh [of b w i] by (elim disjE conjE) simp_all
  qed
  have "net_inv reps q (emit (s\<lparr>pend := pd, proposed := proposed s\<rparr>) d lp' es)"
  proof (rule net_inv_emit [OF inv i k order_refl vals pd S'_def _ _ uniq proc'])
    show "r \<in> ?S \<or> pkt_inv reps q ?P S' r" if "r \<in> emitted lp' es" for r
      using that by (rule new')
    show "accept_sent ?S i b w x \<or> x = d" if "accept_sent S' i b w x" for i b w x
      using acc [OF that] by (elim disjE conjE) simp_all
  qed
  then show ?thesis using h(1) by simp
qed


lemma ballots_unique_mono:
  "ballots_unique S \<Longrightarrow> (\<And>i b v a. accept_sent S' i b v a \<Longrightarrow> accept_sent S i b v a) \<Longrightarrow>
     ballots_unique S'"
  unfolding ballots_unique_def by blast

text \<open>A node queues a \<open>PROPOSE\<close> or an \<open>EPOCH\<close> for itself.\<close>

lemma local_step:
  assumes inv: "net_inv reps q s" and i: "procs s d = Some lp"
    and pr: "set (proposed s) \<subseteq> set pr" "values_ok (set pr)"
    and lp': "lp' = lp\<lparr>proposeCounter := n\<rparr>"
    and r: "MsgType (PacketMsg r) = PROPOSE \<and> Value (PacketMsg r) \<in> set pr \<or> MsgType (PacketMsg r) = EPOCH"
  shows "net_inv reps q (emit (s\<lparr>proposed := pr\<rparr>) d lp' [Local r])"
proof -
  let ?S = "set (sent s)" and ?P = "set (proposed s)" and ?es = "[Local r]"
  define S' where "S' = ?S \<union> emitted lp' ?es"
  obtain k where k: "k < length reps" "d = reps ! k"
    and proc: "proc_inv reps q ?P ?S d (int k + 1) lp (delivered s d)"
    using net_inv_proc [OF inv i] .
  have em: "emitted lp' ?es \<subseteq> {r}" using emitted_sub [of lp' ?es] by simp
  have "mk_packet (mk_msg ACCEPT b w i) a \<noteq> r" for i b w a using r by auto
  then have acc: "accept_sent ?S i b w a" if "accept_sent S' i b w a" for i b w a
    using that em unfolding S'_def by blast
  have sub: "?S \<subseteq> S'" by (simp add: S'_def)
  have proc': "proc_inv reps q (set pr) S' d (int k + 1) lp (delivered s d)"
    by (rule proc_inv_mono [OF proc pr(1) sub]) (rule acc)
  have "net_inv reps q (emit (s\<lparr>pend := pend s, proposed := pr\<rparr>) d lp' ?es)"
  proof (rule net_inv_emit [OF inv i k pr order_refl S'_def])
    show "x \<in> ?S \<or> pkt_inv reps q (set pr) S' x" if "x \<in> emitted lp' ?es" for x
      using that em r by (auto simp: pkt_inv_def Let_def)
    show "ballots_unique S'"
      by (rule ballots_unique_mono [of ?S]) (use inv acc in \<open>simp_all add: net_inv_def\<close>)
    show "proc_inv reps q (set pr) S' d (int k + 1) lp' (delivered s d @ execs ?es)"
      using proc' by (simp add: proc_inv_def lp')
  qed (use acc in blast)
  then show ?thesis by simp
qed

lemma propose_step:
  assumes inv: "net_inv reps q s" and i: "procs s d = Some lp"
    and pr: "ProposeCommand lp v = (lp', es)"
  shows "net_inv reps q (emit (s\<lparr>proposed := proposed s @ [getModifiedValue lp v]\<rparr>) d lp' es)"
proof -
  have "values_ok (set (proposed s @ [getModifiedValue lp v]))"
    using inv by (simp add: net_inv_def values_ok_def)
  then show ?thesis using pr
    by (auto simp: ProposeCommand_def zero_msg_def intro!: local_step [OF inv i _ _ refl])
qed

lemma tick_step:
  assumes inv: "net_inv reps q s" and i: "procs s d = Some lp"
  shows "net_inv reps q (emit s d lp [Local (epoch_packet lp)])"
proof -
  have "net_inv reps q (emit (s\<lparr>proposed := proposed s\<rparr>) d lp [Local (epoch_packet lp)])"
    by (rule local_step [OF inv i order_refl, of lp "proposeCounter lp"])
       (use inv in \<open>simp_all add: net_inv_def epoch_packet_def\<close>)
  then show ?thesis by simp
qed

subsection \<open>The invariant holds in every reachable state\<close>

definition net_start :: "string list \<Rightarrow> int \<Rightarrow> paxos_net \<Rightarrow> bool" where
  "net_start reps q s \<longleftrightarrow> cluster_ok reps q \<and> s = init_net reps q"

lemma init_procs:
  assumes "distinct reps" and "k < length reps"
  shows "procs (init_net reps q) (reps ! k) = Some (NewLibpaxos (reps ! k) reps q (int k + 1))"
proof -
  let ?l = "map (\<lambda>k. (reps ! k, NewLibpaxos (reps ! k) reps q (int k + 1))) [0 ..< length reps]"
  have "map fst ?l = reps" by (simp add: comp_def map_nth)
  with assms have "distinct (map fst ?l)" by simp
  moreover have "(reps ! k, NewLibpaxos (reps ! k) reps q (int k + 1)) \<in> set ?l" using assms(2) by auto
  ultimately show ?thesis by (simp add: init_net_def)
qed

lemma net_inv_init: "cluster_ok reps q \<Longrightarrow> net_inv reps q (init_net reps q)"
proof -
  assume cl: "cluster_ok reps q"
  have coord: "coord_inv reps q {} {} a (int k + 1) (c_init (int k + 1) (int (length reps)) q)" for a k
    by (simp add: coord_inv_def c_init_def)
  have "proc_inv reps q {} {} (reps ! k) (int k + 1) (NewLibpaxos (reps ! k) reps q (int k + 1)) []" for k
  proof -
    have "learner_inv reps q {} (lr_init q)"
      by (simp add: learner_inv_def lp_inv_def) (simp add: lp_init_def count_of_def lr_init_def)
    moreover have "acc_inv {} ac_init" by (simp add: acc_inv_def ap_init_def)
    ultimately show ?thesis
      using coord node_inv_New [of "reps ! k" reps q "int k + 1"]
      unfolding proc_inv_def by (simp add: NewLibpaxos_def)
  qed
  moreover have "dom (procs (init_net reps q)) = set reps"
    by (simp add: init_net_def dom_map_of_conv_image_fst image_image) (auto simp: set_conv_nth)
  ultimately show ?thesis
    using cl by (auto simp: net_inv_def init_procs cluster_ok_def values_ok_def ballots_unique_def)
      (simp_all add: init_net_def)
qed

lemma net_inv_step: "net_inv reps q s \<Longrightarrow> net_step s e = Some t \<Longrightarrow> net_inv reps q t"
proof (cases e)
  case (Deliver i)
  assume inv: "net_inv reps q s" and st: "net_step s e = Some t"
  from st Deliver obtain d p lp lp' es where
    e: "i < length (pend s)" "pend s ! i = (d, p)" "procs s d = Some lp"
      "handleOperate lp p = Some (lp', es)" "t = emit (s\<lparr>pend := remove_at i (pend s)\<rparr>) d lp' es"
    by (auto split: if_splits prod.splits option.splits)
  have "(d, p) \<in> set (pend s)" using e(1,2) by (metis nth_mem)
  then have "p \<in> snd ` set (pend s)" by force
  moreover have "snd ` set (pend s) \<subseteq> set (sent s)" using inv by (simp add: net_inv_def)
  ultimately have p: "p \<in> set (sent s)" by blast
  have "set (remove_at i (pend s)) \<subseteq> set (pend s)"
    by (auto simp: remove_at_def dest: in_set_takeD in_set_dropD)
  from deliver_step [OF inv e(3) p this] e(4,5) show ?thesis by auto
next
  case (Drop i)
  assume inv: "net_inv reps q s" and st: "net_step s e = Some t"
  have sub: "set (remove_at i (pend s)) \<subseteq> set (pend s)"
    by (auto simp: remove_at_def dest: in_set_takeD in_set_dropD)
  have t: "t = s\<lparr>pend := remove_at i (pend s)\<rparr>" using st Drop by (simp split: if_splits)
  have "snd ` set (remove_at i (pend s)) \<subseteq> set (sent s)"
    by (rule subset_trans [OF image_mono [OF sub]]) (use inv in \<open>simp add: net_inv_def\<close>)
  moreover have "fst ` set (remove_at i (pend s)) \<subseteq> set reps"
    by (rule subset_trans [OF image_mono [OF sub]]) (use inv in \<open>simp add: net_inv_def\<close>)
  ultimately show ?thesis using inv by (simp add: net_inv_def t)
next
  case (Propose d v)
  assume "net_inv reps q s" "net_step s e = Some t"
  with Propose show ?thesis by (auto split: option.splits prod.splits intro: propose_step)
next
  case (Tick d)
  assume "net_inv reps q s" "net_step s e = Some t"
  with Tick show ?thesis by (auto split: option.splits intro: tick_step)
qed

interpretation net: invariant_machine "net_start reps q" net_step "net_inv reps q" for reps q
  by unfold_locales (auto simp: net_start_def intro: net_inv_init net_inv_step)

end
