(* ===== verification/Paxos_Safety.thy ===== *)
theory Paxos_Safety
  imports Paxos_Net
begin

section \<open>What the Paxos cluster guarantees\<close>

text \<open>
  The properties of the cluster that follow from \<open>net_inv\<close>, stated for every run of
  \<open>net_step\<close> from \<open>init_net\<close>, and the one that does not hold: a coordinator counts any
  \<open>PREPARE_OK\<close> for its instance, because the answer names the accepted ballot and not the
  promised one, so two coordinators can each take the promises made to the other for their
  own. \<open>disagreement\<close> is a run of three nodes in which this happens.
\<close>

subsection \<open>Reading the invariant\<close>

lemma reachable_inv:
  "cluster_ok reps q \<Longrightarrow> run net_step (init_net reps q) es = Some s \<Longrightarrow> net_inv reps q s"
  by (rule net.inv_run) (simp_all add: net_start_def)

lemma net_inv_node:
  assumes "net_inv reps q s" and "procs s d = Some lp"
  shows "node_inv lp (delivered s d)" and "learner_inv reps q (set (sent s)) (lp_l lp)"
  using net_inv_proc [OF assms] by (auto simp: proc_inv_def)

lemma net_inv_learnt:
  assumes inv: "net_inv reps q s" and p: "procs s d = Some lp" and l: "learnt (lp_l lp) i = Some v"
  obtains b where "chosen reps q (set (sent s)) i b v"
proof -
  have "lp_commit (lr_get (lp_l lp) i)" "lp_value (lr_get (lp_l lp) i) = v"
    using l by (auto simp: learnt_def split: if_splits)
  with learner_inv_get [OF net_inv_node(2) [OF inv p], of i] that show thesis
    by (auto simp: lp_inv_def)
qed

lemma net_inv_chosen:
  assumes inv: "net_inv reps q s" and c: "chosen reps q (set (sent s)) i b v"
  obtains a where "accept_sent (set (sent s)) i b v a" "v \<in> set (proposed s)"
proof -
  let ?S = "set (sent s)"
  from inv have q: "1 \<le> q" and pk: "\<And>p. p \<in> ?S \<Longrightarrow> pkt_inv reps q (set (proposed s)) ?S p"
    by (auto simp: net_inv_def cluster_ok_def)
  from c q obtain a where "vote ?S i b v a" by (rule chosen_vote)
  from pk [OF this] obtain a' where a': "accept_sent ?S i b v a'" by (auto simp: pkt_inv_def)
  from pk [OF a'] a' that show thesis by (auto simp: pkt_inv_def)
qed

lemma net_inv_chosen_unique:
  assumes inv: "net_inv reps q s" and c: "chosen reps q (set (sent s)) i b v"
    "chosen reps q (set (sent s)) i b w"
  shows "v = w"
proof -
  obtain a where "accept_sent (set (sent s)) i b v a" using net_inv_chosen [OF inv c(1)] .
  moreover obtain a' where "accept_sent (set (sent s)) i b w a'" using net_inv_chosen [OF inv c(2)] .
  moreover have "ballots_unique (set (sent s))" using inv by (simp add: net_inv_def)
  ultimately show ?thesis unfolding ballots_unique_def by blast
qed

lemma node_inv_prefix:
  assumes lp: "node_inv lp cmds" and lp': "node_inv lp' cmds'"
    and agree: "\<forall>i v w. learnt (lp_l lp) i = Some v \<longrightarrow> learnt (lp_l lp') i = Some w \<longrightarrow> v = w"
    and le: "lastCommandExecuted lp \<le> lastCommandExecuted lp'"
  shows "prefix cmds cmds'"
proof -
  let ?n = "lastCommandExecuted lp" and ?m = "lastCommandExecuted lp'"
  have "learnt (lp_l lp) i = learnt (lp_l lp') i" if "1 \<le> i" "i \<le> ?n" for i
  proof -
    have "i \<in> {1 .. ?n}" "i \<in> {1 .. ?m}" using that le by auto
    moreover have "{1 .. ?n} \<subseteq> dom (learnt (lp_l lp))" "{1 .. ?m} \<subseteq> dom (learnt (lp_l lp'))"
      using lp lp' by (simp_all add: node_inv_def)
    ultimately show ?thesis using agree by fastforce
  qed
  then have same: "log_values (lp_l lp) ?n = log_values (lp_l lp') ?n" by (simp add: log_values_def)
  have "0 \<le> ?n" using lp by (simp add: node_inv_def)
  from log_values_split [OF this le, of "lp_l lp'"] obtain zs where
    "log_values (lp_l lp') ?m = log_values (lp_l lp) ?n @ zs" by (simp add: same)
  with lp lp' show ?thesis by (simp add: node_inv_def firsts_append)
qed

subsection \<open>Example clusters\<close>

definition trio :: "string list" where
  "trio = [''a'', ''b'', ''c'']"

text \<open>One proposal of node a, every packet delivered in the order it was sent.\<close>

definition fifo_run :: "net_event list" where
  "fifo_run = Propose ''a'' ''x'' # replicate 34 (Deliver 0)"

text \<open>Proposals of a and b; both collect the same four promises.\<close>

definition disagreement :: "net_event list" where
  "disagreement =
     [Propose ''a'' ''x'', Propose ''b'' ''y'', Deliver 0, Deliver 0,
      Deliver 0, Deliver 0, Deliver 4, Deliver 6, Deliver 4, Deliver 5,
      Deliver 6, Deliver 6, Deliver 10, Deliver 12,
      Deliver 7, Deliver 7, Deliver 16, Deliver 18]"

text \<open>What is observed of a node: the commands it delivered and its first log entry.\<close>

definition observe :: "paxos_net \<Rightarrow> string \<Rightarrow> string list \<times> string option" where
  "observe s d =
     (delivered s d, case procs s d of None \<Rightarrow> None | Some lp \<Rightarrow> learnt (lp_l lp) 1)"

definition one_proposal :: "net_event list" where
  "one_proposal = [Propose ''a'' ''x'']"

lemma cluster_trio: "cluster_ok trio 2"
  by (simp add: cluster_ok_def trio_def)

lemma fifo_run_result:
  "map_option (\<lambda>s. (pend s, map (observe s) trio)) (run net_step (init_net trio 2) fifo_run) =
     Some ([], replicate 3 ([''x''], Some ''1$$0$$x''))"
  by code_simp

lemma fifo_run_reaches:
  obtains s lp lp' where "run net_step (init_net trio 2) fifo_run = Some s"
    "procs s ''a'' = Some lp" "learnt (lp_l lp) 1 = Some ''1$$0$$x''" "delivered s ''a'' = [''x'']"
    "procs s ''b'' = Some lp'" "learnt (lp_l lp') 1 = Some ''1$$0$$x''" "delivered s ''b'' = [''x'']"
  using fifo_run_result
  by (auto simp: observe_def trio_def numeral_3_eq_3 split: option.splits)

lemma disagreement_result:
  "map_option (\<lambda>s. (observe s ''a'', observe s ''b'')) (run net_step (init_net trio 2) disagreement) =
     Some (([''x''], Some ''1$$0$$x''), ([''y''], Some ''2$$0$$y''))"
  by code_simp

subsection \<open>Properties\<close>

text \<open>C7: Whatever a node commits at an instance was proposed by some client, and a quorum
  of the replicas sent \<open>ACCEPT_OK\<close> for it in one ballot.\<close>

theorem paxos_learnt_chosen:
  assumes "cluster_ok reps q" and "run net_step (init_net reps q) es = Some s"
    and "procs s d = Some lp" and "learnt (lp_l lp) i = Some v"
  shows "v \<in> set (proposed s) \<and> (\<exists>b. chosen reps q (set (sent s)) i b v)"
proof -
  note inv = reachable_inv [OF assms(1,2)]
  obtain b where b: "chosen reps q (set (sent s)) i b v" using net_inv_learnt [OF inv assms(3,4)] .
  then show ?thesis using net_inv_chosen [OF inv b] by blast
qed

theorem paxos_learnt_chosen_witness:
  "\<exists>s b. run net_step (init_net trio 2) fifo_run = Some s \<and> ''1$$0$$x'' \<in> set (proposed s) \<and>
     chosen trio 2 (set (sent s)) 1 b ''1$$0$$x''"
  by (rule fifo_run_reaches) (metis paxos_learnt_chosen cluster_trio)

text \<open>C15: Two nodes that commit different values at one instance had them chosen in
  different ballots: within a ballot the nodes agree.\<close>

theorem paxos_ballot_agreement:
  assumes "cluster_ok reps q" and "run net_step (init_net reps q) es = Some s"
    and "chosen reps q (set (sent s)) i b v" and "chosen reps q (set (sent s)) i b' w" and "v \<noteq> w"
  shows "b \<noteq> b'"
  using net_inv_chosen_unique [OF reachable_inv [OF assms(1,2)]] assms(3-5) by blast

lemma disagreement_chosen:
  obtains s b b' where "run net_step (init_net trio 2) disagreement = Some s"
    "chosen trio 2 (set (sent s)) 1 b ''1$$0$$x''" "chosen trio 2 (set (sent s)) 1 b' ''2$$0$$y''"
proof -
  obtain s lp lp' where s: "run net_step (init_net trio 2) disagreement = Some s"
    "procs s ''a'' = Some lp" "learnt (lp_l lp) 1 = Some ''1$$0$$x''"
    "procs s ''b'' = Some lp'" "learnt (lp_l lp') 1 = Some ''2$$0$$y''"
    using disagreement_result by (auto simp: observe_def split: option.splits)
  note inv = reachable_inv [OF cluster_trio s(1)]
  obtain b where "chosen trio 2 (set (sent s)) 1 b ''1$$0$$x''" using net_inv_learnt [OF inv s(2,3)] .
  moreover obtain b' where "chosen trio 2 (set (sent s)) 1 b' ''2$$0$$y''"
    using net_inv_learnt [OF inv s(4,5)] .
  ultimately show thesis using s(1) that by blast
qed

theorem paxos_ballot_agreement_witness:
  "\<exists>s b b'. run net_step (init_net trio 2) disagreement = Some s \<and>
     chosen trio 2 (set (sent s)) 1 b ''1$$0$$x'' \<and> chosen trio 2 (set (sent s)) 1 b' ''2$$0$$y'' \<and> b \<noteq> b'"
proof -
  obtain s b b' where s: "run net_step (init_net trio 2) disagreement = Some s"
    "chosen trio 2 (set (sent s)) 1 b ''1$$0$$x''" "chosen trio 2 (set (sent s)) 1 b' ''2$$0$$y''"
    by (rule disagreement_chosen)
  have "b \<noteq> b'" by (rule paxos_ballot_agreement [OF cluster_trio s]) simp
  with s show ?thesis by blast
qed

text \<open>C17: The nodes of a cluster can commit different values at the same instance, and hand
  different commands to their clients: three nodes, quorum two, no packet lost.\<close>

theorem paxos_agreement_fails:
  "\<exists>s lp lp'. run net_step (init_net trio (int (quorum_size 3))) disagreement = Some s \<and>
     procs s ''a'' = Some lp \<and> procs s ''b'' = Some lp' \<and>
     learnt (lp_l lp) 1 = Some ''1$$0$$x'' \<and> learnt (lp_l lp') 1 = Some ''2$$0$$y'' \<and>
     delivered s ''a'' = [''x''] \<and> delivered s ''b'' = [''y'']"
  using disagreement_result by (auto simp: observe_def quorum_size_def split: option.splits)

text \<open>C18: A packet on its way to a node is always handled: no handler panics on an index out
  of range and the search for a proposal number ends.\<close>

theorem paxos_never_panics:
  assumes "cluster_ok reps q" and "run net_step (init_net reps q) es = Some s"
    and "k < length (pend s)"
  shows "\<exists>t. net_step s (Deliver k) = Some t"
proof -
  note inv = reachable_inv [OF assms(1,2)]
  obtain d p where dp: "pend s ! k = (d, p)" by fastforce
  then have "(d, p) \<in> set (pend s)" using assms(3) by (metis nth_mem)
  then have "d \<in> fst ` set (pend s)" "p \<in> snd ` set (pend s)" by force+
  then have d: "d \<in> dom (procs s)" and p: "p \<in> set (sent s)"
    using inv unfolding net_inv_def by blast+
  from d obtain lp where lp: "procs s d = Some lp" by blast
  have "set (remove_at k (pend s)) \<subseteq> set (pend s)"
    by (auto simp: remove_at_def dest: in_set_takeD in_set_dropD)
  from deliver_step [OF inv lp p this] dp lp assms(3) show ?thesis by auto
qed

theorem paxos_never_panics_witness:
  "\<exists>s t. run net_step (init_net trio 2) one_proposal = Some s \<and> net_step s (Deliver 0) = Some t"
proof -
  have "map_option (\<lambda>s. length (pend s)) (run net_step (init_net trio 2) one_proposal) = Some 1"
    by code_simp
  then obtain s where s: "run net_step (init_net trio 2) one_proposal = Some s" "length (pend s) = 1"
    by auto
  have "0 < length (pend s)" using s(2) by simp
  from paxos_never_panics [OF cluster_trio s(1) this] s(1) show ?thesis by blast
qed

text \<open>C13: What a node has handed to its client is its log up to \<open>lastCommandExecuted\<close>, with
  no gap, in order, each value once and stripped of its tag.\<close>

theorem paxos_delivers_log:
  assumes "cluster_ok reps q" and "run net_step (init_net reps q) es = Some s"
    and "procs s d = Some lp"
  shows "{1 .. lastCommandExecuted lp} \<subseteq> dom (learnt (lp_l lp)) \<and>
    delivered s d = map payload (firsts {} (log_values (lp_l lp) (lastCommandExecuted lp)))"
  using net_inv_node(1) [OF reachable_inv [OF assms(1,2)] assms(3)] by (simp add: node_inv_def)

theorem paxos_delivers_log_witness:
  "\<exists>s lp. run net_step (init_net trio 2) fifo_run = Some s \<and> procs s ''a'' = Some lp \<and>
     map payload (firsts {} (log_values (lp_l lp) (lastCommandExecuted lp))) = [''x'']"
  by (rule fifo_run_reaches) (metis paxos_delivers_log cluster_trio)

text \<open>C19: State machine replication: of two nodes that nowhere committed different values, one
  has handed its client a prefix of what the other has.\<close>

theorem paxos_replicas_prefix:
  assumes "cluster_ok reps q" and "run net_step (init_net reps q) es = Some s"
    and "procs s d = Some lp" and "procs s e = Some lp'"
    and "\<forall>i v w. learnt (lp_l lp) i = Some v \<longrightarrow> learnt (lp_l lp') i = Some w \<longrightarrow> v = w"
  shows "prefix (delivered s d) (delivered s e) \<or> prefix (delivered s e) (delivered s d)"
proof -
  note inv = reachable_inv [OF assms(1,2)]
  note n = net_inv_node(1) [OF inv assms(3)] net_inv_node(1) [OF inv assms(4)]
  consider "lastCommandExecuted lp \<le> lastCommandExecuted lp'"
    | "lastCommandExecuted lp' \<le> lastCommandExecuted lp" by linarith
  then show ?thesis
  proof cases
    case 1
    with node_inv_prefix [OF n assms(5)] show ?thesis by blast
  next
    case 2
    with node_inv_prefix [OF n(2,1)] assms(5) show ?thesis by blast
  qed
qed

theorem paxos_replicas_prefix_witness:
  "\<exists>s. run net_step (init_net trio 2) fifo_run = Some s \<and>
     (prefix (delivered s ''a'') (delivered s ''b'') \<or> prefix (delivered s ''b'') (delivered s ''a''))"
proof -
  have h: "map_option (\<lambda>s. map (\<lambda>d. map_option (\<lambda>lp. getHistory (lp_l lp)) (procs s d)) [''a'', ''b''])
      (run net_step (init_net trio 2) fifo_run) = Some (replicate 2 (Some [(1, ''1$$0$$x'')]))"
    by code_simp
  then obtain s lp lp' where s: "run net_step (init_net trio 2) fifo_run = Some s"
    "procs s ''a'' = Some lp" "procs s ''b'' = Some lp'"
    "getHistory (lp_l lp) = [(1, ''1$$0$$x'')]" "getHistory (lp_l lp') = [(1, ''1$$0$$x'')]"
    by (auto simp: numeral_2_eq_2)
  note inv = reachable_inv [OF cluster_trio s(1)]
  have "lr_ok (lp_l lp)" "lr_ok (lp_l lp')"
    using net_inv_node(1) [OF inv s(2)] net_inv_node(1) [OF inv s(3)] by (simp_all add: node_inv_def)
  then have "learnt (lp_l lp) i = learnt (lp_l lp') i" for i
    using s(4,5) by (simp add: gget_getHistory [symmetric])
  then have "\<forall>i v w. learnt (lp_l lp) i = Some v \<longrightarrow> learnt (lp_l lp') i = Some w \<longrightarrow> v = w" by simp
  from paxos_replicas_prefix [OF cluster_trio s(1-3) this] s(1) show ?thesis by blast
qed


text \<open>Any two quorums of the size the airline server computes, \<open>n/2 + n%2\<close>, share a
  replica exactly when the number of replicas is odd: an even cluster can split.\<close>

theorem quorum_intersection:
  assumes fin: "finite N"
  shows "(\<forall>Q R. Q \<subseteq> N \<longrightarrow> R \<subseteq> N \<longrightarrow> quorum_size (card N) \<le> card Q \<longrightarrow>
      quorum_size (card N) \<le> card R \<longrightarrow> Q \<inter> R \<noteq> {}) \<longleftrightarrow> odd (card N)"
    (is "?meet \<longleftrightarrow> _")
proof
  assume odd: "odd (card N)"
  show ?meet
  proof (intro allI impI notI)
    fix Q R
    assume Q: "Q \<subseteq> N" "quorum_size (card N) \<le> card Q" and R: "R \<subseteq> N" "quorum_size (card N) \<le> card R"
      and disj: "Q \<inter> R = {}"
    have "card Q + card R = card (Q \<union> R)"
      using fin Q(1) R(1) disj by (simp add: card_Un_disjoint finite_subset)
    also have "\<dots> \<le> card N" using fin Q(1) R(1) by (intro card_mono) auto
    finally show False using odd Q(2) R(2) by (elim oddE) (simp add: quorum_size_def)
  qed
next
  assume meet: ?meet
  show "odd (card N)"
  proof
    assume "even (card N)"
    then obtain k where k: "card N = 2 * k" by (elim evenE)
    then obtain Q where Q: "Q \<subseteq> N" "card Q = k"
      using obtain_subset_with_card_n [of k N] by auto
    have "card (N - Q) = k" using Q k fin by (simp add: card_Diff_subset finite_subset)
    with Q k have "Q \<inter> (N - Q) \<noteq> {}"
      by (intro meet [rule_format]) (auto simp: quorum_size_def)
    then show False by blast
  qed
qed

theorem quorum_intersection_witness:
  "\<exists>Q R. Q \<subseteq> {1, 2 :: nat} \<and> R \<subseteq> {1, 2} \<and> quorum_size 2 \<le> card Q \<and> quorum_size 2 \<le> card R \<and> Q \<inter> R = {}"
  using quorum_intersection [of "{1, 2 :: nat}"] by (auto simp: numeral_2_eq_2)

text \<open>The command a client proposed comes out of the log unchanged exactly when it does not
  contain the separator of the tag.\<close>

theorem tagged_value_roundtrip:
  "getFromModifiedValue (getModifiedValue lp v) = Some v \<longleftrightarrow> \<not> sublist ''$$'' v"
  by (simp add: getFrom_getModified hd_Split_whole)

end
