(* ===== verification/Replicated_Airline.thy ===== *)
theory Replicated_Airline
  imports Airline_Properties Airline_Paxos Paxos_Safety
begin

section \<open>An airline replicated over Paxos\<close>

text \<open>
  An airline server is the client of a Paxos node: its remote calls go to \<open>ProposeCommand\<close>, and
  what the node delivers comes to \<open>PaxosResponse\<close>. A replica here is an airline server whose
  events are requests of callers, which only number and propose a command, and commands from
  the log of its node. A command of its own is delivered while its caller waits for it.

  Two replicas that have taken the same number of commands from their nodes have the same
  store, as long as the nodes committed no different values and, for every command that opens
  a transaction, both or none of them reached its transaction manager when they took it. Each
  event of a replica has its own network: whom the replica can dial, and what its polls meet.
  The condition is needed (theory Airline_Properties, \<open>replicas_diverge\<close>).
\<close>

subsection \<open>A replica\<close>

datatype replica_event = Submit Request | FromLog string

text \<open>Whether a command is another replica's, or its own with a caller that waits.\<close>

definition awaited :: "AirlineServer \<Rightarrow> string \<Rightarrow> bool" where
  "awaited s cmd \<longleftrightarrow>
     (let cmdArgs = strings_Split cmd ''@'' in
      length cmdArgs \<ge> 2 \<longrightarrow> cmdArgs ! 1 = myhostport s \<longrightarrow>
        oldReplycMap s (case Atoi (cmdArgs ! 0) of Some n \<Rightarrow> n | None \<Rightarrow> 0) \<noteq> None)"

definition replica_step ::
  "unmarshaller \<Rightarrow> (string \<Rightarrow> bool) \<Rightarrow> (nat \<Rightarrow> poll_result) \<Rightarrow> AirlineServer \<Rightarrow> replica_event \<Rightarrow>
     AirlineServer option" where
  "replica_step unmarshal dial poll s e =
     (case e of
        Submit r \<Rightarrow> if reqType r = PAXOS_REQUEST then map_option fst (storeHandler dial poll s r) else None
      | FromLog cmd \<Rightarrow> if awaited s cmd then map_option fst (PaxosResponse unmarshal dial poll s cmd) else None)"

text \<open>What the network is like at one replica at one moment: who can be dialled, what polls meet.\<close>

type_synonym link = "(string \<Rightarrow> bool) \<times> (nat \<Rightarrow> poll_result)"

fun replica_at :: "unmarshaller \<Rightarrow> AirlineServer \<Rightarrow> link \<times> replica_event \<Rightarrow> AirlineServer option" where
  "replica_at unmarshal s ((dial, poll), e) = replica_step unmarshal dial poll s e"

text \<open>The commands taken, each with who could be dialled at that moment.\<close>

fun taken_on :: "(link \<times> replica_event) list \<Rightarrow> (string \<times> (string \<Rightarrow> bool)) list" where
  "taken_on [] = []"
| "taken_on ((l, Submit r) # es) = taken_on es"
| "taken_on ((l, FromLog cmd) # es) = (cmd, fst l) # taken_on es"

text \<open>The transaction manager a command makes the server dial: that of a transaction it opens.\<close>

definition dials :: "unmarshaller \<Rightarrow> string \<Rightarrow> string option" where
  "dials unmarshal cmd =
     (let cmdArgs = strings_Split cmd ''@'' in
      if length cmdArgs < 4 then None
      else (case unmarshal (cmdArgs ! 2) (cmdArgs ! 3) of
              Tran t \<Rightarrow> if ta_TranType t = TRANS_INIT then Some (ta_TM t) else None
            | _ \<Rightarrow> None))"

text \<open>One command taken by two replicas, with a network that serves them alike as to it.\<close>

definition reached_alike :: "unmarshaller \<Rightarrow> string \<times> (string \<Rightarrow> bool) \<Rightarrow> string \<times> (string \<Rightarrow> bool) \<Rightarrow> bool" where
  "reached_alike unmarshal x y \<longleftrightarrow>
     (case dials unmarshal (fst x) of None \<Rightarrow> True | Some tm \<Rightarrow> snd x tm = snd y tm)"

fun taken_cmds :: "replica_event list \<Rightarrow> string list" where
  "taken_cmds [] = []"
| "taken_cmds (Submit r # es) = taken_cmds es"
| "taken_cmds (FromLog cmd # es) = cmd # taken_cmds es"

subsection \<open>Replicas stay the same\<close>

lemma relay_store: "relay is_own c result = Some (s, es) \<Longrightarrow> \<exists>fs. result = Some (s, fs)"
  by (auto simp: relay_def split: option.splits list.splits air_effect.splits if_splits)

lemma replyc_same [simp]: "same_store (s\<lparr>oldReplycMap := m\<rparr>) t = same_store s t"
  "same_store s (t\<lparr>oldReplycMap := m\<rparr>) = same_store s t"
  by (simp_all add: same_store_def)

lemma apply_op_same:
  assumes "apply_op dial poll s a c own1 = Some (s', es)" and "apply_op dial poll' t a c' own2 = Some (t', es')"
    and "same_store s t"
  shows "same_store s' t'"
proof (cases a)
  case (Tran args)
  then show ?thesis
    using assms
    by (cases "ta_TranType args")
       (auto simp: apply_op_def PaxosTransaction_def dest!: relay_store intro: storeHandler_same)
qed (use assms in \<open>auto simp: apply_op_def PaxosCreateFlight_def PaxosGetFlight_def PaxosGetAllFlightIDs_def
      dest!: relay_store intro: storeHandler_same\<close>)

lemma PaxosResponse_apply:
  assumes "PaxosResponse unmarshal dial poll s cmd = Some (s', es)" and "awaited s cmd"
  shows "let cmdArgs = strings_Split cmd ''@'' in
    length cmdArgs \<ge> 4 \<and>
    (if cmdArgs ! 2 \<in> {''CF'', ''GF'', ''GA'', ''TA''}
     then \<exists>m c is_own. apply_op dial poll (s\<lparr>oldReplycMap := m\<rparr>) (unmarshal (cmdArgs ! 2) (cmdArgs ! 3)) c is_own = Some (s', es)
     else s' = s)"
proof -
  have r: "s\<lparr>oldReplycMap := oldReplycMap s\<rparr> = s" by simp
  show ?thesis
    using assms r unfolding PaxosResponse_def awaited_def apply_op_def Let_def
    by (auto split: if_splits) (metis r)+
qed

lemma PaxosResponse_same:
  assumes "PaxosResponse unmarshal dial poll s cmd = Some (s', es)" and "awaited s cmd"
    and "PaxosResponse unmarshal dial poll' t cmd = Some (t', es')" and "awaited t cmd"
    and "same_store s t"
  shows "same_store s' t'"
proof (cases "strings_Split cmd ''@'' ! 2 \<in> {''CF'', ''GF'', ''GA'', ''TA''}")
  case True
  with PaxosResponse_apply [OF assms(1,2)] PaxosResponse_apply [OF assms(3,4)] obtain m c o1 m' c' o2 where
    "apply_op dial poll (s\<lparr>oldReplycMap := m\<rparr>) (unmarshal (strings_Split cmd ''@'' ! 2) (strings_Split cmd ''@'' ! 3)) c o1 = Some (s', es)"
    "apply_op dial poll' (t\<lparr>oldReplycMap := m'\<rparr>) (unmarshal (strings_Split cmd ''@'' ! 2) (strings_Split cmd ''@'' ! 3)) c' o2 = Some (t', es')"
    unfolding Let_def by (metis (no_types))
  from apply_op_same [OF this] assms(5) show ?thesis by simp
next
  case False
  with PaxosResponse_apply [OF assms(1,2)] PaxosResponse_apply [OF assms(3,4)] assms(5) show ?thesis
    by (simp add: Let_def)
qed

text \<open>Of the network a command sees only whether its transaction manager can be dialled.\<close>

lemma storeHandler_dial:
  assumes "\<And>args. reqType r = INIT_TRANS \<Longrightarrow> req_val r = VArgs args \<Longrightarrow> dial (ta_TM args) = dial' (ta_TM args)"
  shows "storeHandler dial poll s r = storeHandler dial' poll s r"
  using assms
  by (auto simp: storeHandler_def transactionHandler_def initTrans_def split: req_type.split req_value.split prod.split)

lemma apply_op_dial:
  assumes "\<And>args. a = Tran args \<Longrightarrow> ta_TranType args = TRANS_INIT \<Longrightarrow> dial (ta_TM args) = dial' (ta_TM args)"
  shows "apply_op dial poll s a c is_own = apply_op dial' poll s a c is_own"
proof (cases a)
  case (Tran args)
  have "storeHandler dial poll t (mk_request INIT_TRANS k (VArgs args) r b) =
      storeHandler dial' poll t (mk_request INIT_TRANS k (VArgs args) r b)"
    if "ta_TranType args = TRANS_INIT" for t k r b
    using assms [OF Tran that] by (intro storeHandler_dial) simp
  moreover have "storeHandler dial poll t (mk_request ty k v r b) = storeHandler dial' poll t (mk_request ty k v r b)"
    if "ty \<noteq> INIT_TRANS" for t ty k v r b
    using that by (intro storeHandler_dial) simp
  ultimately show ?thesis
    by (cases "ta_TranType args") (simp_all add: Tran apply_op_def PaxosTransaction_def)
qed (simp_all add: apply_op_def PaxosCreateFlight_def PaxosGetFlight_def PaxosGetAllFlightIDs_def storeHandler_def)

lemma PaxosResponse_dial:
  assumes "reached_alike unmarshal (cmd, dial) (cmd', dial')"
  shows "PaxosResponse unmarshal dial poll s cmd = PaxosResponse unmarshal dial' poll s cmd"
proof (cases "length (strings_Split cmd ''@'') < 4")
  case False
  let ?a = "unmarshal (strings_Split cmd ''@'' ! 2) (strings_Split cmd ''@'' ! 3)"
  have "apply_op dial poll t ?a c b = apply_op dial' poll t ?a c b" for t c b
    using assms False by (intro apply_op_dial) (simp add: reached_alike_def dials_def Let_def)
  then show ?thesis
    unfolding PaxosResponse_def Let_def apply_op_def by (simp only: False if_False)
qed (simp add: PaxosResponse_def Let_def)

lemma FromLog_step:
  "replica_step unmarshal dial poll s (FromLog cmd) = Some s' \<longleftrightarrow>
     awaited s cmd \<and> (\<exists>es. PaxosResponse unmarshal dial poll s cmd = Some (s', es))"
  by (auto simp: replica_step_def)

lemma submit_same:
  "replica_step unmarshal dial poll s (Submit r) = Some s' \<Longrightarrow> same_store s' t = same_store s t"
  by (auto simp: replica_step_def PAXOS_REQUEST_result same_store_def split: if_splits)

lemma submits_same:
  "run (replica_at unmarshal) s es = Some s' \<Longrightarrow> taken_on es = [] \<Longrightarrow> same_store s' t = same_store s t"
proof (induction es arbitrary: s)
  case (Cons e es)
  then obtain l r s1 where "e = (l, Submit r)" "replica_at unmarshal s e = Some s1"
    "run (replica_at unmarshal) s1 es = Some s'" "taken_on es = []"
    by (cases e; cases "snd e") (auto split: option.splits)
  with Cons.IH submit_same show ?case by (cases l) auto
qed simp

lemma taken_split:
  "taken_on es = (cmd, d) # ds \<Longrightarrow>
     \<exists>subs poll rest. es = subs @ ((d, poll), FromLog cmd) # rest \<and> taken_on subs = [] \<and> taken_on rest = ds"
proof (induction es rule: taken_on.induct)
  case (2 l r es)
  then obtain subs poll rest where "es = subs @ ((d, poll), FromLog cmd) # rest" "taken_on subs = []" "taken_on rest = ds"
    by auto
  then show ?case by (intro exI [of _ "(l, Submit r) # subs"] exI [of _ poll] exI [of _ rest]) auto
next
  case (3 l c es)
  then show ?case by (intro exI [of _ "[]"] exI [of _ "snd l"] exI [of _ es]) auto
qed simp

lemma same_store_sym: "same_store s t \<Longrightarrow> same_store t s"
  by (simp add: same_store_def)

lemma replica_run_same:
  assumes "same_store s t" and "map fst (taken_on es) = map fst (taken_on fs)"
    and "list_all2 (reached_alike unmarshal) (taken_on es) (taken_on fs)"
    and "run (replica_at unmarshal) s es = Some s'" and "run (replica_at unmarshal) t fs = Some t'"
  shows "same_store s' t'"
  using assms
proof (induction es arbitrary: s t fs rule: taken_on.induct)
  case 1
  then show ?case using submits_same [of unmarshal t fs t' s] same_store_sym by fastforce
next
  case (2 l r es)
  then obtain s1 where s1: "replica_at unmarshal s (l, Submit r) = Some s1" "run (replica_at unmarshal) s1 es = Some s'"
    by (auto split: option.splits)
  have "same_store s1 t" using s1(1) 2(2) submit_same by (cases l) auto
  from "2.IH" [OF this] 2 s1(2) show ?case by simp
next
  case (3 l cmd es)
  obtain dial poll where l: "l = (dial, poll)" by fastforce
  from 3(5) l obtain s1 es1 where s1: "PaxosResponse unmarshal dial poll s cmd = Some (s1, es1)" "awaited s cmd"
    "run (replica_at unmarshal) s1 es = Some s'" by (auto simp: FromLog_step split: option.splits)
  from 3(3,4) l obtain dial' ds where ds: "taken_on fs = (cmd, dial') # ds" "map fst (taken_on es) = map fst ds"
    "reached_alike unmarshal (cmd, dial) (cmd, dial')" "list_all2 (reached_alike unmarshal) (taken_on es) ds"
    by (cases "taken_on fs") auto
  from taken_split [OF ds(1)] obtain subs poll' rest where
    fs: "fs = subs @ ((dial', poll'), FromLog cmd) # rest" "taken_on subs = []" "taken_on rest = ds" by blast
  from 3(6) fs(1) obtain t1 where t1: "run (replica_at unmarshal) t subs = Some t1"
    "run (replica_at unmarshal) t1 (((dial', poll'), FromLog cmd) # rest) = Some t'"
    by (auto simp: run_append split: option.splits)
  then obtain t2 es2 where t2: "PaxosResponse unmarshal dial poll' t1 cmd = Some (t2, es2)" "awaited t1 cmd"
    "run (replica_at unmarshal) t2 rest = Some t'"
    using PaxosResponse_dial [OF ds(3)] by (auto simp: FromLog_step split: option.splits)
  have "same_store s t1" using 3(2) submits_same [OF t1(1) fs(2)] same_store_sym by blast
  from PaxosResponse_same [OF s1(1,2) t2(1,2) this] have "same_store s1 t2" .
  from "3.IH" [OF this, of rest] ds(2,4) fs(3) s1(3) t2(3) show ?case by simp
qed

subsection \<open>Properties\<close>

text \<open>A flight is created through node a; every packet arrives in the order it was sent.\<close>

definition create_command :: string where
  "create_command = ''0@a@CF@json''"

definition create_run :: "net_event list" where
  "create_run = Propose ''a'' create_command # replicate 34 (Deliver 0)"

definition read_json :: unmarshaller where
  "read_json op json = PutArgs ''U-1'' (flight ''U-1'' 3)"

lemma create_run_result:
  "map_option (\<lambda>s. (map (delivered s) [''a'', ''b''],
      map (\<lambda>d. map_option (\<lambda>lp. getHistory (lp_l lp)) (procs s d)) [''a'', ''b'']))
     (run net_step (init_net trio 2) create_run) =
   Some (replicate 2 [create_command], replicate 2 (Some [(1, ''1$$0$$'' @ create_command)]))"
  by code_simp

text \<open>C6: The replicas of an airline stay the same, under one condition on their networks. Two
  replicas run on nodes of one Paxos cluster, over whatever happens to the packets between the
  nodes; each has its own network to the transaction managers, which may change from event to
  event. If the nodes committed no different values, both replicas have taken the same number of
  commands from their nodes, and for every command taken that opens a transaction either both
  replicas could dial its transaction manager when they took it or none could, then they have the
  same flights, locks, logs and decisions. (Without the condition on dialling they can differ:
  \<open>replicas_diverge\<close> in theory Airline_Properties.)\<close>

theorem replicated_airline:
  assumes "cluster_ok reps q" and "run net_step (init_net reps q) es = Some s"
    and "procs s d = Some lp" and "procs s e = Some lp'"
    and "\<forall>i v w. learnt (lp_l lp) i = Some v \<longrightarrow> learnt (lp_l lp') i = Some w \<longrightarrow> v = w"
    and "run (replica_at unmarshal) (NewAirlineServer aid d) evs = Some a"
    and "run (replica_at unmarshal) (NewAirlineServer aid e) evs' = Some b"
    and "prefix (map fst (taken_on evs)) (delivered s d)" and "prefix (map fst (taken_on evs')) (delivered s e)"
    and "list_all2 (reached_alike unmarshal) (taken_on evs) (taken_on evs')"
  shows "same_store a b"
proof -
  note inv = reachable_inv [OF assms(1,2)]
  note n = net_inv_node(1) [OF inv assms(3)] net_inv_node(1) [OF inv assms(4)]
  have "prefix (delivered s d) (delivered s e) \<or> prefix (delivered s e) (delivered s d)"
    using node_inv_prefix [OF n assms(5)] node_inv_prefix [OF n(2,1)] assms(5) linear by metis
  then obtain xs where "prefix (map fst (taken_on evs)) xs" "prefix (map fst (taken_on evs')) xs"
    using assms(8,9) prefix_order.trans by blast
  moreover have "length (taken_on evs) = length (taken_on evs')"
    by (rule list_all2_lengthD [OF assms(10)])
  ultimately have "map fst (taken_on evs) = map fst (taken_on evs')" by (auto simp: prefix_def)
  moreover have "same_store (NewAirlineServer aid d) (NewAirlineServer aid e)"
    by (simp add: same_store_def NewAirlineServer_def)
  ultimately show ?thesis using replica_run_same assms(6,7,10) by blast
qed

text \<open>Replica a can dial nobody when it takes the command, replica b everybody: a creation dials nobody.\<close>

definition creator :: "(link \<times> replica_event) list" where
  "creator =
     [((\<lambda>_. True, \<lambda>_. NoConn), Submit (CreateFlight (\<lambda>_. ''json'') (NewAirlineServer ''U'' ''a'') ''U-1'' (flight ''U-1'' 3) 7)),
      ((\<lambda>_. False, \<lambda>_. NoConn), FromLog create_command)]"

definition follower :: "(link \<times> replica_event) list" where
  "follower = [((\<lambda>_. True, \<lambda>_. NoConn), FromLog create_command)]"

theorem replicated_airline_witness:
  "\<exists>a b. run (replica_at read_json) (NewAirlineServer ''U'' ''a'') creator = Some a \<and>
     run (replica_at read_json) (NewAirlineServer ''U'' ''b'') follower = Some b \<and>
     same_store a b \<and> flightBuf b ''U-1'' = Some (flight ''U-1'' 3)"
proof -
  from create_run_result obtain s lp lp' where s: "run net_step (init_net trio 2) create_run = Some s"
    "delivered s ''a'' = [create_command]" "delivered s ''b'' = [create_command]"
    "procs s ''a'' = Some lp" "procs s ''b'' = Some lp'"
    "getHistory (lp_l lp) = getHistory (lp_l lp')"
    by (auto simp: numeral_2_eq_2)
  note inv = reachable_inv [OF cluster_trio s(1)]
  have "lr_ok (lp_l lp)" "lr_ok (lp_l lp')"
    using net_inv_node(1) [OF inv s(4)] net_inv_node(1) [OF inv s(5)] by (simp_all add: node_inv_def)
  then have agree: "\<forall>i v w. learnt (lp_l lp) i = Some v \<longrightarrow> learnt (lp_l lp') i = Some w \<longrightarrow> v = w"
    using s(6) by (simp add: gget_getHistory [symmetric])
  have "map_option (\<lambda>a. flightBuf a ''U-1'') (run (replica_at read_json) (NewAirlineServer ''U'' ''a'') creator) =
      Some (Some (flight ''U-1'' 3))"
    "map_option (\<lambda>a. flightBuf a ''U-1'') (run (replica_at read_json) (NewAirlineServer ''U'' ''b'') follower) =
      Some (Some (flight ''U-1'' 3))" "dials read_json create_command = None"
    by code_simp+
  then obtain a b where r: "run (replica_at read_json) (NewAirlineServer ''U'' ''a'') creator = Some a"
    "run (replica_at read_json) (NewAirlineServer ''U'' ''b'') follower = Some b"
    "flightBuf b ''U-1'' = Some (flight ''U-1'' 3)" "dials read_json create_command = None" by auto
  have "same_store a b"
    by (rule replicated_airline [OF cluster_trio s(1,4,5) agree r(1,2)])
       (simp_all add: creator_def follower_def s(2,3) r(4) reached_alike_def)
  with r show ?thesis by blast
qed

end
