(* ===== verification/Bufi.thy ===== *)
theory Bufi
  imports Prelude
begin

section \<open>The unbounded buffer (official/bufi/bufi.go)\<close>

text \<open>
  A singly linked list with a head and a tail pointer. The elements of one buffer never
  escape it, so each buffer carries its own store: \<open>cells\<close> holds every element the
  buffer ever allocated, an address is an index into it, and \<open>None\<close> is the nil pointer.
  \<open>Insert\<close> returns \<open>None\<close> where the code would dereference a nil tail.
  The interface that the clients rely on is the locale \<open>fifo\<close>; the interpretation at the
  end proves that the pointer program provides it.
  \<open>contrib/storageimpl/bufi.go\<close> is a copy of the same file.
\<close>

subsection \<open>State\<close>

record 'a BufEle =
  val :: 'a
  next_ele :: "nat option"

record 'a Buf =
  cells :: "'a BufEle list"
  head :: "nat option"
  tail :: "nat option"

subsection \<open>Operations\<close>

definition NewBuf :: "'a Buf" where
  "NewBuf = \<lparr>cells = [], head = None, tail = None\<rparr>"

definition buf_Insert :: "'a \<Rightarrow> 'a Buf \<Rightarrow> 'a Buf option" where
  "buf_Insert v bp =
     (let ele = length (cells bp);
          cs = cells bp @ [\<lparr>val = v, next_ele = None\<rparr>] in
      if head bp = None
      then Some (bp\<lparr>cells := cs, head := Some ele, tail := Some ele\<rparr>)
      else (case tail bp of
              None \<Rightarrow> None
            | Some t \<Rightarrow>
                Some (bp\<lparr>cells := cs[t := (cs ! t)\<lparr>next_ele := Some ele\<rparr>], tail := Some ele\<rparr>)))"

definition buf_Front :: "'a Buf \<Rightarrow> 'a option" where
  "buf_Front bp = (case head bp of None \<Rightarrow> None | Some e \<Rightarrow> Some (val (cells bp ! e)))"

definition buf_Remove :: "'a Buf \<Rightarrow> 'a option \<times> 'a Buf" where
  "buf_Remove bp =
     (case head bp of
        None \<Rightarrow> (None, bp)
      | Some e \<Rightarrow>
          (let bp1 = bp\<lparr>head := next_ele (cells bp ! e)\<rparr>;
               bp2 = (if tail bp1 = Some e then bp1\<lparr>tail := None\<rparr> else bp1) in
           (Some (val (cells bp ! e)), bp2)))"

definition buf_Empty :: "'a Buf \<Rightarrow> bool" where
  "buf_Empty bp = (head bp = None)"

definition buf_Flush :: "'a Buf \<Rightarrow> 'a Buf" where
  "buf_Flush bp = bp\<lparr>head := None, tail := None\<rparr>"

subsection \<open>Paths, the invariant and the contents\<close>

fun buf_path :: "'a BufEle list \<Rightarrow> nat option \<Rightarrow> nat list \<Rightarrow> bool" where
  "buf_path cs p [] \<longleftrightarrow> p = None"
| "buf_path cs p (a # as) \<longleftrightarrow> p = Some a \<and> a < length cs \<and> buf_path cs (next_ele (cs ! a)) as"

fun buf_walk :: "nat \<Rightarrow> 'a BufEle list \<Rightarrow> nat option \<Rightarrow> 'a list" where
  "buf_walk 0 cs p = []"
| "buf_walk (Suc n) cs None = []"
| "buf_walk (Suc n) cs (Some a) = val (cs ! a) # buf_walk n cs (next_ele (cs ! a))"

definition buf_at :: "'a Buf \<Rightarrow> nat list \<Rightarrow> bool" where
  "buf_at bp ps \<longleftrightarrow> buf_path (cells bp) (head bp) ps \<and> distinct ps \<and>
     tail bp = (if ps = [] then None else Some (last ps))"

definition buf_ok :: "'a Buf \<Rightarrow> bool" where
  "buf_ok bp \<longleftrightarrow> (\<exists>ps. buf_at bp ps)"

definition buf_contents :: "'a Buf \<Rightarrow> 'a list" where
  "buf_contents bp = buf_walk (Suc (length (cells bp))) (cells bp) (head bp)"

lemma buf_path_bound: "buf_path cs p as \<Longrightarrow> a \<in> set as \<Longrightarrow> a < length cs"
  by (induction cs p as rule: buf_path.induct) auto

lemma buf_walk_path:
  "buf_path cs p as \<Longrightarrow> length as < n \<Longrightarrow> buf_walk n cs p = map (\<lambda>a. val (cs ! a)) as"
proof (induction as arbitrary: n p)
  case Nil
  then show ?case by (cases n) auto
next
  case (Cons a as)
  then show ?case by (cases n) auto
qed

lemma buf_path_append:
  "buf_path cs p as \<Longrightarrow> buf_path (cs @ cs') p as"
  by (induction cs p as rule: buf_path.induct) (auto simp: nth_append)

lemma buf_path_link:
  "buf_path cs p (as @ [t]) \<Longrightarrow> distinct (as @ [t]) \<Longrightarrow> n < length cs \<Longrightarrow> n \<notin> set (as @ [t]) \<Longrightarrow>
     next_ele (cs ! n) = None \<Longrightarrow>
     buf_path (cs[t := (cs ! t)\<lparr>next_ele := Some n\<rparr>]) p (as @ [t, n])"
  by (induction as arbitrary: p) auto

lemma val_link [simp]: "val (cs[t := (cs ! t)\<lparr>next_ele := p\<rparr>] ! a) = val (cs ! a)"
  by (cases "t < length cs"; cases "a = t") (auto simp: list_update_beyond)

lemma buf_at_contents: "buf_at bp ps \<Longrightarrow> buf_contents bp = map (\<lambda>a. val (cells bp ! a)) ps"
proof -
  assume at: "buf_at bp ps"
  then have "set ps \<subseteq> {..< length (cells bp)}"
    by (auto simp: buf_at_def dest: buf_path_bound)
  then have "card (set ps) \<le> length (cells bp)"
    by (metis card_lessThan card_mono finite_lessThan)
  with at show ?thesis
    by (simp add: buf_at_def buf_contents_def buf_walk_path distinct_card)
qed

lemma buf_at_Insert:
  assumes at: "buf_at bp ps"
  obtains bp' where "buf_Insert v bp = Some bp'"
    "buf_at bp' (ps @ [length (cells bp)])" "buf_contents bp' = buf_contents bp @ [v]"
proof -
  let ?n = "length (cells bp)"
  let ?c = "cells bp @ [\<lparr>val = v, next_ele = None\<rparr>]"
  from at have path: "buf_path (cells bp) (head bp) ps" and d: "distinct ps"
    and tl: "tail bp = (if ps = [] then None else Some (last ps))"
    by (auto simp: buf_at_def)
  from path have lt: "\<And>a. a \<in> set ps \<Longrightarrow> a < ?n"
    by (auto dest: buf_path_bound)
  then have fresh: "?n \<notin> set ps" by blast
  have old: "buf_contents bp = map (\<lambda>a. val (cells bp ! a)) ps"
    using at by (rule buf_at_contents)
  show thesis
  proof (cases ps rule: rev_cases)
    case Nil
    let ?b = "bp\<lparr>cells := ?c, head := Some ?n, tail := Some ?n\<rparr>"
    have at': "buf_at ?b [?n]" by (simp add: buf_at_def)
    with Nil path old show thesis
      by (intro that [of ?b]) (auto simp: buf_Insert_def Let_def buf_at_contents)
  next
    case (snoc as t)
    let ?b = "bp\<lparr>cells := ?c[t := (?c ! t)\<lparr>next_ele := Some ?n\<rparr>], tail := Some ?n\<rparr>"
    have h: "head bp \<noteq> None" using path snoc by (cases as) auto
    have "buf_path ?c (head bp) (as @ [t])"
      using path snoc by (simp add: buf_path_append)
    then have p': "buf_path (cells ?b) (head ?b) (as @ [t, ?n])"
      using d snoc fresh by (auto intro!: buf_path_link)
    then have at': "buf_at ?b (ps @ [?n])"
      using d snoc fresh by (auto simp: buf_at_def)
    have "buf_contents ?b = map (\<lambda>a. val (cells ?b ! a)) (ps @ [?n])"
      using at' by (rule buf_at_contents)
    also have "\<dots> = map (\<lambda>a. val (?c ! a)) (ps @ [?n])"
      by simp
    also have "\<dots> = buf_contents bp @ [v]"
      using lt by (auto simp: old nth_append)
    finally show thesis
      using at' h tl snoc
      by (intro that [of ?b]) (auto simp: buf_Insert_def Let_def)
  qed
qed

lemma buf_at_Remove:
  "buf_at bp (a # as) \<Longrightarrow>
     fst (buf_Remove bp) = Some (val (cells bp ! a)) \<and> buf_at (snd (buf_Remove bp)) as \<and>
     cells (snd (buf_Remove bp)) = cells bp"
  by (cases as rule: rev_cases) (auto simp: buf_at_def buf_Remove_def Let_def split: if_splits)

subsection \<open>The interface\<close>

text \<open>
  What the clients use: insert at the end, look at and take the oldest element, test for
  emptiness. \<open>fifo_drain\<close> is the loop \<open>for !b.Empty() { x := b.Remove(); ... }\<close> of the
  clients, with the number of rounds bounded by its first argument (\<open>None\<close>: the bound was
  too small); the locale proves which bound is enough and what the loop visits.
\<close>

fun fifo_drain :: "('q \<Rightarrow> bool) \<Rightarrow> ('q \<Rightarrow> 'a option \<times> 'q) \<Rightarrow> nat \<Rightarrow> 'q \<Rightarrow> ('a option list \<times> 'q) option" where
  "fifo_drain is_empty remove 0 q = None"
| "fifo_drain is_empty remove (Suc n) q =
     (if is_empty q then Some ([], q)
      else (case remove q of (x, q') \<Rightarrow>
              map_option (\<lambda>(xs, q''). (x # xs, q'')) (fifo_drain is_empty remove n q')))"

fun fifo_insert_all :: "('a \<Rightarrow> 'q \<Rightarrow> 'q option) \<Rightarrow> 'a list \<Rightarrow> 'q \<Rightarrow> 'q option" where
  "fifo_insert_all enq [] q = Some q"
| "fifo_insert_all enq (x # xs) q =
     (case enq x q of None \<Rightarrow> None | Some q' \<Rightarrow> fifo_insert_all enq xs q')"

locale fifo =
  fixes new :: "'q"
    and enq :: "'a \<Rightarrow> 'q \<Rightarrow> 'q option"
    and front :: "'q \<Rightarrow> 'a option"
    and remove :: "'q \<Rightarrow> 'a option \<times> 'q"
    and is_empty :: "'q \<Rightarrow> bool"
    and flush :: "'q \<Rightarrow> 'q"
    and contents :: "'q \<Rightarrow> 'a list"
    and ok :: "'q \<Rightarrow> bool"
  assumes new_ok: "ok new" and new_contents: "contents new = []"
    and insert_ok: "ok q \<Longrightarrow> \<exists>q'. enq x q = Some q' \<and> ok q' \<and> contents q' = contents q @ [x]"
    and front_hd: "ok q \<Longrightarrow> front q = (case contents q of [] \<Rightarrow> None | x # xs \<Rightarrow> Some x)"
    and remove_hd: "ok q \<Longrightarrow> fst (remove q) = (case contents q of [] \<Rightarrow> None | x # xs \<Rightarrow> Some x)"
    and remove_ok: "ok q \<Longrightarrow> ok (snd (remove q)) \<and> contents (snd (remove q)) = tl (contents q)"
    and empty_iff: "ok q \<Longrightarrow> is_empty q \<longleftrightarrow> contents q = []"
    and flush_ok: "ok q \<Longrightarrow> ok (flush q) \<and> contents (flush q) = []"
begin

lemma insert_all_contents:
  "ok q \<Longrightarrow> \<exists>q'. fifo_insert_all enq xs q = Some q' \<and> ok q' \<and> contents q' = contents q @ xs"
proof (induction xs arbitrary: q)
  case Nil
  then show ?case by simp
next
  case (Cons x xs)
  obtain q' where q': "enq x q = Some q'" "ok q'" "contents q' = contents q @ [x]"
    using insert_ok [OF Cons.prems] by blast
  with Cons.IH [OF q'(2)] show ?case by auto
qed

lemma drain_contents:
  "ok q \<Longrightarrow> length (contents q) < n \<Longrightarrow>
     \<exists>q'. fifo_drain is_empty remove n q = Some (map Some (contents q), q') \<and> ok q' \<and> is_empty q'"
proof (induction n arbitrary: q)
  case 0
  then show ?case by simp
next
  case (Suc n)
  show ?case
  proof (cases "contents q")
    case Nil
    with Suc.prems show ?thesis by (simp add: empty_iff)
  next
    case (Cons x xs)
    obtain y q1 where rm: "remove q = (y, q1)" by fastforce
    with Cons Suc.prems remove_hd [of q] remove_ok [of q]
    have y: "y = Some x" and q1: "ok q1" "contents q1 = xs" by auto
    with Suc.IH [of q1] Suc.prems Cons rm show ?thesis by (auto simp: empty_iff)
  qed
qed

lemma insert_all_drain:
  "\<exists>q q'. fifo_insert_all enq xs new = Some q \<and>
     fifo_drain is_empty remove (Suc (length xs)) q = Some (map Some xs, q') \<and> is_empty q'"
proof -
  obtain q where "fifo_insert_all enq xs new = Some q" "ok q" "contents q = xs"
    using insert_all_contents [OF new_ok, of xs] by (auto simp: new_contents)
  with drain_contents [of q "Suc (length xs)"] show ?thesis by auto
qed

end

interpretation buf: fifo NewBuf buf_Insert buf_Front buf_Remove buf_Empty buf_Flush
  buf_contents buf_ok
proof (unfold_locales, goal_cases)
  case 1
  show ?case by (auto simp: buf_ok_def buf_at_def NewBuf_def intro: exI [of _ "[]"])
next
  case 2
  show ?case by (simp add: buf_contents_def NewBuf_def)
next
  case (3 q x)
  then show ?case by (metis buf_ok_def buf_at_Insert)
next
  case (4 q)
  then obtain ps where "buf_at q ps" by (auto simp: buf_ok_def)
  then show ?case
    by (cases ps) (auto simp: buf_at_contents, auto simp: buf_at_def buf_Front_def)
next
  case (5 q)
  then obtain ps where at: "buf_at q ps" by (auto simp: buf_ok_def)
  then show ?case
    by (cases ps) (auto simp: buf_at_contents buf_at_Remove,
        auto simp: buf_at_def buf_Remove_def)
next
  case (6 q)
  then obtain ps where at: "buf_at q ps" by (auto simp: buf_ok_def)
  show ?case
  proof (cases ps)
    case Nil
    with at have "buf_Remove q = (None, q)" by (simp add: buf_at_def buf_Remove_def)
    with Nil at 6 show ?thesis by (simp add: buf_at_contents)
  next
    case (Cons a as)
    with at buf_at_Remove [of q a as] have "buf_at (snd (buf_Remove q)) as"
      "cells (snd (buf_Remove q)) = cells q" by auto
    with Cons at show ?thesis by (auto simp: buf_ok_def buf_at_contents)
  qed
next
  case (7 q)
  then obtain ps where at: "buf_at q ps" by (auto simp: buf_ok_def)
  then show ?case
    by (cases ps) (auto simp: buf_at_contents, auto simp: buf_at_def buf_Empty_def)
next
  case (8 q)
  have "buf_at (buf_Flush q) []" by (simp add: buf_at_def buf_Flush_def)
  then show ?case by (auto simp: buf_ok_def buf_at_contents)
qed

lemma buf_contents_bound: "buf_ok b \<Longrightarrow> length (buf_contents b) < Suc (length (cells b))"
proof -
  assume "buf_ok b"
  then obtain ps where at: "buf_at b ps" by (auto simp: buf_ok_def)
  then have "set ps \<subseteq> {..< length (cells b)}" "distinct ps"
    by (auto simp: buf_at_def dest: buf_path_bound)
  then have "length ps \<le> length (cells b)" by (metis card_lessThan card_mono distinct_card finite_lessThan)
  with buf_at_contents [OF at] show ?thesis by simp
qed


subsection \<open>Properties\<close>

text \<open>The linked buffer of packets is a first-in first-out queue: what is inserted into a
  new buffer is removed in the same order, and then the buffer is empty.\<close>

theorem buf_fifo:
  "\<exists>q q'. fifo_insert_all buf_Insert xs NewBuf = Some q \<and>
     fifo_drain buf_Empty buf_Remove (Suc (length xs)) q = Some (map Some xs, q') \<and> buf_Empty q'"
  by (rule buf.insert_all_drain)

end
