(* ===== verification/Storage_Ring.thy ===== *)
theory Storage_Ring
  imports Go_Strings "HOL-Library.Word"
begin

section \<open>The storage protocol and the ring of nodes (official/storageproto, contrib/libstore, contrib/storageimpl)\<close>

text \<open>
  The messages of the storage servers, and consistent hashing: a key belongs to the node with
  the least identifier not below the hash of the key, or to the node with the least
  identifier (\<open>owns\<close>). Server and client each have their own loops for it; those of the server are
  here, those of the client in theory Libstore. Hashes and identifiers are 32 bit words. An index into the empty list of nodes panics.
\<close>

subsection \<open>Messages\<close>

datatype storage_status = S_OK | EKEYNOTFOUND | EITEMNOTFOUND | EWRONGSERVER | EPUTFAILED | EITEMEXISTS

definition LEASE_SECONDS :: int where "LEASE_SECONDS = 10"
definition LEASE_GUARD_SECONDS :: int where "LEASE_GUARD_SECONDS = 2"
definition QUERY_CACHE_THRESH :: int where "QUERY_CACHE_THRESH = 3"

definition ALL_AIRLINE :: string where "ALL_AIRLINE = ''ALL_AIRLINE''"

record LeaseStruct =
  Granted :: bool
  ValidSeconds :: int

record storage_GetArgs =
  ga_Key :: string
  WantLease :: bool
  LeaseClient :: string

record 'v storage_GetReply =
  sg_Status :: storage_status
  sg_Value :: 'v
  sg_Lease :: LeaseStruct

record Node =
  HostPort :: string
  NodeID :: "32 word"

record RegisterReply =
  Ready :: bool
  Servers :: "Node list"

definition no_lease :: LeaseStruct where
  "no_lease = \<lparr>Granted = False, ValidSeconds = 0\<rparr>"

subsection \<open>The hash of a key\<close>

text \<open>\<open>fnv.New32\<close> of the standard library: FNV-1, multiply and then exclusive or.\<close>

definition fnv_step :: "char \<Rightarrow> 32 word \<Rightarrow> 32 word" where
  "fnv_step c h = Bit_Operations.xor (h * 16777619) (of_char c)"

definition Storehash :: "string \<Rightarrow> 32 word" where
  "Storehash key = fold fnv_step key 2166136261"

subsection \<open>The loops of the server over the nodes\<close>

text \<open>The last node not below the key, if there is one.\<close>

definition ring_last :: "Node list \<Rightarrow> 32 word \<Rightarrow> nat \<times> bool" where
  "ring_last nodes keyid =
     fold (\<lambda>i (cur, large). if keyid \<le> NodeID (nodes ! i) then (i, True) else (cur, large))
       [0..<length nodes] (0, False)"

definition ring_least_above :: "Node list \<Rightarrow> 32 word \<Rightarrow> nat \<Rightarrow> nat" where
  "ring_least_above nodes keyid cur =
     fold (\<lambda>i cur. if keyid \<le> NodeID (nodes ! i) \<and> NodeID (nodes ! i) < NodeID (nodes ! cur) then i else cur)
       [0..<length nodes] cur"

definition ring_least :: "Node list \<Rightarrow> nat \<Rightarrow> nat" where
  "ring_least nodes cur =
     fold (\<lambda>i cur. if NodeID (nodes ! i) < NodeID (nodes ! cur) then i else cur) [0..<length nodes] cur"

definition ring_machine :: "Node list \<Rightarrow> 32 word \<Rightarrow> nat" where
  "ring_machine nodes keyid =
     (case ring_last nodes keyid of (cur, large) \<Rightarrow>
        if large then ring_least_above nodes keyid cur else ring_least nodes cur)"

definition key_hash :: "string \<Rightarrow> 32 word" where
  "key_hash key = Storehash (hd (strings_Split key '':''))"

subsection \<open>What the loops find\<close>

text \<open>The owner of a hash.\<close>

definition owns :: "Node list \<Rightarrow> 32 word \<Rightarrow> nat \<Rightarrow> bool" where
  "owns nodes h i \<longleftrightarrow> i < length nodes \<and>
     (if \<exists>n \<in> set nodes. h \<le> NodeID n
      then h \<le> NodeID (nodes ! i) \<and> (\<forall>n \<in> set nodes. h \<le> NodeID n \<longrightarrow> NodeID (nodes ! i) \<le> NodeID n)
      else \<forall>n \<in> set nodes. NodeID (nodes ! i) \<le> NodeID n)"

lemma ring_last_result:
  "(case ring_last nodes h of (cur, large) \<Rightarrow>
      (nodes \<noteq> [] \<longrightarrow> cur < length nodes) \<and> (large \<longleftrightarrow> (\<exists>n \<in> set nodes. h \<le> NodeID n)) \<and>
      (large \<longrightarrow> h \<le> NodeID (nodes ! cur)))"
proof -
  have "(case fold (\<lambda>i (cur, large). if h \<le> NodeID (nodes ! i) then (i, True) else (cur, large)) [0..<m] (0, False) of
      (cur, large) \<Rightarrow> (nodes \<noteq> [] \<longrightarrow> cur < length nodes) \<and>
        (large \<longleftrightarrow> (\<exists>j < m. h \<le> NodeID (nodes ! j))) \<and> (large \<longrightarrow> h \<le> NodeID (nodes ! cur)))"
    if "m \<le> length nodes" for m
    using that by (induction m) (auto simp: less_Suc_eq split: prod.splits if_splits)
  from this [of "length nodes"] show ?thesis by (simp add: ring_last_def set_conv_nth) (auto split: prod.splits)
qed

lemma ring_least_above_result:
  assumes "cur < length nodes" and "h \<le> NodeID (nodes ! cur)"
  shows "ring_least_above nodes h cur < length nodes \<and> h \<le> NodeID (nodes ! ring_least_above nodes h cur) \<and>
    (\<forall>n \<in> set nodes. h \<le> NodeID n \<longrightarrow> NodeID (nodes ! ring_least_above nodes h cur) \<le> NodeID n)"
proof -
  let ?f = "\<lambda>i c. if h \<le> NodeID (nodes ! i) \<and> NodeID (nodes ! i) < NodeID (nodes ! c) then i else c"
  have "fold ?f [0..<m] cur < length nodes \<and> h \<le> NodeID (nodes ! fold ?f [0..<m] cur) \<and>
      (\<forall>j < m. h \<le> NodeID (nodes ! j) \<longrightarrow> NodeID (nodes ! fold ?f [0..<m] cur) \<le> NodeID (nodes ! j))"
    if "m \<le> length nodes" for m
    using that assms
  proof (induction m)
    case (Suc m)
    let ?c = "fold ?f [0..<m] cur"
    from Suc have IH: "?c < length nodes" "h \<le> NodeID (nodes ! ?c)"
      "\<And>j. j < m \<Longrightarrow> h \<le> NodeID (nodes ! j) \<Longrightarrow> NodeID (nodes ! ?c) \<le> NodeID (nodes ! j)" by auto
    have f: "fold ?f [0..<Suc m] cur = ?f m ?c" by simp
    show ?case unfolding f
      using IH Suc.prems(1) by (auto simp: less_Suc_eq not_less dest: less_imp_le order_trans)
  qed simp
  from this [of "length nodes"] show ?thesis by (auto simp: ring_least_above_def set_conv_nth)
qed

lemma ring_least_result:
  assumes "cur < length nodes"
  shows "ring_least nodes cur < length nodes \<and> (\<forall>n \<in> set nodes. NodeID (nodes ! ring_least nodes cur) \<le> NodeID n)"
proof -
  let ?f = "\<lambda>i c. if NodeID (nodes ! i) < NodeID (nodes ! c) then i else c"
  have "fold ?f [0..<m] cur < length nodes \<and>
      (\<forall>j < m. NodeID (nodes ! fold ?f [0..<m] cur) \<le> NodeID (nodes ! j))"
    if "m \<le> length nodes" for m
    using that assms
  proof (induction m)
    case (Suc m)
    let ?c = "fold ?f [0..<m] cur"
    from Suc have IH: "?c < length nodes" "\<And>j. j < m \<Longrightarrow> NodeID (nodes ! ?c) \<le> NodeID (nodes ! j)" by auto
    have f: "fold ?f [0..<Suc m] cur = ?f m ?c" by simp
    show ?case unfolding f
      using IH Suc.prems(1) by (auto simp: less_Suc_eq not_less dest: less_imp_le order_trans)
  qed simp
  from this [of "length nodes"] show ?thesis by (auto simp: ring_least_def set_conv_nth)
qed

lemma ring_machine_owns:
  assumes "nodes \<noteq> []"
  shows "owns nodes h (ring_machine nodes h)"
proof -
  obtain cur large where l: "ring_last nodes h = (cur, large)" by fastforce
  with ring_last_result [of nodes h] assms have c: "cur < length nodes"
    "large \<longleftrightarrow> (\<exists>n \<in> set nodes. h \<le> NodeID n)" "large \<longrightarrow> h \<le> NodeID (nodes ! cur)" by simp_all
  show ?thesis
    using ring_least_above_result [of cur nodes h] ring_least_result [of cur nodes] c
    by (auto simp: ring_machine_def l owns_def)
qed

text \<open>With distinct identifiers the owner is unique.\<close>

lemma owns_unique:
  assumes "distinct (map NodeID nodes)" and "owns nodes h i" and "owns nodes h j"
  shows "i = j"
proof -
  have b: "i < length nodes" "j < length nodes" using assms by (auto simp: owns_def)
  have "NodeID (nodes ! i) = NodeID (nodes ! j)"
    using assms(2,3) nth_mem [OF b(1)] nth_mem [OF b(2)]
    by (intro order_antisym) (auto simp: owns_def split: if_splits)
  then show ?thesis using assms(1) b by (simp add: distinct_conv_nth) blast
qed

end
