(* ===== verification/Tran_Layer.thy ===== *)
theory Tran_Layer
  imports Protos
begin

section \<open>The transaction manager (contrib/tranlayer/tranlayer.go, coordinator.go)\<close>

text \<open>
  The manager of the two-phase commits an agency starts. \<open>requestHandler\<close> is the goroutine
  that owns the state: while orders wait to be sent it sends one (\<open>send_order\<close>), otherwise it
  serves a request (\<open>transactionHandler\<close>). A remote call to an airline is an effect; a
  connection is the address it was opened to. The channel a booking waits on has exactly one
  receiver, which takes one value: \<open>answered\<close> records the channels whose receiver is gone,
  and a further send on one of them, or on the nil channel, blocks for ever. \<open>None\<close> is a
  handler that blocks for ever or panics.

  The lemmas show that votes are counted once per participant, that the decision is commit
  exactly when every participant voted commit, and that a decision is taken once.
\<close>

subsection \<open>State\<close>

record activeTransMapEle =
  at_decision :: int
  at_finished :: int
  at_pptMap :: "string \<rightharpoonup> string"
  at_commitGrp :: "(string, int) gomap"

record tranOrder =
  to_flightID :: string
  to_pptID :: string
  to_amount :: int
  to_conn :: string

record OldTransaction =
  ot_orderList :: "tranOrder list"
  ot_pptList :: "string list"

record TranLayer =
  tl_myhostport :: string
  activeTransMap :: "string \<rightharpoonup> activeTransMapEle"
  deferTransMap :: "string \<rightharpoonup> nat"
  oldTransactionMap :: "(string, OldTransaction) gomap"
  tl_oldLog :: "string \<rightharpoonup> int"
  answered :: "nat set"

datatype tl_value = OrdersV "tranOrder list" | ArgsV TranArgs | NilV

datatype tl_type = TL_INIT_TRANS | TL_TRANS_RESPONSE | TL_TRANS_EXPIRED | TL_TRANS_OLD

record tl_request =
  tr_type :: tl_type
  tr_key :: string
  tr_value :: tl_value
  tr_replyc :: "nat option"

abbreviation mk_tl_request :: "tl_type \<Rightarrow> string \<Rightarrow> tl_value \<Rightarrow> nat option \<Rightarrow> tl_request" where
  "mk_tl_request t k v c \<equiv> \<lparr>tr_type = t, tr_key = k, tr_value = v, tr_replyc = c\<rparr>"

datatype tl_effect = CallAirline string TranArgs | ReplyBool nat bool | ReplyInt nat int | TL_Timer string

definition NewTranLayer :: "string \<Rightarrow> TranLayer" where
  "NewTranLayer host =
     \<lparr>tl_myhostport = host, activeTransMap = Map.empty, deferTransMap = Map.empty,
      oldTransactionMap = [], tl_oldLog = Map.empty, answered = {}\<rparr>"

subsection \<open>Starting a booking\<close>

text \<open>
  \<open>locate\<close> is \<open>GetServerWithAddress\<close>, \<open>tranID\<close> the host and the clock; the result is the
  request put on the channel, or None when an airline cannot be found.
\<close>

fun tran_orders :: "(string \<Rightarrow> (string \<times> string) option) \<Rightarrow> Order list \<Rightarrow> tranOrder list option" where
  "tran_orders locate [] = Some []"
| "tran_orders locate (order # orders) =
     (case locate (o_AirlineID order) of
        None \<Rightarrow> None
      | Some (conn, pptID) \<Rightarrow>
          map_option ((#) \<lparr>to_flightID = o_FlightID order, to_pptID = pptID,
            to_amount = o_Amount order, to_conn = conn\<rparr>) (tran_orders locate orders))"

definition BookingFlights ::
  "(string \<Rightarrow> (string \<times> string) option) \<Rightarrow> string \<Rightarrow> Order list \<Rightarrow> nat \<Rightarrow> tl_request option" where
  "BookingFlights locate tranID orderList c =
     map_option (\<lambda>os. mk_tl_request TL_INIT_TRANS tranID (OrdersV os) (Some c)) (tran_orders locate orderList)"

subsection \<open>The remote call of the participants\<close>

text \<open>
  \<open>TransResponse\<close> queues a request; the status of its reply is set to the decision for
  \<open>TRANS_OLD\<close>, and then to \<open>OK\<close> in every case. Other types dereference a nil request.
\<close>

definition TransResponse_request :: "TranArgs \<Rightarrow> nat \<Rightarrow> tl_request option" where
  "TransResponse_request args c =
     (case ta_TranType args of
        TRANS_RESPONSE \<Rightarrow> Some (mk_tl_request TL_TRANS_RESPONSE '''' (ArgsV args) None)
      | TRANS_OLD \<Rightarrow> Some (mk_tl_request TL_TRANS_OLD '''' (ArgsV args) (Some c))
      | _ \<Rightarrow> None)"

definition TransResponse_status :: "TranArgs \<Rightarrow> int \<Rightarrow> int" where
  "TransResponse_status args decision =
     (let status1 = (case ta_TranType args of
                       TRANS_RESPONSE \<Rightarrow> airlineproto_OK | TRANS_OLD \<Rightarrow> decision | _ \<Rightarrow> 0);
          status2 = airlineproto_OK in status2)"

subsection \<open>Sending the orders\<close>

definition send_order :: "TranLayer \<Rightarrow> (TranLayer \<times> tl_effect list) option" where
  "send_order ly =
     (case oldTransactionMap ly of
        [] \<Rightarrow> Some (ly, [])
      | (transID, oldTransaction) # rest \<Rightarrow>
          (case ot_orderList oldTransaction of
             [] \<Rightarrow> None
           | order # orders \<Rightarrow>
               (let call = CallAirline (to_conn order)
                      \<lparr>ta_TranType = TRANS_INIT, ta_TranID = transID, ta_FlightID = to_flightID order,
                       ta_Amount = to_amount order, ta_PptList = ot_pptList oldTransaction,
                       ta_Vote = 0, ta_TM = tl_myhostport ly\<rparr> in
                if orders = []
                then Some (ly\<lparr>oldTransactionMap := gdel transID (oldTransactionMap ly)\<rparr>,
                           [call, TL_Timer transID])
                else Some (ly\<lparr>oldTransactionMap :=
                       gput transID (oldTransaction\<lparr>ot_orderList := orders\<rparr>) (oldTransactionMap ly)\<rparr>,
                           [call]))))"

subsection \<open>The coordinator\<close>

definition tl_initTrans :: "TranLayer \<Rightarrow> tl_request \<Rightarrow> (TranLayer \<times> tl_effect list) option" where
  "tl_initTrans ly request =
     (case (tr_value request, tr_replyc request) of
        (OrdersV orders, Some c) \<Rightarrow>
          (let transID = tr_key request;
               old = \<lparr>ot_orderList = orders, ot_pptList = map to_pptID orders\<rparr>;
               active = \<lparr>at_decision = NOT_DECIDED, at_finished = 0,
                 at_pptMap = fold (\<lambda>order m. m(to_pptID order \<mapsto> to_conn order)) orders Map.empty,
                 at_commitGrp = fold (\<lambda>order g. gput (to_pptID order) NOT_DECIDED g) orders []\<rparr> in
           Some (ly\<lparr>oldTransactionMap := gput transID old (oldTransactionMap ly),
                    activeTransMap := (activeTransMap ly)(transID \<mapsto> active),
                    deferTransMap := (deferTransMap ly)(transID \<mapsto> c)\<rparr>, []))
      | _ \<Rightarrow> None)"

text \<open>The final decision goes to every participant that voted commit.\<close>

definition final_calls :: "TranLayer \<Rightarrow> string \<Rightarrow> activeTransMapEle \<Rightarrow> tl_effect list option" where
  "final_calls ly tranID active =
     those (map (\<lambda>(transKey, vote).
         map_option (\<lambda>conn. CallAirline conn
            \<lparr>ta_TranType = TRANS_RESPONSE, ta_TranID = tranID, ta_FlightID = transKey, ta_Amount = 0,
             ta_PptList = [], ta_Vote = at_decision active, ta_TM = tl_myhostport ly\<rparr>)
          (at_pptMap active transKey))
       (filter (\<lambda>(transKey, vote). vote = T_COMMIT) (at_commitGrp active)))"

text \<open>The answer to the booking; the channel may be nil or have lost its receiver.\<close>

definition answer_booking :: "TranLayer \<Rightarrow> string \<Rightarrow> int \<Rightarrow> (TranLayer \<times> tl_effect list) option" where
  "answer_booking ly tranID decision =
     (case deferTransMap ly tranID of
        None \<Rightarrow> None
      | Some c \<Rightarrow>
          if c \<in> answered ly then None
          else Some (ly\<lparr>answered := insert c (answered ly)\<rparr>, [ReplyBool c (decision = T_COMMIT)]))"

definition tl_responseTrans ::
  "(string \<Rightarrow> bool) \<Rightarrow> TranLayer \<Rightarrow> tl_request \<Rightarrow> (TranLayer \<times> tl_effect list) option" where
  "tl_responseTrans dial ly request =
     (case tr_value request of
        ArgsV args \<Rightarrow>
          (let tranID = ta_TranID args; pptID = ta_TM args; response = ta_Vote args in
           case activeTransMap ly tranID of
             None \<Rightarrow>
               (case tl_oldLog ly tranID of
                  None \<Rightarrow> Some (ly, [])
                | Some oldDecision \<Rightarrow>
                    (let newArgs = \<lparr>ta_TranType = TRANS_RESPONSE, ta_TranID = tranID,
                           ta_FlightID = ta_FlightID args, ta_Amount = 0, ta_PptList = [],
                           ta_Vote = oldDecision, ta_TM = tl_myhostport ly\<rparr> in
                     if dial (ta_TM newArgs) then Some (ly, [CallAirline (ta_TM newArgs) newArgs])
                     else None))
           | Some active \<Rightarrow>
               (case gget (at_commitGrp active) pptID of
                  None \<Rightarrow> Some (ly, [])
                | Some vote \<Rightarrow>
                    if vote \<noteq> NOT_DECIDED then Some (ly, [])
                    else
                      (let active1 = active\<lparr>at_commitGrp := gput pptID response (at_commitGrp active),
                             at_decision := (if at_decision active \<noteq> T_ABORT then response
                                             else at_decision active),
                             at_finished := at_finished active + 1\<rparr> in
                       if at_finished active1 < int (length (at_commitGrp active1))
                       then Some (ly\<lparr>activeTransMap := (activeTransMap ly)(tranID \<mapsto> active1)\<rparr>, [])
                       else
                         (let ly1 = ly\<lparr>activeTransMap := (activeTransMap ly)(tranID := None)\<rparr> in
                          case final_calls ly1 tranID active1 of
                            None \<Rightarrow> None
                          | Some calls \<Rightarrow>
                              (let ly2 = ly1\<lparr>tl_oldLog := (tl_oldLog ly1)(tranID \<mapsto> at_decision active1)\<rparr> in
                               map_option (\<lambda>(ly3, answer). (ly3, calls @ answer))
                                 (answer_booking ly2 tranID (at_decision active1)))))))
      | _ \<Rightarrow> None)"

definition tl_oldTrans :: "TranLayer \<Rightarrow> tl_request \<Rightarrow> (TranLayer \<times> tl_effect list) option" where
  "tl_oldTrans ly request =
     (case (tr_value request, tr_replyc request) of
        (ArgsV args, Some c) \<Rightarrow>
          Some (ly, [ReplyInt c (case tl_oldLog ly (ta_TranID args) of None \<Rightarrow> NOT_DECIDED | Some d \<Rightarrow> d)])
      | _ \<Rightarrow> None)"

definition tl_expireTrans :: "TranLayer \<Rightarrow> tl_request \<Rightarrow> (TranLayer \<times> tl_effect list) option" where
  "tl_expireTrans ly request =
     (let transID = tr_key request in
      case activeTransMap ly transID of
        None \<Rightarrow> Some (ly, [])
      | Some active \<Rightarrow>
          (case final_calls ly transID active of
             None \<Rightarrow> None
           | Some calls \<Rightarrow>
               map_option (\<lambda>(ly1, answer). (ly1, calls @ answer))
                 (answer_booking ly transID (at_decision active))))"

definition tl_transactionHandler ::
  "(string \<Rightarrow> bool) \<Rightarrow> TranLayer \<Rightarrow> tl_request \<Rightarrow> (TranLayer \<times> tl_effect list) option" where
  "tl_transactionHandler dial ly request =
     (case tr_type request of
        TL_INIT_TRANS \<Rightarrow> tl_initTrans ly request
      | TL_TRANS_RESPONSE \<Rightarrow> tl_responseTrans dial ly request
      | TL_TRANS_EXPIRED \<Rightarrow> tl_expireTrans ly request
      | TL_TRANS_OLD \<Rightarrow> tl_oldTrans ly request)"

text \<open>
  One round of \<open>requestHandler\<close>: pending orders first, and only without them a request.
\<close>

definition requestHandler ::
  "(string \<Rightarrow> bool) \<Rightarrow> TranLayer \<Rightarrow> tl_request option \<Rightarrow> (TranLayer \<times> tl_effect list) option" where
  "requestHandler dial ly request =
     (if oldTransactionMap ly \<noteq> [] then send_order ly
      else (case request of None \<Rightarrow> Some (ly, []) | Some r \<Rightarrow> tl_transactionHandler dial ly r))"


subsection \<open>Counting votes\<close>

definition decision_of :: "(string, int) gomap \<Rightarrow> int" where
  "decision_of g =
     (if T_ABORT \<in> snd ` set g then T_ABORT
      else if T_COMMIT \<in> snd ` set g then T_COMMIT else NOT_DECIDED)"

definition voted :: "(string, int) gomap \<Rightarrow> nat" where
  "voted g = length (filter (\<lambda>(k, v). v \<noteq> NOT_DECIDED) g)"

definition active_ok :: "activeTransMapEle \<Rightarrow> bool" where
  "active_ok a \<longleftrightarrow> gmap_ok (at_commitGrp a) \<and> dom (at_pptMap a) = set (gkeys (at_commitGrp a)) \<and>
     snd ` set (at_commitGrp a) \<subseteq> {NOT_DECIDED, T_COMMIT, T_ABORT} \<and>
     at_finished a = int (voted (at_commitGrp a)) \<and> at_decision a = decision_of (at_commitGrp a)"

lemma voted_gput:
  "gmap_ok g \<Longrightarrow> gget g p = Some NOT_DECIDED \<Longrightarrow> v \<noteq> NOT_DECIDED \<Longrightarrow> voted (gput p v g) = Suc (voted g)"
proof (induction g)
  case Nil
  then show ?case by simp
next
  case (Cons x g)
  then show ?case
    by (cases x) (auto simp: voted_def gmap_ok_def split: if_splits)
qed

lemma length_gput_old: "gget g p \<noteq> None \<Longrightarrow> length (gput p v g) = length g"
  by (auto simp: length_gput gget_None_iff)

lemma votes_gput:
  assumes "gmap_ok g" and "gget g p = Some w" and "x \<noteq> w"
  shows "x \<in> snd ` set (gput p v g) \<longleftrightarrow> x = v \<or> x \<in> snd ` set g"
proof -
  have r: "snd ` set h = ran (gget h)" if "gmap_ok h" for h :: "('a, 'b) gomap"
    using that by (simp add: gmap_ok_def ran_distinct)
  have "ran ((gget g)(p \<mapsto> v)) - {w} \<subseteq> insert v (ran (gget g))"
    by (auto simp: ran_def split: if_splits)
  moreover have "insert v (ran (gget g) - {w}) \<subseteq> ran ((gget g)(p \<mapsto> v))"
    using assms(2) by (force simp: ran_def)
  moreover have "snd ` set (gput p v g) = ran ((gget g)(p \<mapsto> v))"
    using assms(1) by (simp only: r gmap_ok_gput update_conv')
  moreover have "snd ` set g = ran (gget g)" using assms(1) by (rule r)
  ultimately show ?thesis using assms(3) by blast
qed

lemma decision_of_vote:
  assumes "gmap_ok g" and "gget g p = Some NOT_DECIDED" and "v = T_COMMIT \<or> v = T_ABORT"
  shows "decision_of (gput p v g) = (if decision_of g \<noteq> T_ABORT then v else T_ABORT)"
  using assms by (auto simp: decision_of_def votes_gput)

lemma voted_all: "voted g = length g \<Longrightarrow> NOT_DECIDED \<notin> snd ` set g"
proof
  assume "voted g = length g" "NOT_DECIDED \<in> snd ` set g"
  moreover from this(2) obtain k where "(k, NOT_DECIDED) \<in> set g" by auto
  ultimately show False
    using length_filter_less [of "(k, NOT_DECIDED)" g "\<lambda>(k, v). v \<noteq> NOT_DECIDED"] by (simp add: voted_def)
qed


text \<open>A new booking: nobody has voted.\<close>

definition new_group :: "tranOrder list \<Rightarrow> (string, int) gomap" where
  "new_group orders = fold (\<lambda>order g. gput (to_pptID order) NOT_DECIDED g) orders []"

lemma new_group_fold:
  "gmap_ok g \<Longrightarrow> snd ` set g \<subseteq> {NOT_DECIDED} \<Longrightarrow>
     (let h = fold (\<lambda>order g. gput (to_pptID order) NOT_DECIDED g) orders g in
      gmap_ok h \<and> snd ` set h \<subseteq> {NOT_DECIDED} \<and>
      fst ` set h = fst ` set g \<union> to_pptID ` set orders)"
proof (induction orders arbitrary: g)
  case Nil
  then show ?case by simp
next
  case (Cons order orders)
  have "snd ` set (gput (to_pptID order) NOT_DECIDED g) \<subseteq> {NOT_DECIDED}"
    using Cons.prems(2) by (induction g) auto
  with Cons show ?case by (auto simp: Let_def)
qed

lemma new_group_ok:
  "gmap_ok (new_group orders)" "snd ` set (new_group orders) \<subseteq> {NOT_DECIDED}"
  "set (gkeys (new_group orders)) = to_pptID ` set orders"
  using new_group_fold [of "[]" orders] by (simp_all add: new_group_def Let_def)

lemma dom_pptMap:
  "dom (fold (\<lambda>order m. m(to_pptID order \<mapsto> to_conn order)) orders m) = dom m \<union> to_pptID ` set orders"
  by (induction orders arbitrary: m) auto

definition new_active :: "tranOrder list \<Rightarrow> activeTransMapEle" where
  "new_active orders = \<lparr>at_decision = NOT_DECIDED, at_finished = 0,
     at_pptMap = fold (\<lambda>order m. m(to_pptID order \<mapsto> to_conn order)) orders Map.empty,
     at_commitGrp = new_group orders\<rparr>"

lemma active_ok_new: "active_ok (new_active orders)"
proof -
  have "voted (new_group orders) = 0"
    unfolding voted_def using new_group_ok(2) [of orders] by (auto simp: filter_empty_conv)
  moreover have "decision_of (new_group orders) = NOT_DECIDED"
    using new_group_ok(2) [of orders] by (auto simp: decision_of_def)
  ultimately show ?thesis
    using new_group_ok [of orders] by (auto simp: active_ok_def new_active_def dom_pptMap)
qed

text \<open>One vote more.\<close>

definition vote_active :: "activeTransMapEle \<Rightarrow> string \<Rightarrow> int \<Rightarrow> activeTransMapEle" where
  "vote_active a p v =
     a\<lparr>at_commitGrp := gput p v (at_commitGrp a),
       at_decision := (if at_decision a \<noteq> T_ABORT then v else at_decision a),
       at_finished := at_finished a + 1\<rparr>"

lemma snd_gput: "snd ` set (gput k v m) \<subseteq> insert v (snd ` set m)"
  by (induction m) auto

lemma active_ok_vote:
  assumes ok: "active_ok a" and p: "gget (at_commitGrp a) p = Some NOT_DECIDED"
    and v: "v = T_COMMIT \<or> v = T_ABORT"
  shows "active_ok (vote_active a p v)"
proof -
  have g: "gmap_ok (at_commitGrp a)" using ok by (simp add: active_ok_def)
  have v': "v \<noteq> NOT_DECIDED" using v by auto
  have "p \<in> set (gkeys (at_commitGrp a))" using p by (metis gget_None_iff option.distinct(1))
  moreover have "snd ` set (gput p v (at_commitGrp a)) \<subseteq> insert v (snd ` set (at_commitGrp a))"
    by (rule snd_gput)
  ultimately show ?thesis
    using ok v g voted_gput [OF g p v'] decision_of_vote [OF g p v]
    by (auto simp: active_ok_def vote_active_def gkeys_gput)
qed

lemma vote_active_complete:
  assumes ok: "active_ok (vote_active a p v)"
    and "\<not> at_finished (vote_active a p v) < int (length (at_commitGrp (vote_active a p v)))"
  shows "at_decision (vote_active a p v) = T_COMMIT \<longleftrightarrow>
      (\<forall>w \<in> snd ` set (at_commitGrp (vote_active a p v)). w = T_COMMIT)"
    and "at_decision (vote_active a p v) \<in> {T_COMMIT, T_ABORT}"
proof -
  define g where "g = at_commitGrp (vote_active a p v)"
  define V where "V = snd ` set g"
  have "at_finished (vote_active a p v) = int (voted g)" using ok by (simp add: active_ok_def g_def)
  with assms(2) have "length g \<le> voted g" by (simp add: g_def)
  moreover have "voted g \<le> length g" unfolding voted_def by (rule length_filter_le)
  ultimately have nd: "NOT_DECIDED \<notin> V" unfolding V_def by (intro voted_all) simp
  have "g \<noteq> []" by (simp add: vote_active_def g_def)
  then have ne: "V \<noteq> {}" by (simp add: V_def)
  have "V \<subseteq> {NOT_DECIDED, T_COMMIT, T_ABORT}" using ok by (simp add: active_ok_def V_def g_def)
  with nd have sub: "V \<subseteq> {T_COMMIT, T_ABORT}" by blast
  have "at_decision (vote_active a p v) = decision_of g" using ok by (simp add: active_ok_def g_def)
  then have dec: "at_decision (vote_active a p v) =
      (if T_ABORT \<in> V then T_ABORT else if T_COMMIT \<in> V then T_COMMIT else NOT_DECIDED)"
    by (simp add: decision_of_def V_def)
  show "at_decision (vote_active a p v) = T_COMMIT \<longleftrightarrow>
      (\<forall>w \<in> snd ` set (at_commitGrp (vote_active a p v)). w = T_COMMIT)"
    unfolding dec V_def [symmetric] g_def [symmetric]
  proof (cases "T_ABORT \<in> V")
    case True
    then have "\<not> (\<forall>w \<in> V. w = T_COMMIT)" by (metis decisions_distinct(6))
    with True show "((if T_ABORT \<in> V then T_ABORT else if T_COMMIT \<in> V then T_COMMIT else NOT_DECIDED) = T_COMMIT)
        = (\<forall>w \<in> V. w = T_COMMIT)" by simp
  next
    case False
    with ne sub have "V = {T_COMMIT}" by blast
    then show "((if T_ABORT \<in> V then T_ABORT else if T_COMMIT \<in> V then T_COMMIT else NOT_DECIDED) = T_COMMIT)
        = (\<forall>w \<in> V. w = T_COMMIT)" by simp
  qed
  show "at_decision (vote_active a p v) \<in> {T_COMMIT, T_ABORT}"
    unfolding dec using ne sub by (cases "T_ABORT \<in> V") auto
qed


subsection \<open>What a request does\<close>

text \<open>
  A vote reaches a live transaction in one of three ways: it is ignored (an unknown or a
  repeated voter), it is counted, or it is the last one and decides.
\<close>

definition deciding :: "activeTransMapEle \<Rightarrow> bool" where
  "deciding a \<longleftrightarrow> \<not> at_finished a < int (length (at_commitGrp a))"

definition final_call :: "TranLayer \<Rightarrow> string \<Rightarrow> activeTransMapEle \<Rightarrow> string \<Rightarrow> tl_effect" where
  "final_call ly t a h = CallAirline (the (at_pptMap a h))
     \<lparr>ta_TranType = TRANS_RESPONSE, ta_TranID = t, ta_FlightID = h, ta_Amount = 0, ta_PptList = [],
      ta_Vote = at_decision a, ta_TM = tl_myhostport ly\<rparr>"

lemma final_calls_result:
  assumes "active_ok a"
  shows "final_calls ly t a =
    Some (map (\<lambda>(h, v). final_call ly t a h) (filter (\<lambda>(h, v). v = T_COMMIT) (at_commitGrp a)))"
proof -
  let ?f = "\<lambda>(h, v). map_option (\<lambda>conn. CallAirline conn
      \<lparr>ta_TranType = TRANS_RESPONSE, ta_TranID = t, ta_FlightID = h, ta_Amount = 0, ta_PptList = [],
       ta_Vote = at_decision a, ta_TM = tl_myhostport ly\<rparr>) (at_pptMap a h)"
  have those: "those (map g xs) = Some (map h xs)" if "\<And>x. x \<in> set xs \<Longrightarrow> g x = Some (h x)"
    for g :: "'x \<Rightarrow> 'y option" and h xs
    using that by (induction xs) auto
  have "?f x = Some ((\<lambda>(h, v). final_call ly t a h) x)" if "x \<in> set (at_commitGrp a)" for x
  proof -
    obtain h v where x: "x = (h, v)" by fastforce
    with that assms have "h \<in> dom (at_pptMap a)" by (force simp: active_ok_def)
    with x show ?thesis by (auto simp: final_call_def)
  qed
  then show ?thesis unfolding final_calls_def by (intro those) auto
qed

lemma tl_responseTrans_active:
  assumes r: "tr_value r = ArgsV args" and act: "activeTransMap ly (ta_TranID args) = Some a"
  shows "tl_responseTrans dial ly r =
    (let t = ta_TranID args; h = ta_TM args; a1 = vote_active a h (ta_Vote args) in
     if gget (at_commitGrp a) h \<noteq> Some NOT_DECIDED then Some (ly, [])
     else if \<not> deciding a1 then Some (ly\<lparr>activeTransMap := (activeTransMap ly)(t \<mapsto> a1)\<rparr>, [])
     else
       (case final_calls ly t a1 of
          None \<Rightarrow> None
        | Some calls \<Rightarrow>
            map_option (\<lambda>(ly3, answer). (ly3, calls @ answer))
              (answer_booking (ly\<lparr>activeTransMap := (activeTransMap ly)(t := None),
                 tl_oldLog := (tl_oldLog ly)(t \<mapsto> at_decision a1)\<rparr>) t (at_decision a1))))"
proof -
  have fc: "final_calls (ly\<lparr>activeTransMap := m\<rparr>) = final_calls ly" for m
    by (intro ext) (simp add: final_calls_def)
  have va: "a\<lparr>at_commitGrp := gput h v (at_commitGrp a),
      at_decision := (if at_decision a \<noteq> T_ABORT then v else at_decision a),
      at_finished := at_finished a + 1\<rparr> = vote_active a h v" for h v
    by (simp add: vote_active_def)
  show ?thesis
    unfolding tl_responseTrans_def r tl_value.simps Let_def act option.simps va
    by (simp add: fc deciding_def split: option.split)
qed

lemma answer_booking_result:
  "answer_booking ly t d = Some (ly', es) \<Longrightarrow>
     \<exists>c. deferTransMap ly t = Some c \<and> c \<notin> answered ly \<and>
       ly' = ly\<lparr>answered := insert c (answered ly)\<rparr> \<and> es = [ReplyBool c (d = T_COMMIT)]"
  by (auto simp: answer_booking_def split: option.splits if_splits)

text \<open>The invariant: live transactions are well-formed and not yet decided.\<close>

definition tl_inv :: "TranLayer \<Rightarrow> bool" where
  "tl_inv ly \<longleftrightarrow>
     (\<forall>t a. activeTransMap ly t = Some a \<longrightarrow> active_ok a \<and> tl_oldLog ly t = None)"

text \<open>What a request must satisfy: a booking has a new identifier, a vote is commit or abort.\<close>

definition request_fits :: "TranLayer \<Rightarrow> tl_request \<Rightarrow> bool" where
  "request_fits ly r \<longleftrightarrow>
     (tr_type r = TL_INIT_TRANS \<longrightarrow> tl_oldLog ly (tr_key r) = None) \<and>
     (\<forall>args. tr_value r = ArgsV args \<longrightarrow> ta_Vote args = T_COMMIT \<or> ta_Vote args = T_ABORT)"

lemma tl_initTrans_result:
  "tl_initTrans ly r = Some (ly', es) \<Longrightarrow>
     \<exists>orders c. tr_value r = OrdersV orders \<and> tr_replyc r = Some c \<and> es = [] \<and>
       ly' = ly\<lparr>oldTransactionMap := gput (tr_key r)
                  \<lparr>ot_orderList = orders, ot_pptList = map to_pptID orders\<rparr> (oldTransactionMap ly),
               activeTransMap := (activeTransMap ly)(tr_key r \<mapsto> new_active orders),
               deferTransMap := (deferTransMap ly)(tr_key r \<mapsto> c)\<rparr>"
  by (auto simp: tl_initTrans_def new_active_def new_group_def Let_def
      split: tl_value.splits option.splits)

lemma send_order_result:
  "send_order ly = Some (ly', es) \<Longrightarrow>
     \<exists>m. ly' = ly\<lparr>oldTransactionMap := m\<rparr> \<and>
       (\<forall>c args. CallAirline c args \<in> set es \<longrightarrow> ta_TranType args = TRANS_INIT)"
proof -
  assume s: "send_order ly = Some (ly', es)"
  show ?thesis
  proof (cases "oldTransactionMap ly")
    case Nil
    with s have "ly' = ly\<lparr>oldTransactionMap := oldTransactionMap ly\<rparr>" "es = []"
      by (simp_all add: send_order_def)
    then show ?thesis by (intro exI conjI) (assumption, simp)
  next
    case (Cons x rest)
    with s show ?thesis
      by (cases x) (auto simp: send_order_def Let_def split: list.splits if_splits)
  qed
qed

lemma requestHandler_inv:
  assumes h: "requestHandler dial ly req = Some (ly', es)" and inv: "tl_inv ly"
    and fit: "\<And>r. req = Some r \<Longrightarrow> request_fits ly r"
  shows "tl_inv ly'"
proof (cases "oldTransactionMap ly \<noteq> [] \<or> req = None")
  case True
  with h have "ly' = ly \<or> send_order ly = Some (ly', es)"
    by (auto simp: requestHandler_def split: if_splits)
  with send_order_result [of ly ly' es] inv show ?thesis by (auto simp: tl_inv_def)
next
  case False
  then obtain r where r: "req = Some r" by blast
  with False h have st: "tl_transactionHandler dial ly r = Some (ly', es)" by (simp add: requestHandler_def)
  from fit [OF r] have fit': "request_fits ly r" .
  show ?thesis
  proof (cases "tr_type r")
    case TL_INIT_TRANS
    with st have "tl_initTrans ly r = Some (ly', es)" by (simp add: tl_transactionHandler_def)
    from tl_initTrans_result [OF this] fit' TL_INIT_TRANS inv active_ok_new show ?thesis
      by (auto simp: tl_inv_def request_fits_def split: if_splits)
  next
    case TL_TRANS_RESPONSE
    with st have st: "tl_responseTrans dial ly r = Some (ly', es)" by (simp add: tl_transactionHandler_def)
    then obtain args where args: "tr_value r = ArgsV args"
      by (auto simp: tl_responseTrans_def split: tl_value.splits)
    show ?thesis
    proof (cases "activeTransMap ly (ta_TranID args)")
      case None
      with st args have "ly' = ly"
        by (auto simp: tl_responseTrans_def Let_def split: option.splits if_splits)
      with inv show ?thesis by simp
    next
      case (Some a)
      have a: "active_ok a" "tl_oldLog ly (ta_TranID args) = None" using inv Some by (auto simp: tl_inv_def)
      have v: "ta_Vote args = T_COMMIT \<or> ta_Vote args = T_ABORT"
        using fit' args by (simp add: request_fits_def)
      have ok: "gget (at_commitGrp a) (ta_TM args) = Some NOT_DECIDED \<Longrightarrow>
          active_ok (vote_active a (ta_TM args) (ta_Vote args))"
        using active_ok_vote [OF a(1) _ v] .
      from st inv ok a(2) show ?thesis
        unfolding tl_responseTrans_active [OF args Some]
        by (auto simp: Let_def tl_inv_def dest!: answer_booking_result split: if_splits option.splits)
    qed
  next
    case TL_TRANS_EXPIRED
    with st inv show ?thesis
      by (auto simp: tl_transactionHandler_def tl_expireTrans_def tl_inv_def Let_def
          dest!: answer_booking_result split: option.splits)
  next
    case TL_TRANS_OLD
    with st inv show ?thesis
      by (auto simp: tl_transactionHandler_def tl_oldTrans_def split: tl_value.splits option.splits)
  qed
qed


text \<open>The handler, case by case, for what the other parts of the system see.\<close>

fun calls_of :: "tl_effect list \<Rightarrow> (string \<times> TranArgs) list" where
  "calls_of [] = []"
| "calls_of (CallAirline c m # es) = (c, m) # calls_of es"
| "calls_of (_ # es) = calls_of es"

fun answers_of :: "tl_effect list \<Rightarrow> (nat \<times> bool) list" where
  "answers_of [] = []"
| "answers_of (ReplyBool c b # es) = (c, b) # answers_of es"
| "answers_of (_ # es) = answers_of es"

lemma calls_of_append [simp]: "calls_of (es @ fs) = calls_of es @ calls_of fs"
  by (induction es rule: calls_of.induct) auto

lemma answers_of_append [simp]: "answers_of (es @ fs) = answers_of es @ answers_of fs"
  by (induction es rule: answers_of.induct) auto

lemma final_calls_of:
  "(c, m) \<in> set (calls_of (map (\<lambda>(h, v). final_call ly t a h) xs)) \<Longrightarrow>
     ta_TranType m = TRANS_RESPONSE \<and> ta_TranID m = t \<and> ta_Vote m = at_decision a"
  by (induction xs) (auto simp: final_call_def)

lemma final_answers_of [simp]: "answers_of (map (\<lambda>(h, v). final_call ly t a h) xs) = []"
  by (induction xs) (auto simp: final_call_def)

definition same_tm :: "TranLayer \<Rightarrow> TranLayer \<Rightarrow> bool" where
  "same_tm ly ly' \<longleftrightarrow> activeTransMap ly' = activeTransMap ly \<and> tl_oldLog ly' = tl_oldLog ly \<and>
     deferTransMap ly' = deferTransMap ly \<and> tl_myhostport ly' = tl_myhostport ly"

lemma send_order_quiet:
  assumes "send_order ly = Some (ly', es)"
  shows "same_tm ly ly'" and "answers_of es = []"
    and "(c, m) \<in> set (calls_of es) \<Longrightarrow> ta_TranType m = TRANS_INIT"
  using assms
  by (cases "oldTransactionMap ly"; auto simp: send_order_def same_tm_def Let_def
      split: prod.splits list.splits if_splits)+

lemma requestHandler_cases [consumes 3, case_names quiet booked counted decided expired]:
  assumes h: "requestHandler dial ly req = Some (ly', es)" and inv: "tl_inv ly"
    and votes: "\<forall>r args. req = Some r \<longrightarrow> tr_value r = ArgsV args \<longrightarrow>
      ta_Vote args = T_COMMIT \<or> ta_Vote args = T_ABORT"
  obtains "same_tm ly ly'" "answers_of es = []"
    "\<And>c m. (c, m) \<in> set (calls_of es) \<Longrightarrow> ta_TranType m = TRANS_INIT \<or>
       ta_TranType m = TRANS_RESPONSE \<and> tl_oldLog ly (ta_TranID m) = Some (ta_Vote m)"
  | r orders c where "req = Some r" "tr_type r = TL_INIT_TRANS" "tr_value r = OrdersV orders"
    "tr_replyc r = Some c" "es = []" "tl_myhostport ly' = tl_myhostport ly"
    "activeTransMap ly' = (activeTransMap ly)(tr_key r \<mapsto> new_active orders)"
    "tl_oldLog ly' = tl_oldLog ly" "deferTransMap ly' = (deferTransMap ly)(tr_key r \<mapsto> c)"
  | r args a where "req = Some r" "tr_value r = ArgsV args" "tr_type r = TL_TRANS_RESPONSE"
    "activeTransMap ly (ta_TranID args) = Some a"
    "gget (at_commitGrp a) (ta_TM args) = Some NOT_DECIDED" "es = []"
    "ly' = ly\<lparr>activeTransMap := (activeTransMap ly)(ta_TranID args \<mapsto> vote_active a (ta_TM args) (ta_Vote args))\<rparr>"
  | r args a c where "req = Some r" "tr_value r = ArgsV args" "tr_type r = TL_TRANS_RESPONSE"
    "activeTransMap ly (ta_TranID args) = Some a"
    "gget (at_commitGrp a) (ta_TM args) = Some NOT_DECIDED"
    "deciding (vote_active a (ta_TM args) (ta_Vote args))"
    "deferTransMap ly (ta_TranID args) = Some c"
    "ly' = ly\<lparr>activeTransMap := (activeTransMap ly)(ta_TranID args := None),
       tl_oldLog := (tl_oldLog ly)(ta_TranID args \<mapsto> at_decision (vote_active a (ta_TM args) (ta_Vote args))),
       answered := insert c (answered ly)\<rparr>"
    "answers_of es = [(c, at_decision (vote_active a (ta_TM args) (ta_Vote args)) = T_COMMIT)]"
    "\<And>d m. (d, m) \<in> set (calls_of es) \<Longrightarrow>
       ta_TranType m = TRANS_RESPONSE \<and> ta_TranID m = ta_TranID args \<and>
       ta_Vote m = at_decision (vote_active a (ta_TM args) (ta_Vote args))"
  | r a where "req = Some r" "tr_type r = TL_TRANS_EXPIRED" "activeTransMap ly (tr_key r) = Some a"
proof (cases "oldTransactionMap ly \<noteq> [] \<or> req = None")
  case True
  with h have "ly' = ly \<and> es = [] \<or> send_order ly = Some (ly', es)"
    by (auto simp: requestHandler_def split: if_splits)
  then show thesis
  proof
    assume "ly' = ly \<and> es = []"
    then show thesis by (intro that(1)) (simp_all add: same_tm_def)
  next
    assume "send_order ly = Some (ly', es)"
    from send_order_quiet [OF this] show thesis by (intro that(1)) blast+
  qed
next
  case False
  then obtain r where r: "req = Some r" by blast
  with False h have st: "tl_transactionHandler dial ly r = Some (ly', es)" by (simp add: requestHandler_def)
  show thesis
  proof (cases "tr_type r")
    case TL_INIT_TRANS
    with st have "tl_initTrans ly r = Some (ly', es)" by (simp add: tl_transactionHandler_def)
    from tl_initTrans_result [OF this] obtain orders c where o: "tr_value r = OrdersV orders"
      "tr_replyc r = Some c" "es = []"
      "ly' = ly\<lparr>oldTransactionMap := gput (tr_key r)
                  \<lparr>ot_orderList = orders, ot_pptList = map to_pptID orders\<rparr> (oldTransactionMap ly),
               activeTransMap := (activeTransMap ly)(tr_key r \<mapsto> new_active orders),
               deferTransMap := (deferTransMap ly)(tr_key r \<mapsto> c)\<rparr>" by blast
    show thesis by (rule that(2) [OF r TL_INIT_TRANS o(1-3)]) (simp_all add: o(4))
  next
    case TL_TRANS_RESPONSE
    with st have st: "tl_responseTrans dial ly r = Some (ly', es)" by (simp add: tl_transactionHandler_def)
    then obtain args where args: "tr_value r = ArgsV args"
      by (auto simp: tl_responseTrans_def split: tl_value.splits)
    show thesis
    proof (cases "activeTransMap ly (ta_TranID args)")
      case None
      show thesis
      proof (cases "tl_oldLog ly (ta_TranID args)")
        case None
        with st args \<open>activeTransMap ly (ta_TranID args) = None\<close> have "ly' = ly" "es = []"
          by (simp_all add: tl_responseTrans_def Let_def)
        then show thesis by (intro that(1)) (simp_all add: same_tm_def)
      next
        case (Some d)
        with st args None have "ly' = ly"
          "es = [CallAirline (tl_myhostport ly) \<lparr>ta_TranType = TRANS_RESPONSE, ta_TranID = ta_TranID args,
             ta_FlightID = ta_FlightID args, ta_Amount = 0, ta_PptList = [], ta_Vote = d,
             ta_TM = tl_myhostport ly\<rparr>]"
          by (auto simp: tl_responseTrans_def Let_def split: if_splits)
        with Some show thesis by (intro that(1)) (simp_all add: same_tm_def)
      qed
    next
      case (Some a)
      let ?a1 = "vote_active a (ta_TM args) (ta_Vote args)"
      note st' = st [unfolded tl_responseTrans_active [OF args Some] Let_def]
      show thesis
      proof (cases "gget (at_commitGrp a) (ta_TM args) = Some NOT_DECIDED")
        case False
        with st' have "ly' = ly" "es = []" by simp_all
        then show thesis by (intro that(1)) (simp_all add: same_tm_def)
      next
        case nd: True
        show thesis
        proof (cases "deciding ?a1")
          case False
          with st' nd show thesis by (intro that(3) [OF r args TL_TRANS_RESPONSE Some nd]) simp_all
        next
          case True
          with st' nd obtain calls ans where fc: "final_calls ly (ta_TranID args) ?a1 = Some calls"
            and ab: "answer_booking (ly\<lparr>activeTransMap := (activeTransMap ly)(ta_TranID args := None),
                 tl_oldLog := (tl_oldLog ly)(ta_TranID args \<mapsto> at_decision ?a1)\<rparr>) (ta_TranID args)
                 (at_decision ?a1) = Some (ly', ans)" and es: "es = calls @ ans"
            by (auto split: option.splits)
          from answer_booking_result [OF ab] obtain c where c: "deferTransMap ly (ta_TranID args) = Some c"
            "ly' = ly\<lparr>activeTransMap := (activeTransMap ly)(ta_TranID args := None),
                 tl_oldLog := (tl_oldLog ly)(ta_TranID args \<mapsto> at_decision ?a1),
                 answered := insert c (answered ly)\<rparr>" "ans = [ReplyBool c (at_decision ?a1 = T_COMMIT)]"
            by auto
          have a: "active_ok a" using inv Some by (auto simp: tl_inv_def)
          have v: "ta_Vote args = T_COMMIT \<or> ta_Vote args = T_ABORT" using votes r args by blast
          have "active_ok ?a1" by (rule active_ok_vote [OF a nd v])
          from final_calls_result [OF this, of ly "ta_TranID args"] fc
          have "calls = map (\<lambda>(h, v). final_call ly (ta_TranID args) ?a1 h)
              (filter (\<lambda>(h, v). v = T_COMMIT) (at_commitGrp ?a1))" by simp
          then obtain xs :: "(string \<times> int) list" where
            xs: "calls = map (\<lambda>(h, v). final_call ly (ta_TranID args) ?a1 h) xs" by blast
          show thesis
            by (rule that(4) [OF r args TL_TRANS_RESPONSE Some nd True c(1,2)])
               (auto simp: es c(3) xs dest: final_calls_of)
        qed
      qed
    qed
  next
    case TL_TRANS_EXPIRED
    show thesis
    proof (cases "activeTransMap ly (tr_key r)")
      case None
      with st TL_TRANS_EXPIRED have "ly' = ly" "es = []"
        by (simp_all add: tl_transactionHandler_def tl_expireTrans_def)
      then show thesis by (intro that(1)) (simp_all add: same_tm_def)
    next
      case (Some a)
      with r TL_TRANS_EXPIRED show thesis by (intro that(5))
    qed
  next
    case TL_TRANS_OLD
    with st have "ly' = ly" "calls_of es = []" "answers_of es = []"
      by (auto simp: tl_transactionHandler_def tl_oldTrans_def split: tl_value.splits option.splits)
    then show thesis by (intro that(1)) (simp_all add: same_tm_def)
  qed
qed

end
