(* ===== verification/Libairline.thy ===== *)
theory Libairline
  imports Bufi Storage_Ring Tran_Layer "HOL-Library.Signed_Division"
begin

section \<open>The airlines as an agency sees them (contrib/libconn, contrib/libairline)\<close>

text \<open>
  \<open>Libconn\<close> asks the master storage server where an agency or an airline is, and connects.
  \<open>Libairline\<close> asks the airlines for flights, and turns the flights of a booking into one
  order per airline for the transaction manager.

  Remote calls are functions of the world \<open>'w\<close>, which they may change; \<open>dial\<close> says which
  addresses can be connected to, and a connection is its address. In the results the outer
  \<open>None\<close> is a panic (a nil connection, a negative index) and the inner one a returned error.
  Go leaves the order in which a map is ranged over open: here it is the order of insertion.
\<close>

subsection \<open>Finding servers: libconn.go\<close>

record Libconn =
  lc_entityid :: string
  lc_master :: string
  lc_myhostport :: string
  lc_prefer :: int

text \<open>An error when the master cannot be reached.\<close>

definition NewLibconn :: "(string \<Rightarrow> bool) \<Rightarrow> string \<Rightarrow> string \<Rightarrow> string \<Rightarrow> int \<Rightarrow> Libconn option" where
  "NewLibconn dial entityid master host prefer =
     (if dial master
      then Some \<lparr>lc_entityid = entityid, lc_master = master, lc_myhostport = host, lc_prefer = prefer\<rparr>
      else None)"

definition appendList ::
  "(string \<Rightarrow> string \<Rightarrow> 'w \<Rightarrow> storage_status option \<times> 'w) \<Rightarrow> string \<Rightarrow> string \<Rightarrow> 'w \<Rightarrow> bool \<times> 'w" where
  "appendList call key v w = (case call key v w of (status, w1) \<Rightarrow> (status = Some S_OK, w1))"

definition DeclareExistence where
  "DeclareExistence call lc w = appendList call (lc_entityid lc) (lc_myhostport lc) w"

definition PublishAirline where
  "PublishAirline call lc w = appendList call ALL_AIRLINE (lc_entityid lc) w"

text \<open>
  The address of one of the servers registered for an entity: the preferred one, or by the
  clock \<open>now\<close>. Go's \<open>%\<close> has the sign of the dividend.
\<close>

definition GetServerWithAddress ::
  "(string \<Rightarrow> bool) \<Rightarrow> (storage_GetArgs \<Rightarrow> 'w \<Rightarrow> string list storage_GetReply option \<times> 'w) \<Rightarrow> int \<Rightarrow>
     Libconn \<Rightarrow> string \<Rightarrow> 'w \<Rightarrow> ((string \<times> string) option \<times> 'w) option" where
  "GetServerWithAddress dial call now lc entityId w =
     (case call \<lparr>ga_Key = entityId, WantLease = False, LeaseClient = ''''\<rparr> w of
        (None, w1) \<Rightarrow> Some (None, w1)
      | (Some reply, w1) \<Rightarrow>
          if sg_Status reply \<noteq> S_OK \<or> sg_Value reply = [] then Some (None, w1)
          else
            (let n = int (length (sg_Value reply));
                 pos = (if lc_prefer lc = 0 then now smod n else lc_prefer lc smod n) in
             if pos < 0 then None
             else
               (let server = sg_Value reply ! nat pos in
                Some (if dial server then Some (server, server) else None, w1))))"

definition GetServer where
  "GetServer dial call now lc entityId w =
     map_option (\<lambda>(r, w1). (map_option fst r, w1)) (GetServerWithAddress dial call now lc entityId w)"

text \<open>The participant's way to a manager whose address it has.\<close>

definition GetServerAt :: "(string \<Rightarrow> bool) \<Rightarrow> string \<Rightarrow> string option" where
  "GetServerAt dial hostport = (if dial hostport then Some hostport else None)"

text \<open>The connections that could be made, in order; the loop advances only on success.\<close>

fun connect_all ::
  "(string \<Rightarrow> 'w \<Rightarrow> (string option \<times> 'w) option) \<Rightarrow> string list \<Rightarrow> 'w \<Rightarrow> (string list \<times> 'w) option" where
  "connect_all get [] w = Some ([], w)"
| "connect_all get (server # servers) w =
     (case get server w of
        None \<Rightarrow> None
      | Some (conn, w1) \<Rightarrow>
          map_option (\<lambda>(conns, w2). (case conn of None \<Rightarrow> conns | Some c \<Rightarrow> c # conns, w2))
            (connect_all get servers w1))"

text \<open>The slice is made as long as the list of airlines: what is not filled stays nil.\<close>

definition lc_GetServers ::
  "(string \<Rightarrow> bool) \<Rightarrow> (storage_GetArgs \<Rightarrow> 'w \<Rightarrow> string list storage_GetReply option \<times> 'w) \<Rightarrow> int \<Rightarrow>
     Libconn \<Rightarrow> 'w \<Rightarrow> (string option list option \<times> 'w) option" where
  "lc_GetServers dial call now lc w =
     (case call \<lparr>ga_Key = ALL_AIRLINE, WantLease = False, LeaseClient = ''''\<rparr> w of
        (None, w1) \<Rightarrow> Some (None, w1)
      | (Some reply, w1) \<Rightarrow>
          if sg_Status reply \<noteq> S_OK then Some (None, w1)
          else map_option
            (\<lambda>(conns, w2). (Some (map Some conns @ replicate (length (sg_Value reply) - length conns) None), w2))
            (connect_all (GetServer dial call now lc) (sg_Value reply) w1))"

subsection \<open>Asking the airlines: libairline.go\<close>

record Libairline =
  lib_tranlayer :: TranLayer
  lib_conn :: Libconn
  la_agencyid :: string
  la_myhostport :: string

text \<open>An agency that cannot be registered, or is registered already, does not start.\<close>

definition NewLibairline ::
  "(string \<Rightarrow> string \<Rightarrow> 'w \<Rightarrow> storage_status option \<times> 'w) \<Rightarrow> Libconn \<Rightarrow> string \<Rightarrow> string \<Rightarrow> 'w \<Rightarrow>
     Libairline option \<times> 'w" where
  "NewLibairline call lc agency host w =
     (case DeclareExistence call lc w of (declared, w1) \<Rightarrow>
        (if declared
         then Some \<lparr>lib_tranlayer = NewTranLayer host, lib_conn = lc, la_agencyid = agency, la_myhostport = host\<rparr>
         else None, w1))"

fun collect_flights ::
  "(string \<Rightarrow> 'w \<Rightarrow> GetAllReply option \<times> 'w) \<Rightarrow> string option list \<Rightarrow> string list \<Rightarrow> 'w \<Rightarrow>
     (string list option \<times> 'w) option" where
  "collect_flights call [] flights w = Some (Some flights, w)"
| "collect_flights call (None # conns) flights w = None"
| "collect_flights call (Some conn # conns) flights w =
     (case call conn w of
        (None, w1) \<Rightarrow> Some (None, w1)
      | (Some reply, w1) \<Rightarrow>
          if gar_Status reply \<noteq> A_OK then Some (None, w1)
          else collect_flights call conns (flights @ firsts (set flights) (gar_FlightIDs reply)) w1)"

definition GetAllFlights where
  "GetAllFlights get_servers call w =
     (case get_servers w of
        None \<Rightarrow> None
      | Some (None, w1) \<Rightarrow> Some (None, w1)
      | Some (Some conns, w1) \<Rightarrow> collect_flights call conns [] w1)"

definition la_GetFlight ::
  "(string \<Rightarrow> 'w \<Rightarrow> (string option \<times> 'w) option) \<Rightarrow> (string \<Rightarrow> string \<Rightarrow> 'w \<Rightarrow> GetReply option \<times> 'w) \<Rightarrow>
     string \<Rightarrow> 'w \<Rightarrow> (FlightInfo option \<times> 'w) option" where
  "la_GetFlight get_server call flightid w =
     (case get_server (GetAirlineFromFlightId flightid) w of
        None \<Rightarrow> None
      | Some (None, w1) \<Rightarrow> Some (None, w1)
      | Some (Some conn, w1) \<Rightarrow>
          (case call conn flightid w1 of
             (None, w2) \<Rightarrow> Some (None, w2)
           | (Some reply, w2) \<Rightarrow>
               Some (if gr_Status reply \<noteq> A_OK then None else Some (gr_FlightInfo reply), w2)))"

text \<open>The two errors of \<open>CreateFlight\<close> are told apart by their messages.\<close>

datatype create_error = AirlineDoesNotExist | FlightAlreadyExist

definition la_CreateFlight ::
  "(string \<Rightarrow> 'w \<Rightarrow> (string option \<times> 'w) option) \<Rightarrow>
     (string \<Rightarrow> string \<Rightarrow> FlightInfo \<Rightarrow> 'w \<Rightarrow> airline_status option \<times> 'w) \<Rightarrow>
     FlightInfo \<Rightarrow> 'w \<Rightarrow> (create_error option \<times> 'w) option" where
  "la_CreateFlight get_server call flight w =
     (case get_server (GetAirlineFromFlightId (fi_ID flight)) w of
        None \<Rightarrow> None
      | Some (None, w1) \<Rightarrow> Some (Some AirlineDoesNotExist, w1)
      | Some (Some conn, w1) \<Rightarrow>
          (case call conn (fi_ID flight) flight w1 of (status, w2) \<Rightarrow>
             Some (if status = Some A_OK then None else Some FlightAlreadyExist, w2)))"

subsection \<open>One order per airline\<close>

fun group_flights :: "string list \<Rightarrow> (string, string Buf) gomap \<Rightarrow> (string, string Buf) gomap option" where
  "group_flights [] orderGrpMap = Some orderGrpMap"
| "group_flights (v # vs) orderGrpMap =
     (let airlineId = GetAirlineFromFlightId v;
          orderList = (case gget orderGrpMap airlineId of None \<Rightarrow> NewBuf | Some b \<Rightarrow> b) in
      case buf_Insert v orderList of
        None \<Rightarrow> None
      | Some b \<Rightarrow> group_flights vs (gput airlineId b orderGrpMap))"

text \<open>The loop that empties a buffer; the bound on its rounds is the number of its elements.\<close>

fun join_flights :: "nat \<Rightarrow> string \<Rightarrow> string Buf \<Rightarrow> string option" where
  "join_flights 0 flightIds orderList = None"
| "join_flights (Suc n) flightIds orderList =
     (if buf_Empty orderList then Some flightIds
      else (case buf_Remove orderList of
              (None, _) \<Rightarrow> None
            | (Some flightId, rest) \<Rightarrow>
                join_flights n (if flightIds = '''' then flightId else flightIds @ '':'' @ flightId) rest))"

definition booking_orders :: "string list \<Rightarrow> bool \<Rightarrow> Order list option" where
  "booking_orders flightids isRemove =
     (case group_flights flightids [] of
        None \<Rightarrow> None
      | Some orderGrpMap \<Rightarrow>
          those (map (\<lambda>(airlineId, orderList).
              map_option (\<lambda>flightIds. \<lparr>o_AirlineID = airlineId, o_FlightID = flightIds,
                  o_Amount = (if isRemove then -1 else 1)\<rparr>)
                (join_flights (Suc (length (cells orderList))) '''' orderList))
            orderGrpMap))"

definition MakeBooking ::
  "(Order list \<Rightarrow> 'w \<Rightarrow> (bool \<times> 'w) option) \<Rightarrow> string list \<Rightarrow> bool \<Rightarrow> 'w \<Rightarrow> (bool \<times> 'w) option" where
  "MakeBooking bookingFlights flightids isRemove w =
     (case booking_orders flightids isRemove of None \<Rightarrow> None | Some orders \<Rightarrow> bookingFlights orders w)"

subsection \<open>What the orders are\<close>

definition group_of :: "(string, string Buf) gomap \<Rightarrow> string \<Rightarrow> string list" where
  "group_of g a = (case gget g a of None \<Rightarrow> [] | Some b \<Rightarrow> buf_contents b)"

definition groups_ok :: "(string, string Buf) gomap \<Rightarrow> bool" where
  "groups_ok g \<longleftrightarrow> gmap_ok g \<and> (\<forall>a b. gget g a = Some b \<longrightarrow> buf_ok b)"

lemma group_flights_result:
  "groups_ok g \<Longrightarrow>
     \<exists>g'. group_flights vs g = Some g' \<and> groups_ok g' \<and>
       set (gkeys g') = set (gkeys g) \<union> GetAirlineFromFlightId ` set vs \<and>
       (\<forall>a. group_of g' a = group_of g a @ filter (\<lambda>v. GetAirlineFromFlightId v = a) vs)"
proof (induction vs arbitrary: g)
  case (Cons v vs)
  let ?a = "GetAirlineFromFlightId v"
  let ?b = "case gget g ?a of None \<Rightarrow> NewBuf | Some b \<Rightarrow> b"
  have b: "buf_ok ?b" "buf_contents ?b = group_of g ?a"
    using Cons.prems buf.new_ok buf.new_contents
    by (auto simp: groups_ok_def group_of_def split: option.splits)
  obtain b' where b': "buf_Insert v ?b = Some b'" "buf_ok b'" "buf_contents b' = group_of g ?a @ [v]"
    using buf.insert_ok [OF b(1), of v] b(2) by auto
  have "groups_ok (gput ?a b' g)" using Cons.prems b'(2) by (auto simp: groups_ok_def)
  from Cons.IH [OF this] obtain g' where
    g': "group_flights vs (gput ?a b' g) = Some g'" "groups_ok g'"
      "set (gkeys g') = set (gkeys (gput ?a b' g)) \<union> GetAirlineFromFlightId ` set vs"
      "\<forall>a. group_of g' a = group_of (gput ?a b' g) a @ filter (\<lambda>v. GetAirlineFromFlightId v = a) vs" by blast
  moreover have "group_of (gput ?a b' g) a = group_of g a @ filter (\<lambda>v. GetAirlineFromFlightId v = a) [v]" for a
    using b'(3) by (auto simp: group_of_def)
  ultimately show ?case using b'(1) by (intro exI [of _ g']) (simp add: Let_def)
qed simp

lemma join_flights_result:
  assumes "buf_ok b" and "length (buf_contents b) < n" and "\<forall>f \<in> set (buf_contents b). f \<noteq> ''''"
  shows "join_flights n acc b =
    Some (if acc = '''' then join '':'' (buf_contents b)
          else join '':'' (acc # buf_contents b))"
  using assms
proof (induction n arbitrary: acc b)
  case (Suc n)
  show ?case
  proof (cases "buf_contents b")
    case Nil
    with Suc.prems(1) show ?thesis by (simp add: buf.empty_iff)
  next
    case (Cons x xs)
    obtain y b1 where rm: "buf_Remove b = (y, b1)" by fastforce
    with Cons buf.remove_hd [OF Suc.prems(1)] buf.remove_ok [OF Suc.prems(1)]
    have y: "y = Some x" and b1: "buf_ok b1" "buf_contents b1 = xs" by auto
    have x: "x \<noteq> ''''" "\<forall>f \<in> set xs. f \<noteq> ''''" using Suc.prems(3) Cons by simp_all
    let ?acc = "if acc = '''' then x else acc @ '':'' @ x"
    have "join_flights (Suc n) acc b = join_flights n ?acc b1"
      using Suc.prems(1) Cons rm y by (simp add: buf.empty_iff)
    also have "\<dots> = Some (join '':'' (?acc # xs))"
      using Suc.IH [OF b1(1), of ?acc] b1(2) Suc.prems(2) Cons x by simp
    also have "join '':'' (?acc # xs) = (if acc = '''' then join '':'' (x # xs) else join '':'' (acc # x # xs))"
      by (cases xs) simp_all
    finally show ?thesis by (simp add: Cons)
  qed
qed simp

text \<open>C29: \<open>MakeBooking\<close> loses no flight and mixes no airlines: there is one order for each airline of
  the booking, and splitting its flights at the colon, as the participant does, gives the
  flights of that airline in the order of the booking, each to gain or give back one seat.\<close>

theorem orders_cover_flights:
  assumes "\<forall>f \<in> set fids. f \<noteq> '''' \<and> CHR '':'' \<notin> set f"
  shows "\<exists>os. booking_orders fids isRemove = Some os \<and> distinct (map o_AirlineID os) \<and>
    o_AirlineID ` set os = GetAirlineFromFlightId ` set fids \<and>
    (\<forall>x \<in> set os. strings_Split (o_FlightID x) '':'' = filter (\<lambda>f. GetAirlineFromFlightId f = o_AirlineID x) fids \<and>
       o_Amount x = (if isRemove then -1 else 1))"
proof -
  let ?own = "\<lambda>a. filter (\<lambda>f. GetAirlineFromFlightId f = a) fids"
  let ?order = "\<lambda>a. \<lparr>o_AirlineID = a, o_FlightID = join '':'' (?own a), o_Amount = (if isRemove then -1 else 1)\<rparr>"
  have "groups_ok []" by (simp add: groups_ok_def)
  from group_flights_result [OF this, of fids] obtain g where
    g: "group_flights fids [] = Some g" "gmap_ok g" "set (gkeys g) = GetAirlineFromFlightId ` set fids"
      "\<And>a b. gget g a = Some b \<Longrightarrow> buf_ok b" "\<And>a. group_of g a = ?own a"
    by (auto simp: groups_ok_def group_of_def)
  have entry: "join_flights (Suc (length (cells b))) '''' b = Some (join '':'' (?own a))" if "(a, b) \<in> set g" for a b
  proof -
    have b: "gget g a = Some b" using that g(2) by (simp add: gmap_ok_def)
    then have c: "buf_contents b = ?own a" using g(5) [of a] by (simp add: group_of_def)
    moreover have "\<forall>f \<in> set (buf_contents b). f \<noteq> ''''" using assms c by simp
    ultimately show ?thesis
      using join_flights_result [OF g(4) [OF b] buf_contents_bound [OF g(4) [OF b]]] by simp
  qed
  have "those (map (\<lambda>(a, b). map_option (\<lambda>s. \<lparr>o_AirlineID = a, o_FlightID = s, o_Amount = (if isRemove then -1 else 1)\<rparr>)
      (join_flights (Suc (length (cells b))) '''' b)) h) = Some (map (?order \<circ> fst) h)" if "set h \<subseteq> set g" for h
    using that by (induction h) (auto simp: entry simp del: join_flights.simps)
  then have "booking_orders fids isRemove = Some (map (?order \<circ> fst) g)"
    by (simp add: booking_orders_def g(1))
  moreover have "strings_Split (join '':'' (?own a)) '':'' = ?own a" if "(a, b) \<in> set g" for a b
  proof (rule Split_join)
    have "a \<in> GetAirlineFromFlightId ` set fids" using that g(3) by (metis fst_conv image_eqI list.set_map)
    then show "?own a \<noteq> []" by (auto simp: filter_empty_conv)
  qed (use assms in auto)
  ultimately show ?thesis
    using g(2,3) by (auto simp: gmap_ok_def comp_def image_image intro!: exI [of _ "map (?order \<circ> fst) g"])
qed

theorem orders_cover_flights_witness:
  "\<exists>os. booking_orders [''A-1'', ''B-7'', ''A-2''] True = Some os \<and> length os = 2"
proof -
  from orders_cover_flights [of "[''A-1'', ''B-7'', ''A-2'']" True] obtain os where
    os: "booking_orders [''A-1'', ''B-7'', ''A-2''] True = Some os" "distinct (map o_AirlineID os)"
      "o_AirlineID ` set os = GetAirlineFromFlightId ` {''A-1'', ''B-7'', ''A-2''}" by auto
  have "GetAirlineFromFlightId ` {''A-1'', ''B-7'', ''A-2''} = {''A'', ''B''}" by code_simp
  with os(2,3) have "length os = card {''A'', ''B''}" by (metis distinct_card length_map list.set_map)
  with os(1) show ?thesis by simp
qed

lemma connect_all_short:
  assumes "\<forall>a w. get a w \<noteq> None" and "a \<in> set names" and "\<forall>w. \<exists>w'. get a w = Some (None, w')"
  shows "\<exists>conns w'. connect_all get names w = Some (conns, w') \<and> length conns < length names"
proof -
  have total: "\<exists>conns w'. connect_all get xs w = Some (conns, w') \<and> length conns \<le> length xs" for xs w
    using assms(1)
  proof (induction xs arbitrary: w)
    case (Cons x xs)
    from Cons.prems obtain c w1 where c: "get x w = Some (c, w1)" by (metis not_None_eq surj_pair)
    from Cons.IH [OF Cons.prems, of w1] c show ?case by (cases c) fastforce+
  qed simp
  from assms(2) show ?thesis
  proof (induction names arbitrary: w)
    case (Cons x xs)
    obtain c w1 where c: "get x w = Some (c, w1)" using assms(1) by (metis not_None_eq surj_pair)
    show ?case
    proof (cases "x = a")
      case True
      then have "c = None" using assms(3) c by (metis Pair_inject option.inject)
      with c total [of xs w1] show ?thesis by (fastforce simp: less_Suc_eq_le)
    next
      case False
      with Cons.prems have "a \<in> set xs" by simp
      from Cons.IH [OF this, of w1] c show ?thesis by (cases c) fastforce+
    qed
  qed simp
qed

lemma collect_nil:
  assumes "\<forall>c w. \<exists>r w'. call c w = (Some r, w') \<and> gar_Status r = A_OK"
  shows "None \<in> set conns \<Longrightarrow> collect_flights call conns flights w = None"
proof (induction conns arbitrary: flights w)
  case (Cons c conns)
  show ?case
  proof (cases c)
    case (Some d)
    obtain r w' where "call d w = (Some r, w')" "gar_Status r = A_OK" using assms by blast
    with Some Cons show ?thesis by simp
  qed simp
qed simp

definition two_names :: "storage_GetArgs \<Rightarrow> unit \<Rightarrow> string list storage_GetReply option \<times> unit" where
  "two_names args w =
     (Some \<lparr>sg_Status = S_OK, sg_Value = (if ga_Key args = ALL_AIRLINE then [''A'', ''B''] else [ga_Key args]),
            sg_Lease = no_lease\<rparr>, ())"

text \<open>C37: One airline that cannot be reached panics every search: if the master lists an airline to
  which no connection can be made, and all others answer, \<open>GetAllFlights\<close> calls through a nil
  connection.\<close>

theorem unreachable_airline_panics:
  assumes "\<And>v. \<exists>v'. call_list \<lparr>ga_Key = ALL_AIRLINE, WantLease = False, LeaseClient = ''''\<rparr> v =
      (Some \<lparr>sg_Status = S_OK, sg_Value = names, sg_Lease = no_lease\<rparr>, v')"
    and "\<forall>a v. GetServer dial call_list now lc a v \<noteq> None"
    and "a \<in> set names" and "\<forall>v. \<exists>v'. GetServer dial call_list now lc a v = Some (None, v')"
    and "\<forall>c v. \<exists>r v'. call_all c v = (Some r, v') \<and> gar_Status r = A_OK"
  shows "GetAllFlights (lc_GetServers dial call_list now lc) call_all w = None"
proof -
  obtain w1 where w1: "call_list \<lparr>ga_Key = ALL_AIRLINE, WantLease = False, LeaseClient = ''''\<rparr> w =
      (Some \<lparr>sg_Status = S_OK, sg_Value = names, sg_Lease = no_lease\<rparr>, w1)" using assms(1) by blast
  from connect_all_short [OF assms(2-4)] obtain conns w2 where
    c: "connect_all (GetServer dial call_list now lc) names w1 = Some (conns, w2)" "length conns < length names" by blast
  then have "None \<in> set (map Some conns @ replicate (length names - length conns) None)" by simp
  from collect_nil [OF assms(5) this] show ?thesis
    by (simp add: GetAllFlights_def lc_GetServers_def w1 c(1))
qed

theorem unreachable_airline_panics_witness:
  "GetAllFlights (lc_GetServers (\<lambda>h. h \<noteq> ''B'') two_names 0 \<lparr>lc_entityid = ''x'', lc_master = '''', lc_myhostport = '''', lc_prefer = 1\<rparr>)
     (\<lambda>_ _. (Some \<lparr>gar_Status = A_OK, gar_FlightIDs = []\<rparr>, ())) () = None"
  by (rule unreachable_airline_panics [where names = "[''A'', ''B'']" and a = "''B''"])
     (auto simp: two_names_def GetServer_def GetServerWithAddress_def ALL_AIRLINE_def Let_def signed_modulo_int_def)

end
