(* ===== verification/Hash_List.thy ===== *)
theory Hash_List
  imports Prelude
begin

section \<open>The list values of the storage server (contrib/storageimpl/hashlist.go)\<close>

text \<open>
  A doubly linked list with a map from the values to their elements, so that an element is
  found and unlinked without a walk. As in theory Bufi, each list carries its own store:
  an address is an index into \<open>hl_cells\<close> and \<open>None\<close> is the nil pointer. An operation is
  \<open>None\<close> where the code would dereference nil.

  \<open>hl_at\<close> is the invariant: the elements form a segment linked in both directions, and the
  map and the counter agree with it. The locale \<open>string_set\<close> is what the storage server
  uses: a list without repetitions, kept in the order of insertion.
\<close>

subsection \<open>State\<close>

record HlEle =
  hl_val :: string
  hl_next :: "nat option"
  hl_before :: "nat option"

record HashList =
  hl_cells :: "HlEle list"
  hl_head :: "nat option"
  hl_tail :: "nat option"
  listMap :: "string \<rightharpoonup> nat"
  hl_cnt :: nat

subsection \<open>Operations\<close>

definition NewHashList :: HashList where
  "NewHashList = \<lparr>hl_cells = [], hl_head = None, hl_tail = None, listMap = Map.empty, hl_cnt = 0\<rparr>"

definition hl_Insert :: "string \<Rightarrow> HashList \<Rightarrow> HashList option" where
  "hl_Insert v hl =
     (let ele = length (hl_cells hl);
          linked = (case hl_head hl of
              None \<Rightarrow> Some (hl\<lparr>hl_cells := hl_cells hl @ [\<lparr>hl_val = v, hl_next = None, hl_before = None\<rparr>],
                               hl_head := Some ele\<rparr>)
            | Some _ \<Rightarrow>
                (case hl_tail hl of
                   None \<Rightarrow> None
                 | Some t \<Rightarrow>
                     Some (hl\<lparr>hl_cells := (hl_cells hl)[t := (hl_cells hl ! t)\<lparr>hl_next := Some ele\<rparr>] @
                                [\<lparr>hl_val = v, hl_next = None, hl_before = Some t\<rparr>]\<rparr>))) in
      map_option (\<lambda>h. h\<lparr>hl_tail := Some ele, listMap := (listMap h)(v \<mapsto> ele), hl_cnt := hl_cnt h + 1\<rparr>) linked)"

definition hl_Remove :: "string \<Rightarrow> HashList \<Rightarrow> HashList" where
  "hl_Remove v hl =
     (case listMap hl v of
        None \<Rightarrow> hl
      | Some e \<Rightarrow>
          (let c0 = hl_cells hl;
               nx = hl_next (c0 ! e);
               bf = hl_before (c0 ! e);
               c1 = (case bf of None \<Rightarrow> c0 | Some b \<Rightarrow> c0[b := (c0 ! b)\<lparr>hl_next := nx\<rparr>]);
               c2 = (case nx of None \<Rightarrow> c1 | Some n \<Rightarrow> c1[n := (c1 ! n)\<lparr>hl_before := bf\<rparr>]) in
           hl\<lparr>hl_cells := c2,
              hl_head := (if hl_head hl = Some e then nx else hl_head hl),
              hl_tail := (if hl_tail hl = Some e then bf else hl_tail hl),
              listMap := (listMap hl)(v := None),
              hl_cnt := hl_cnt hl - 1\<rparr>))"

definition hl_Exist :: "string \<Rightarrow> HashList \<Rightarrow> bool" where
  "hl_Exist v hl = (listMap hl v \<noteq> None)"

fun hl_loop :: "nat \<Rightarrow> HlEle list \<Rightarrow> nat option \<Rightarrow> string list option" where
  "hl_loop 0 cs lp = Some []"
| "hl_loop (Suc n) cs None = None"
| "hl_loop (Suc n) cs (Some a) = map_option ((#) (hl_val (cs ! a))) (hl_loop n cs (hl_next (cs ! a)))"

definition hl_List :: "HashList \<Rightarrow> string list option" where
  "hl_List hl = hl_loop (hl_cnt hl) (hl_cells hl) (hl_head hl)"

subsection \<open>Segments\<close>

text \<open>\<open>hl_seg cs b p as b' p'\<close>: from pointer \<open>p\<close>, whose predecessor is \<open>b\<close>, the elements
  \<open>as\<close> lead to pointer \<open>p'\<close>, whose predecessor is \<open>b'\<close>.\<close>

fun hl_seg :: "HlEle list \<Rightarrow> nat option \<Rightarrow> nat option \<Rightarrow> nat list \<Rightarrow> nat option \<Rightarrow> nat option \<Rightarrow> bool" where
  "hl_seg cs b p [] b' p' \<longleftrightarrow> b = b' \<and> p = p'"
| "hl_seg cs b p (a # as) b' p' \<longleftrightarrow>
     p = Some a \<and> a < length cs \<and> hl_before (cs ! a) = b \<and> hl_seg cs (Some a) (hl_next (cs ! a)) as b' p'"

lemma hl_seg_append [simp]:
  "hl_seg cs b p (as @ bs) b' p' \<longleftrightarrow> (\<exists>m q. hl_seg cs b p as m q \<and> hl_seg cs m q bs b' p')"
  by (induction as arbitrary: b p) auto

lemma hl_seg_bound: "hl_seg cs b p as b' p' \<Longrightarrow> a \<in> set as \<Longrightarrow> a < length cs"
  by (induction as arbitrary: b p) auto

lemma hl_seg_more [simp]: "hl_seg cs b p as b' p' \<Longrightarrow> hl_seg (cs @ ds) b p as b' p'"
  by (induction as arbitrary: b p) (auto simp: nth_append)

lemma hl_seg_other [simp]: "x \<notin> set as \<Longrightarrow> hl_seg (cs[x := c]) b p as b' p' = hl_seg cs b p as b' p'"
  by (induction as arbitrary: b p) auto

lemma hl_seg_last: "hl_seg cs b p as b' p' \<Longrightarrow> b' = (if as = [] then b else Some (last as))"
  by (induction as arbitrary: b p) auto

lemma hl_loop_seg:
  "hl_seg cs b p as b' None \<Longrightarrow> hl_loop (length as) cs p = Some (map (\<lambda>a. hl_val (cs ! a)) as)"
  by (induction as arbitrary: b p) auto

lemma hl_val_upd [simp]:
  "hl_val (cs[x := (cs ! x)\<lparr>hl_next := q\<rparr>] ! a) = hl_val (cs ! a)"
  "hl_val (cs[x := (cs ! x)\<lparr>hl_before := q\<rparr>] ! a) = hl_val (cs ! a)"
  by (cases "x < length cs"; cases "a = x"; simp add: list_update_beyond)+

subsection \<open>The invariant\<close>

definition hl_at :: "HashList \<Rightarrow> nat list \<Rightarrow> bool" where
  "hl_at hl ps \<longleftrightarrow>
     hl_seg (hl_cells hl) None (hl_head hl) ps (hl_tail hl) None \<and> distinct ps \<and> hl_cnt hl = length ps \<and>
     distinct (map (\<lambda>a. hl_val (hl_cells hl ! a)) ps) \<and>
     listMap hl = map_of (map (\<lambda>a. (hl_val (hl_cells hl ! a), a)) ps)"

definition hl_ok :: "HashList \<Rightarrow> bool" where
  "hl_ok hl \<longleftrightarrow> (\<exists>ps. hl_at hl ps)"

lemma hl_at_List: "hl_at hl ps \<Longrightarrow> hl_List hl = Some (map (\<lambda>a. hl_val (hl_cells hl ! a)) ps)"
  unfolding hl_at_def hl_List_def using hl_loop_seg by metis

lemma hl_at_Exist: "hl_at hl ps \<Longrightarrow> hl_Exist v hl \<longleftrightarrow> v \<in> (\<lambda>a. hl_val (hl_cells hl ! a)) ` set ps"
  by (simp add: hl_at_def hl_Exist_def map_of_eq_None_iff image_image)

lemma hl_at_new: "hl_at NewHashList []"
  by (simp add: hl_at_def NewHashList_def)


subsection \<open>The operations keep it\<close>

abbreviation hl_vals :: "HashList \<Rightarrow> nat list \<Rightarrow> string list" where
  "hl_vals hl ps \<equiv> map (\<lambda>a. hl_val (hl_cells hl ! a)) ps"

lemma hl_atD:
  assumes "hl_at hl ps"
  shows "hl_seg (hl_cells hl) None (hl_head hl) ps (hl_tail hl) None" "distinct ps"
    "hl_cnt hl = length ps" "distinct (hl_vals hl ps)"
    "listMap hl = map_of (map (\<lambda>a. (hl_val (hl_cells hl ! a), a)) ps)"
  using assms by (simp_all add: hl_at_def)

lemma map_of_snoc: "k \<notin> fst ` set xs \<Longrightarrow> map_of (xs @ [(k, x)]) = (map_of xs)(k \<mapsto> x)"
  by (induction xs) (auto simp: fun_eq_iff)

lemma hl_at_Insert:
  assumes at: "hl_at hl ps" and new: "\<not> hl_Exist v hl"
  shows "\<exists>hl'. hl_Insert v hl = Some hl' \<and> hl_at hl' (ps @ [length (hl_cells hl)]) \<and>
    hl_vals hl' (ps @ [length (hl_cells hl)]) = hl_vals hl ps @ [v]"
proof -
  let ?n = "length (hl_cells hl)"
  note D = hl_atD [OF at]
  have lt: "a < ?n" if "a \<in> set ps" for a using hl_seg_bound [OF D(1) that] .
  have v: "v \<notin> set (hl_vals hl ps)" using new by (simp add: hl_at_Exist [OF at])
  show ?thesis
  proof (cases ps rule: rev_cases)
    case Nil
    with D have "hl_head hl = None" by simp
    then show ?thesis using Nil D
      by (intro exI conjI) (auto simp: hl_Insert_def Let_def hl_at_def)
  next
    case (snoc qs t)
    let ?c = "(hl_cells hl)[t := (hl_cells hl ! t)\<lparr>hl_next := Some ?n\<rparr>]"
    let ?hl = "hl\<lparr>hl_cells := ?c @ [\<lparr>hl_val = v, hl_next = None, hl_before = Some t\<rparr>], hl_tail := Some ?n,
       listMap := (listMap hl)(v \<mapsto> ?n), hl_cnt := hl_cnt hl + 1\<rparr>"
    have tl: "hl_tail hl = Some t" using hl_seg_last [OF D(1)] snoc by simp
    have hd: "hl_head hl \<noteq> None" using D(1) snoc tl by (cases qs) auto
    from hd tl have ins: "hl_Insert v hl = Some ?hl"
      by (auto simp: hl_Insert_def Let_def)
    have t: "t < ?n" "t \<notin> set qs" using lt D(2) snoc by auto
    have vals: "hl_val ((?c @ [x]) ! a) = hl_val (hl_cells hl ! a)" if "a \<in> set ps" for a x
      using lt [OF that] by (simp add: nth_append)
    then have V: "hl_vals ?hl ps = hl_vals hl ps"
      by (simp add: map_eq_conv)
    have V2: "hl_val (hl_cells ?hl ! ?n) = v" by (simp add: nth_append)
    obtain m where m: "hl_seg (hl_cells hl) None (hl_head hl) qs m (Some t)" "hl_before (hl_cells hl ! t) = m"
      using D(1) snoc by auto
    have seg: "hl_seg (hl_cells ?hl) None (hl_head ?hl) (ps @ [?n]) (hl_tail ?hl) None"
      using m t by (auto simp: snoc nth_append intro!: exI [of _ m])
    have mapeq: "map (\<lambda>a. (hl_val (hl_cells ?hl ! a), a)) ps = map (\<lambda>a. (hl_val (hl_cells hl ! a), a)) ps"
      using vals by simp
    have at': "hl_at ?hl (ps @ [?n])"
      unfolding hl_at_def
    proof (intro conjI)
      show "distinct (ps @ [?n])" using D(2) lt by auto
      show "hl_cnt ?hl = length (ps @ [?n])" using D(3) by simp
      show "distinct (hl_vals ?hl (ps @ [?n]))"
        using D(4) v by (simp only: map_append V list.map V2 distinct_append) auto
      have "v \<notin> fst ` set (map (\<lambda>a. (hl_val (hl_cells hl ! a), a)) ps)" using v by (simp add: image_image)
      then show "listMap ?hl = map_of (map (\<lambda>a. (hl_val (hl_cells ?hl ! a), a)) (ps @ [?n]))"
        by (simp only: map_append list.map mapeq V2 map_of_snoc) (simp add: D(5) map_of_snoc del: map_of_append)
    qed (rule seg)
    show ?thesis using ins at' V V2 by (intro exI [of _ ?hl]) simp
  qed
qed

lemma map_of_drop:
  "distinct (map fst (xs @ (k, x) # ys)) \<Longrightarrow> map_of (xs @ ys) = (map_of (xs @ (k, x) # ys))(k := None)"
  by (induction xs) (auto simp: fun_eq_iff map_of_eq_None_iff)

lemma hl_at_Remove:
  assumes at: "hl_at hl (as @ e # bs)" and v: "hl_val (hl_cells hl ! e) = v"
  shows "hl_at (hl_Remove v hl) (as @ bs)" and "hl_vals (hl_Remove v hl) (as @ bs) = hl_vals hl (as @ bs)"
proof -
  note D = hl_atD [OF at]
  let ?c = "hl_cells hl"
  have "map_of (map (\<lambda>a. (hl_val (hl_cells hl ! a), a)) (as @ e # bs)) v = Some e"
    by (rule map_of_is_SomeI) (use D(4) v in \<open>simp_all add: comp_def\<close>)
  then have lm: "listMap hl v = Some e" by (simp only: D(5))
  from D(1) obtain b where sa: "hl_seg ?c None (hl_head hl) as b (Some e)" and e: "e < length ?c"
    "hl_before (?c ! e) = b" and sb: "hl_seg ?c (Some e) (hl_next (?c ! e)) bs (hl_tail hl) None" by auto
  have d: "e \<notin> set as" "e \<notin> set bs" "set as \<inter> set bs = {}" "distinct as" "distinct bs" using D(2) by auto
  have b: "b = (if as = [] then None else Some (last as))" using hl_seg_last [OF sa] .
  define nx where "nx = hl_next (?c ! e)"
  define c1 where "c1 = (case b of None \<Rightarrow> ?c | Some x \<Rightarrow> ?c[x := (?c ! x)\<lparr>hl_next := nx\<rparr>])"
  define c2 where "c2 = (case nx of None \<Rightarrow> c1 | Some y \<Rightarrow> c1[y := (c1 ! y)\<lparr>hl_before := b\<rparr>])"
  have rm: "hl_Remove v hl = hl\<lparr>hl_cells := c2,
      hl_head := (if hl_head hl = Some e then nx else hl_head hl),
      hl_tail := (if hl_tail hl = Some e then b else hl_tail hl),
      listMap := (listMap hl)(v := None), hl_cnt := hl_cnt hl - 1\<rparr>"
    unfolding hl_Remove_def lm option.case Let_def c2_def c1_def nx_def e(2) by (rule refl)
  have vals: "hl_val (c2 ! a) = hl_val (?c ! a)" for a
    by (simp add: c1_def c2_def split: option.split)
  have s1: "hl_seg c1 None (if hl_head hl = Some e then nx else hl_head hl) as b nx"
  proof (cases as rule: rev_cases)
    case Nil
    with sa b show ?thesis by simp
  next
    case (snoc as' x)
    with sa obtain m where "hl_seg ?c None (hl_head hl) as' m (Some x)" "x < length ?c" "hl_before (?c ! x) = m"
      by auto
    moreover have "hl_head hl \<noteq> Some e" using sa snoc d(1) by (cases as') auto
    moreover have "x \<notin> set as'" "b = Some x" using d(4) snoc b by auto
    ultimately show ?thesis by (auto simp: c1_def snoc)
  qed
  have c1b: "hl_seg c1 p q bs p' q' = hl_seg ?c p q bs p' q'" for p q p' q'
    by (cases "as = []") (use d(3) last_in_set [of as] in \<open>auto simp: c1_def b disjoint_iff\<close>)
  have s2: "hl_seg c2 b nx bs (if hl_tail hl = Some e then b else hl_tail hl) None"
  proof (cases bs)
    case Nil
    with sb show ?thesis by (simp add: nx_def)
  next
    case (Cons y bs')
    from sb have "hl_seg c1 (Some e) nx bs (hl_tail hl) None" by (simp add: c1b nx_def)
    with Cons have y: "nx = Some y" "y < length c1" "hl_seg c1 (Some y) (hl_next (c1 ! y)) bs' (hl_tail hl) None"
      by auto
    have "hl_tail hl \<noteq> Some e" using hl_seg_last [OF sb] Cons d(2) by (auto split: if_splits)
    with y Cons d(5) show ?thesis by (simp add: c2_def)
  qed
  have "hl_seg c2 None (if hl_head hl = Some e then nx else hl_head hl) as b nx"
  proof (cases bs)
    case Nil
    with sb have "nx = None" by (simp add: nx_def)
    with s1 show ?thesis by (simp add: c2_def)
  next
    case (Cons y bs')
    with sb d(3) have "nx = Some y" "y \<notin> set as" by (auto simp: nx_def)
    with s1 show ?thesis by (simp add: c2_def)
  qed
  with s2 have seg: "hl_seg c2 None (if hl_head hl = Some e then nx else hl_head hl) (as @ bs)
      (if hl_tail hl = Some e then b else hl_tail hl) None" unfolding hl_seg_append by blast
  have "map_of (map (\<lambda>a. (hl_val (?c ! a), a)) (as @ bs)) = (listMap hl)(v := None)"
    using map_of_drop [of "map (\<lambda>a. (hl_val (?c ! a), a)) as" v e "map (\<lambda>a. (hl_val (?c ! a), a)) bs"] D(4,5) v
    by (simp add: comp_def)
  with seg D(2,3,4) vals show "hl_at (hl_Remove v hl) (as @ bs)"
    by (simp add: hl_at_def rm)
  show "hl_vals (hl_Remove v hl) (as @ bs) = hl_vals hl (as @ bs)" by (simp add: rm vals)
qed


subsection \<open>The interface\<close>

text \<open>
  The server appends a value only if it is not there, and removes it only if it is there;
  the flag says whether it did. \<open>list_updates\<close> is the same on a list.
\<close>

datatype list_update = Append string | Delete string

fun set_updates ::
  "(string \<Rightarrow> 'q \<Rightarrow> 'q option) \<Rightarrow> (string \<Rightarrow> 'q \<Rightarrow> 'q) \<Rightarrow> (string \<Rightarrow> 'q \<Rightarrow> bool) \<Rightarrow> list_update list \<Rightarrow> 'q \<Rightarrow>
     ('q \<times> bool list) option" where
  "set_updates ins del has [] q = Some (q, [])"
| "set_updates ins del has (Append v # us) q =
     (if has v q then map_option (apsnd ((#) False)) (set_updates ins del has us q)
      else case ins v q of
             None \<Rightarrow> None
           | Some q' \<Rightarrow> map_option (apsnd ((#) True)) (set_updates ins del has us q'))"
| "set_updates ins del has (Delete v # us) q =
     (if has v q then map_option (apsnd ((#) True)) (set_updates ins del has us (del v q))
      else map_option (apsnd ((#) False)) (set_updates ins del has us q))"

fun list_updates :: "list_update list \<Rightarrow> string list \<Rightarrow> string list \<times> bool list" where
  "list_updates [] xs = (xs, [])"
| "list_updates (Append v # us) xs =
     apsnd ((#) (v \<notin> set xs)) (list_updates us (if v \<in> set xs then xs else xs @ [v]))"
| "list_updates (Delete v # us) xs = apsnd ((#) (v \<in> set xs)) (list_updates us (remove1 v xs))"

locale string_set =
  fixes new :: 'q
    and insert :: "string \<Rightarrow> 'q \<Rightarrow> 'q option"
    and remove :: "string \<Rightarrow> 'q \<Rightarrow> 'q"
    and exist :: "string \<Rightarrow> 'q \<Rightarrow> bool"
    and elems :: "'q \<Rightarrow> string list option"
    and ok :: "'q \<Rightarrow> bool"
  assumes new_ok: "ok new" and new_elems: "elems new = Some []"
    and elems_some: "ok q \<Longrightarrow> \<exists>xs. elems q = Some xs \<and> distinct xs"
    and insert_new: "ok q \<Longrightarrow> elems q = Some xs \<Longrightarrow> v \<notin> set xs \<Longrightarrow>
      \<exists>q'. insert v q = Some q' \<and> ok q' \<and> elems q' = Some (xs @ [v])"
    and remove_ok: "ok q \<Longrightarrow> elems q = Some xs \<Longrightarrow>
      ok (remove v q) \<and> elems (remove v q) = Some (remove1 v xs)"
    and exist_iff: "ok q \<Longrightarrow> elems q = Some xs \<Longrightarrow> exist v q \<longleftrightarrow> v \<in> set xs"
begin

text \<open>What a client can see of a sequence of guarded updates.\<close>

lemma updates_elems:
  "ok q \<Longrightarrow> elems q = Some xs \<Longrightarrow>
     \<exists>q'. set_updates insert remove exist us q = Some (q', snd (list_updates us xs)) \<and> ok q' \<and>
       elems q' = Some (fst (list_updates us xs))"
proof (induction us arbitrary: q xs)
  case Nil
  then show ?case by simp
next
  case (Cons u us)
  show ?case
  proof (cases u)
    case (Append v)
    show ?thesis
    proof (cases "v \<in> set xs")
      case True
      with Cons.IH [OF Cons.prems] Append exist_iff [OF Cons.prems] show ?thesis by auto
    next
      case False
      from insert_new [OF Cons.prems False] obtain q1 where q1: "insert v q = Some q1" "ok q1"
        "elems q1 = Some (xs @ [v])" by blast
      from Cons.IH [OF q1(2,3)] q1(1) Append False exist_iff [OF Cons.prems] show ?thesis by auto
    qed
  next
    case (Delete v)
    show ?thesis
    proof (cases "v \<in> set xs")
      case False
      then have "remove1 v xs = xs" by (simp add: remove1_idem)
      with False Cons.IH [OF Cons.prems] Delete exist_iff [OF Cons.prems] show ?thesis by auto
    next
      case True
      have q1: "ok (remove v q)" "elems (remove v q) = Some (remove1 v xs)"
        using remove_ok [OF Cons.prems] by simp_all
      from Cons.IH [OF q1] Delete True exist_iff [OF Cons.prems] show ?thesis by auto
    qed
  qed
qed

end

lemma hl_ok_vals: "hl_at hl ps \<Longrightarrow> hl_List hl = Some xs \<Longrightarrow> xs = hl_vals hl ps"
  by (simp add: hl_at_List)

interpretation hl: string_set NewHashList hl_Insert hl_Remove hl_Exist hl_List hl_ok
proof (unfold_locales, goal_cases)
  case 1
  show ?case using hl_at_new by (auto simp: hl_ok_def)
next
  case 2
  show ?case using hl_at_List [OF hl_at_new] by simp
next
  case (3 q)
  then show ?case by (auto simp: hl_ok_def hl_at_List dest: hl_atD)
next
  case (4 q xs v)
  then obtain ps where at: "hl_at q ps" by (auto simp: hl_ok_def)
  from hl_ok_vals [OF at 4(2)] 4(3) have "\<not> hl_Exist v q" by (simp add: hl_at_Exist [OF at])
  from hl_at_Insert [OF at this] obtain q' where q': "hl_Insert v q = Some q'"
    "hl_at q' (ps @ [length (hl_cells q)])"
    "hl_vals q' (ps @ [length (hl_cells q)]) = hl_vals q ps @ [v]" by blast
  have "hl_List q' = Some (hl_vals q ps @ [v])"
    unfolding q'(3) [symmetric] by (rule hl_at_List [OF q'(2)])
  with q' hl_ok_vals [OF at 4(2)] show ?case by (auto simp: hl_ok_def)
next
  case (5 q xs v)
  then obtain ps where at: "hl_at q ps" by (auto simp: hl_ok_def)
  note xs = hl_ok_vals [OF at 5(2)]
  show ?case
  proof (cases "v \<in> set xs")
    case False
    with hl_at_Exist [OF at, of v] xs have "hl_Remove v q = q" by (simp add: hl_Exist_def hl_Remove_def)
    with 5 False show ?thesis by (simp add: remove1_idem)
  next
    case True
    then obtain e where e: "e \<in> set ps" "hl_val (hl_cells q ! e) = v" using xs by auto
    obtain as bs where ps: "ps = as @ e # bs" using split_list [OF e(1)] by blast
    have "v \<notin> set (hl_vals q as)" using hl_atD(4) [OF at] e(2) by (auto simp: ps)
    then have "remove1 v xs = hl_vals q (as @ bs)"
      using e(2) by (simp add: xs ps remove1_append)
    then show ?thesis
      using hl_at_Remove [OF at [unfolded ps] e(2)] by (auto simp: hl_ok_def hl_at_List)
  qed
next
  case (6 q xs v)
  then obtain ps where at: "hl_at q ps" by (auto simp: hl_ok_def)
  with hl_ok_vals [OF at 6(2)] hl_at_Exist [OF at, of v] show ?case by simp
qed

subsection \<open>Properties\<close>

text \<open>C32: The linked list with its map behaves as a list without repetitions: any appends and
  removals, guarded by a membership test as the server does them, meet no nil pointer, and
  give the answers and the contents that the same updates give on a list.\<close>

theorem hashlist_refines:
  "\<exists>hl. set_updates hl_Insert hl_Remove hl_Exist us NewHashList = Some (hl, snd (list_updates us [])) \<and>
     hl_List hl = Some (fst (list_updates us []))"
  using hl.updates_elems [OF hl.new_ok hl.new_elems] by blast

end
