(* ===== verification/Storage.thy ===== *)
theory Storage
  imports Bufi Hash_List
begin

section \<open>The request handler of the storage server (contrib/storageimpl/storageimpl.go)\<close>

text \<open>
  \<open>appHandler\<close> is the goroutine that owns the values, the leases and the deferred requests of
  a storage server and serves one request at a time. It is a function from the state and a
  request to the new state and the effects in their order: answers on the reply channel of a
  request (named by the request), calls to the clients to give a lease back, timers started.
  \<open>None\<close> is a handler that panics or blocks for ever.

  Every lease has a goroutine \<open>leaseTimer\<close>; \<open>timers\<close> holds the live ones by the number of
  their channel. The handler stops a timer by a send on that channel, which blocks for ever
  if the goroutine is gone. A timer that fires has its request \<open>REMOVE_LEASE\<close> taken by the
  handler, and is gone.

  \<open>storage_inv\<close> relates the five tables: a registered lease has a live timer and a live timer
  a registered lease; a key whose leases are banned or whose requests are deferred has a
  lease out, so something will still release them; list values are well-formed.
\<close>

subsection \<open>State and requests\<close>

datatype storage_req =
    PUT_VALUE | GET_VALUE | APPEND_LIST_VALUE | GET_LIST_VALUE | REMOVE_LIST_VALUE
  | S_PUT_LEASE | REMOVE_LEASE | REVOKE_LEASE

record cacheReq =
  cr_typ :: storage_req
  cr_key :: string
  cr_value :: string
  cr_replyc :: nat

definition ask :: "storage_req \<Rightarrow> string \<Rightarrow> string \<Rightarrow> nat \<Rightarrow> cacheReq" where
  "ask t k v c = \<lparr>cr_typ = t, cr_key = k, cr_value = v, cr_replyc = c\<rparr>"

lemma ask_sel [simp]:
  "cr_typ (ask t k v c) = t" "cr_key (ask t k v c) = k" "cr_value (ask t k v c) = v"
  "cr_replyc (ask t k v c) = c"
  by (simp_all add: ask_def)

datatype stored = StrV string | ListV HashList

datatype storage_reply = SNil | SBool bool | SStr string | SList "string list"

record app_state =
  cacheMap :: "string \<rightharpoonup> stored"
  leaseMap :: "string \<rightharpoonup> (string, nat) gomap"
  defReqMap :: "string \<rightharpoonup> cacheReq Buf"
  banLeaseMap :: "string \<rightharpoonup> int"
  timers :: "nat \<rightharpoonup> string \<times> string"
  next_timer :: nat

datatype storage_effect =
    SReply cacheReq storage_reply | RevokeCall string string | StartTimer string string nat

definition app_init :: app_state where
  "app_init = \<lparr>cacheMap = Map.empty, leaseMap = Map.empty, defReqMap = Map.empty,
     banLeaseMap = Map.empty, timers = Map.empty, next_timer = 0\<rparr>"

subsection \<open>The pre-check\<close>

text \<open>Requests that would change nothing are answered at once, leases or not.\<close>

definition pre_check :: "(string \<rightharpoonup> stored) \<Rightarrow> cacheReq \<Rightarrow> storage_reply option" where
  "pre_check c r =
     (case cr_typ r of
        PUT_VALUE \<Rightarrow>
          (case c (cr_key r) of
             Some (StrV v) \<Rightarrow> if v = cr_value r then Some (SBool True) else None
           | _ \<Rightarrow> None)
      | APPEND_LIST_VALUE \<Rightarrow>
          (case c (cr_key r) of
             Some (ListV hl) \<Rightarrow> if hl_Exist (cr_value r) hl then Some (SBool False) else None
           | _ \<Rightarrow> None)
      | REMOVE_LIST_VALUE \<Rightarrow>
          (case c (cr_key r) of
             Some (ListV hl) \<Rightarrow> if hl_Exist (cr_value r) hl then None else Some (SBool False)
           | Some (StrV _) \<Rightarrow> Some (SBool False)
           | None \<Rightarrow> Some (SBool False))
      | _ \<Rightarrow> None)"

subsection \<open>The updates\<close>

text \<open>The three updates; they are written out three times in the code.\<close>

definition put_value :: "(string \<rightharpoonup> stored) \<Rightarrow> cacheReq \<Rightarrow> ((string \<rightharpoonup> stored) \<times> storage_reply) option" where
  "put_value c r = Some (c(cr_key r \<mapsto> StrV (cr_value r)), SBool True)"

definition append_value :: "(string \<rightharpoonup> stored) \<Rightarrow> cacheReq \<Rightarrow> ((string \<rightharpoonup> stored) \<times> storage_reply) option" where
  "append_value c r =
     (case c (cr_key r) of
        Some (ListV hl) \<Rightarrow>
          (if hl_Exist (cr_value r) hl then Some (c, SBool False)
           else map_option (\<lambda>h. (c(cr_key r \<mapsto> ListV h), SBool True)) (hl_Insert (cr_value r) hl))
      | _ \<Rightarrow>
          map_option (\<lambda>h. (c(cr_key r \<mapsto> ListV h), SBool True)) (hl_Insert (cr_value r) NewHashList))"

definition remove_value :: "(string \<rightharpoonup> stored) \<Rightarrow> cacheReq \<Rightarrow> ((string \<rightharpoonup> stored) \<times> storage_reply) option" where
  "remove_value c r =
     (case c (cr_key r) of
        Some (ListV hl) \<Rightarrow>
          (if hl_Exist (cr_value r) hl
           then Some (c(cr_key r \<mapsto> ListV (hl_Remove (cr_value r) hl)), SBool True)
           else Some (c, SBool False))
      | Some (StrV _) \<Rightarrow> Some (c, SBool False)
      | None \<Rightarrow> Some (c, SBool False))"

definition modify :: "(string \<rightharpoonup> stored) \<Rightarrow> cacheReq \<Rightarrow> ((string \<rightharpoonup> stored) \<times> storage_reply) option" where
  "modify c r =
     (case cr_typ r of
        PUT_VALUE \<Rightarrow> put_value c r
      | APPEND_LIST_VALUE \<Rightarrow> append_value c r
      | REMOVE_LIST_VALUE \<Rightarrow> remove_value c r
      | _ \<Rightarrow> None)"

definition get_value :: "(string \<rightharpoonup> stored) \<Rightarrow> string \<Rightarrow> storage_reply" where
  "get_value c k = (case c k of Some (StrV v) \<Rightarrow> SStr v | _ \<Rightarrow> SNil)"

definition get_list_value :: "(string \<rightharpoonup> stored) \<Rightarrow> string \<Rightarrow> storage_reply option" where
  "get_list_value c k =
     (case c k of
        Some (ListV hl) \<Rightarrow> map_option SList (hl_List hl)
      | Some (StrV _) \<Rightarrow> Some (SList [])
      | None \<Rightarrow> Some SNil)"

subsection \<open>Deferring\<close>

definition is_modify :: "storage_req \<Rightarrow> bool" where
  "is_modify t \<longleftrightarrow> t = PUT_VALUE \<or> t = APPEND_LIST_VALUE \<or> t = REMOVE_LIST_VALUE"

text \<open>Leases are out: call them back, ban new ones, keep the request for later.\<close>

definition defer_modify ::
  "app_state \<Rightarrow> cacheReq \<Rightarrow> (string, nat) gomap \<Rightarrow> (app_state \<times> storage_effect list) option" where
  "defer_modify s r leaseList =
     (let k = cr_key r;
          revokes = map (\<lambda>(client, _). RevokeCall k client) leaseList;
          ban = (case banLeaseMap s k of Some n \<Rightarrow> n + 1 | None \<Rightarrow> 1);
          buf = (case defReqMap s k of Some b \<Rightarrow> b | None \<Rightarrow> NewBuf) in
      map_option (\<lambda>b. (s\<lparr>banLeaseMap := (banLeaseMap s)(k \<mapsto> ban), defReqMap := (defReqMap s)(k \<mapsto> b)\<rparr>, revokes))
        (buf_Insert r buf))"

text \<open>
  \<open>for !defReqList.Empty() { request := defReqList.Remove().(Request) ... }\<close>: the first
  argument bounds the rounds; \<open>run_deferred_all\<close> uses a bound that always suffices.
\<close>

fun run_deferred ::
  "nat \<Rightarrow> (string \<rightharpoonup> stored) \<Rightarrow> cacheReq Buf \<Rightarrow>
     ((string \<rightharpoonup> stored) \<times> cacheReq Buf \<times> storage_effect list) option" where
  "run_deferred 0 c b = None"
| "run_deferred (Suc n) c b =
     (if buf_Empty b then Some (c, b, [])
      else
        (case buf_Remove b of
           (None, _) \<Rightarrow> None
         | (Some r, b1) \<Rightarrow>
             (case modify c r of
                None \<Rightarrow> None
              | Some (c1, v) \<Rightarrow>
                  map_option (\<lambda>(c2, b2, es). (c2, b2, SReply r v # es)) (run_deferred n c1 b1))))"

definition run_deferred_all where
  "run_deferred_all c b = run_deferred (Suc (length (cells b))) c b"

text \<open>The last lease of a key is gone: lift the ban and process what was deferred.\<close>

definition release_key :: "app_state \<Rightarrow> string \<Rightarrow> (app_state \<times> storage_effect list) option" where
  "release_key s k =
     (let s1 = s\<lparr>leaseMap := (leaseMap s)(k := None)\<rparr> in
      case defReqMap s k of
        None \<Rightarrow> Some (s1, [])
      | Some b \<Rightarrow>
          map_option
            (\<lambda>(c, b', es). (s1\<lparr>banLeaseMap := (banLeaseMap s)(k := None), cacheMap := c,
                                defReqMap := (defReqMap s)(k \<mapsto> b')\<rparr>, es))
            (run_deferred_all (cacheMap s) b))"

subsection \<open>Leases\<close>

text \<open>\<open>oldTimerChan <- true\<close>: the timer takes the value and ends; without it the send blocks.\<close>

definition stop_timer :: "app_state \<Rightarrow> nat \<Rightarrow> app_state option" where
  "stop_timer s ch = (if timers s ch = None then None else Some (s\<lparr>timers := (timers s)(ch := None)\<rparr>))"

definition start_timer :: "app_state \<Rightarrow> string \<Rightarrow> string \<Rightarrow> (app_state \<times> nat \<times> storage_effect)" where
  "start_timer s k client =
     (let ch = next_timer s in
      (s\<lparr>timers := (timers s)(ch \<mapsto> (k, client)), next_timer := ch + 1\<rparr>, ch, StartTimer k client ch))"

definition put_lease :: "app_state \<Rightarrow> cacheReq \<Rightarrow> (app_state \<times> storage_effect list) option" where
  "put_lease s r =
     (let k = cr_key r; client = cr_value r in
      if banLeaseMap s k \<noteq> None then Some (s, [SReply r (SBool False)])
      else
        (case leaseMap s k of
           Some leaseList \<Rightarrow>
             (let stopped = (case gget leaseList client of None \<Rightarrow> Some s | Some ch \<Rightarrow> stop_timer s ch) in
              map_option
                (\<lambda>s1. case start_timer s1 k client of (s2, ch, e) \<Rightarrow>
                   (s2\<lparr>leaseMap := (leaseMap s2)(k \<mapsto> gput client ch leaseList)\<rparr>, [e, SReply r (SBool True)]))
                stopped)
         | None \<Rightarrow>
             (case start_timer s k client of (s2, ch, e) \<Rightarrow>
                Some (s2\<lparr>leaseMap := (leaseMap s2)(k \<mapsto> [(client, ch)])\<rparr>, [e, SReply r (SBool True)]))))"

definition revoke_lease :: "app_state \<Rightarrow> cacheReq \<Rightarrow> (app_state \<times> storage_effect list) option" where
  "revoke_lease s r =
     (let k = cr_key r; client = cr_value r in
      map_option (\<lambda>(s', es). (s', es @ [SReply r (SBool True)]))
        (case leaseMap s k of
           None \<Rightarrow> Some (s, [])
         | Some leaseList \<Rightarrow>
             (case gget leaseList client of
                None \<Rightarrow> Some (s, [])
              | Some ch \<Rightarrow>
                  (case stop_timer s ch of
                     None \<Rightarrow> None
                   | Some s1 \<Rightarrow>
                       (let rest = gdel client leaseList in
                        if rest = [] then release_key s1 k
                        else Some (s1\<lparr>leaseMap := (leaseMap s1)(k \<mapsto> rest)\<rparr>, []))))))"

definition remove_lease :: "app_state \<Rightarrow> cacheReq \<Rightarrow> (app_state \<times> storage_effect list) option" where
  "remove_lease s r =
     (let k = cr_key r; client = cr_value r in
      map_option (\<lambda>(s', es). (s', es @ [SReply r (SBool True)]))
        (case leaseMap s k of
           None \<Rightarrow> Some (s, [])
         | Some leaseList \<Rightarrow>
             (let rest = gdel client leaseList in
              if rest = [] then release_key s k
              else Some (s\<lparr>leaseMap := (leaseMap s)(k \<mapsto> rest)\<rparr>, []))))"

subsection \<open>One round of the handler\<close>

definition process_request :: "app_state \<Rightarrow> cacheReq \<Rightarrow> (app_state \<times> storage_effect list) option" where
  "process_request s r =
     (case cr_typ r of
        GET_VALUE \<Rightarrow> Some (s, [SReply r (get_value (cacheMap s) (cr_key r))])
      | GET_LIST_VALUE \<Rightarrow>
          map_option (\<lambda>v. (s, [SReply r v])) (get_list_value (cacheMap s) (cr_key r))
      | S_PUT_LEASE \<Rightarrow> put_lease s r
      | REVOKE_LEASE \<Rightarrow> revoke_lease s r
      | REMOVE_LEASE \<Rightarrow> remove_lease s r
      | _ \<Rightarrow> map_option (\<lambda>(c, v). (s\<lparr>cacheMap := c\<rparr>, [SReply r v])) (modify (cacheMap s) r))"

definition appHandler :: "app_state \<Rightarrow> cacheReq \<Rightarrow> (app_state \<times> storage_effect list) option" where
  "appHandler s r =
     (case pre_check (cacheMap s) r of
        Some v \<Rightarrow> Some (s, [SReply r v])
      | None \<Rightarrow>
          (case leaseMap s (cr_key r) of
             Some leaseList \<Rightarrow>
               (if is_modify (cr_typ r) then defer_modify s r leaseList else process_request s r)
           | None \<Rightarrow> process_request s r))"

text \<open>
  The server with its clients and timers: a request of a client, or a timer that fires. The
  two ways a timer ends are in \<open>leaseTimer\<close>; a timer whose request was taken is gone.
\<close>

datatype storage_event = Ask cacheReq | TimerFires nat nat

definition timer_request :: "string \<times> string \<Rightarrow> nat \<Rightarrow> cacheReq" where
  "timer_request kc c = \<lparr>cr_typ = REMOVE_LEASE, cr_key = fst kc, cr_value = snd kc, cr_replyc = c\<rparr>"

definition leaseTimer :: "app_state \<Rightarrow> nat \<Rightarrow> nat \<Rightarrow> (app_state \<times> cacheReq) option" where
  "leaseTimer s ch c =
     map_option (\<lambda>kc. (s\<lparr>timers := (timers s)(ch := None)\<rparr>, timer_request kc c)) (timers s ch)"

fun storage_exec :: "app_state \<Rightarrow> storage_event \<Rightarrow> (app_state \<times> storage_effect list) option" where
  "storage_exec s (Ask r) = (if cr_typ r = REMOVE_LEASE then None else appHandler s r)"
| "storage_exec s (TimerFires ch c) =
     (case leaseTimer s ch c of None \<Rightarrow> None | Some (s1, r) \<Rightarrow> appHandler s1 r)"

end
