(* ===== verification/Storage_Spec.thy ===== *)
theory Storage_Spec
  imports Storage "HOL-Library.Multiset"
begin

section \<open>The storage server refines a map of strings and lists\<close>

text \<open>
  The specification: a map from keys to a string or a list without repetitions, and for each
  data request what it does to the map and what it answers. The lemmas show that the linked
  lists of the server follow it, and that the answers of the handler are those of the
  specification, request by request in the order of the answers.
\<close>

subsection \<open>The specification\<close>

datatype aval = AStr string | AList "string list"

type_synonym amap = "string \<rightharpoonup> aval"

definition is_data :: "storage_req \<Rightarrow> bool" where
  "is_data t \<longleftrightarrow> is_modify t \<or> t = GET_VALUE \<or> t = GET_LIST_VALUE"

definition spec_req :: "amap \<Rightarrow> cacheReq \<Rightarrow> amap \<times> storage_reply" where
  "spec_req m r =
     (let k = cr_key r; v = cr_value r in
      case cr_typ r of
        PUT_VALUE \<Rightarrow> (m(k \<mapsto> AStr v), SBool True)
      | APPEND_LIST_VALUE \<Rightarrow>
          (case m k of
             Some (AList xs) \<Rightarrow>
               if v \<in> set xs then (m, SBool False) else (m(k \<mapsto> AList (xs @ [v])), SBool True)
           | _ \<Rightarrow> (m(k \<mapsto> AList [v]), SBool True))
      | REMOVE_LIST_VALUE \<Rightarrow>
          (case m k of
             Some (AList xs) \<Rightarrow>
               if v \<in> set xs then (m(k \<mapsto> AList (remove1 v xs)), SBool True) else (m, SBool False)
           | _ \<Rightarrow> (m, SBool False))
      | GET_VALUE \<Rightarrow> (m, case m k of Some (AStr x) \<Rightarrow> SStr x | _ \<Rightarrow> SNil)
      | GET_LIST_VALUE \<Rightarrow>
          (m, case m k of Some (AList xs) \<Rightarrow> SList xs | Some (AStr _) \<Rightarrow> SList [] | None \<Rightarrow> SNil)
      | _ \<Rightarrow> (m, SNil))"

fun spec_log :: "amap \<Rightarrow> cacheReq list \<Rightarrow> amap \<times> storage_reply list" where
  "spec_log m [] = (m, [])"
| "spec_log m (r # rs) =
     (case spec_req m r of (m1, v) \<Rightarrow> (case spec_log m1 rs of (m2, vs) \<Rightarrow> (m2, v # vs)))"

lemma spec_log_append:
  "spec_log m (rs @ rs') =
     (case spec_log m rs of (m1, vs) \<Rightarrow> (case spec_log m1 rs' of (m2, vs') \<Rightarrow> (m2, vs @ vs')))"
  by (induction rs arbitrary: m) (auto split: prod.splits)

lemma spec_log_length: "length (snd (spec_log m rs)) = length rs"
  by (induction rs arbitrary: m) (auto split: prod.splits, metis snd_conv)

subsection \<open>The abstraction\<close>

fun abs_val :: "stored \<Rightarrow> aval" where
  "abs_val (StrV v) = AStr v"
| "abs_val (ListV hl) = AList (the (hl_List hl))"

definition abs_cache :: "(string \<rightharpoonup> stored) \<Rightarrow> amap" where
  "abs_cache c = (\<lambda>k. map_option abs_val (c k))"

definition cache_ok :: "(string \<rightharpoonup> stored) \<Rightarrow> bool" where
  "cache_ok c \<longleftrightarrow> (\<forall>k hl. c k = Some (ListV hl) \<longrightarrow> hl_ok hl)"

lemma abs_cache_upd [simp]: "abs_cache (c(k \<mapsto> x)) = (abs_cache c)(k \<mapsto> abs_val x)"
  by (auto simp: abs_cache_def)

lemma abs_cache_empty [simp]: "abs_cache Map.empty = Map.empty"
  by (simp add: abs_cache_def)

lemma cache_ok_upd: "cache_ok c \<Longrightarrow> (\<And>hl. x = ListV hl \<Longrightarrow> hl_ok hl) \<Longrightarrow> cache_ok (c(k \<mapsto> x))"
  by (simp add: cache_ok_def)

lemma cache_list:
  assumes "cache_ok c" and "c k = Some (ListV hl)"
  obtains xs where "hl_ok hl" "hl_List hl = Some xs" "abs_cache c k = Some (AList xs)"
proof -
  have ok: "hl_ok hl" using assms by (simp add: cache_ok_def)
  then obtain xs where "hl_List hl = Some xs" using hl.elems_some by blast
  with ok assms(2) show thesis by (intro that) (simp_all add: abs_cache_def)
qed

lemma abs_cache_other: "c k = None \<Longrightarrow> abs_cache c k = None" "c k = Some (StrV v) \<Longrightarrow> abs_cache c k = Some (AStr v)"
  by (simp_all add: abs_cache_def)

lemma append_spec:
  assumes ok: "cache_ok c" and t: "cr_typ r = APPEND_LIST_VALUE"
  shows "\<exists>c'. append_value c r = Some (c', snd (spec_req (abs_cache c) r)) \<and> cache_ok c' \<and>
    abs_cache c' = fst (spec_req (abs_cache c) r)"
proof -
  obtain h where h: "hl_Insert (cr_value r) NewHashList = Some h" "hl_ok h" "hl_List h = Some [cr_value r]"
    using hl.insert_new [OF hl.new_ok hl.new_elems, of "cr_value r"] by auto
  show ?thesis
  proof (cases "c (cr_key r)")
    case None
    with h ok t show ?thesis
      by (auto simp: append_value_def spec_req_def abs_cache_other intro!: cache_ok_upd)
  next
    case (Some x)
    show ?thesis
    proof (cases x)
      case (StrV y)
      with h ok t Some show ?thesis
        by (auto simp: append_value_def spec_req_def abs_cache_other intro!: cache_ok_upd)
    next
      case (ListV hl)
      with Some cache_list [OF ok, of "cr_key r" hl] obtain xs where
        xs: "hl_ok hl" "hl_List hl = Some xs" "abs_cache c (cr_key r) = Some (AList xs)" by auto
      show ?thesis
      proof (cases "cr_value r \<in> set xs")
        case True
        with Some ListV xs t ok show ?thesis
          by (auto simp: append_value_def spec_req_def hl.exist_iff)
      next
        case False
        from hl.insert_new [OF xs(1,2) False] obtain h' where
          "hl_Insert (cr_value r) hl = Some h'" "hl_ok h'" "hl_List h' = Some (xs @ [cr_value r])" by blast
        with False Some ListV xs t ok show ?thesis
          by (auto simp: append_value_def spec_req_def hl.exist_iff intro!: cache_ok_upd)
      qed
    qed
  qed
qed

lemma remove_spec:
  assumes ok: "cache_ok c" and t: "cr_typ r = REMOVE_LIST_VALUE"
  shows "\<exists>c'. remove_value c r = Some (c', snd (spec_req (abs_cache c) r)) \<and> cache_ok c' \<and>
    abs_cache c' = fst (spec_req (abs_cache c) r)"
proof (cases "\<exists>hl. c (cr_key r) = Some (ListV hl)")
  case False
  then consider "c (cr_key r) = None" | y where "c (cr_key r) = Some (StrV y)"
    by (metis option.exhaust stored.exhaust)
  then show ?thesis
    using ok t by cases (auto simp: remove_value_def spec_req_def abs_cache_other)
next
  case True
  then obtain hl where l: "c (cr_key r) = Some (ListV hl)" by blast
  obtain xs where xs: "hl_ok hl" "hl_List hl = Some xs" "abs_cache c (cr_key r) = Some (AList xs)"
    using cache_list [OF ok l] .
  show ?thesis
    using l xs t ok hl.remove_ok [OF xs(1,2), of "cr_value r"]
    by (cases "cr_value r \<in> set xs")
       (auto simp: remove_value_def spec_req_def hl.exist_iff intro!: cache_ok_upd)
qed

lemma modify_spec:
  assumes ok: "cache_ok c" and t: "is_modify (cr_typ r)"
  shows "\<exists>c'. modify c r = Some (c', snd (spec_req (abs_cache c) r)) \<and> cache_ok c' \<and>
    abs_cache c' = fst (spec_req (abs_cache c) r)"
  using t append_spec [OF ok] remove_spec [OF ok] ok
  by (cases "cr_typ r")
     (auto simp: is_modify_def modify_def put_value_def spec_req_def intro!: cache_ok_upd)

lemma pre_check_spec:
  assumes ok: "cache_ok c" and p: "pre_check c r = Some v"
  shows "is_modify (cr_typ r)" and "spec_req (abs_cache c) r = (abs_cache c, v)"
proof -
  show m: "is_modify (cr_typ r)"
    using p by (auto simp: pre_check_def is_modify_def split: storage_req.splits)
  show "spec_req (abs_cache c) r = (abs_cache c, v)"
  proof (cases "\<exists>hl. c (cr_key r) = Some (ListV hl)")
    case True
    then obtain hl where l: "c (cr_key r) = Some (ListV hl)" by blast
    obtain xs where "hl_ok hl" "hl_List hl = Some xs" "abs_cache c (cr_key r) = Some (AList xs)"
      using cache_list [OF ok l] .
    with p l m show ?thesis
      by (auto simp: pre_check_def spec_req_def is_modify_def hl.exist_iff split: if_splits)
  next
    case False
    then consider "c (cr_key r) = None" | y where "c (cr_key r) = Some (StrV y)"
      by (metis option.exhaust stored.exhaust)
    then show ?thesis
      using p m by cases
        (auto simp: pre_check_def spec_req_def is_modify_def abs_cache_other map_upd_triv split: if_splits)
  qed
qed

lemma get_spec:
  assumes ok: "cache_ok c"
  shows "cr_typ r = GET_VALUE \<Longrightarrow> spec_req (abs_cache c) r = (abs_cache c, get_value c (cr_key r))"
    and "cr_typ r = GET_LIST_VALUE \<Longrightarrow>
      \<exists>v. get_list_value c (cr_key r) = Some v \<and> spec_req (abs_cache c) r = (abs_cache c, v)"
proof -
  show "spec_req (abs_cache c) r = (abs_cache c, get_value c (cr_key r))" if "cr_typ r = GET_VALUE"
    using that by (auto simp: spec_req_def get_value_def abs_cache_def split: option.splits stored.splits)
  show "\<exists>v. get_list_value c (cr_key r) = Some v \<and> spec_req (abs_cache c) r = (abs_cache c, v)"
    if "cr_typ r = GET_LIST_VALUE"
    using that ok hl.elems_some
    by (force simp: spec_req_def get_list_value_def abs_cache_def cache_ok_def split: option.splits stored.splits)
qed


subsection \<open>Deferred requests\<close>

text \<open>The data requests answered by a list of effects, with their answers.\<close>

fun data_log :: "storage_effect list \<Rightarrow> (cacheReq \<times> storage_reply) list" where
  "data_log [] = []"
| "data_log (SReply r v # es) = (if is_data (cr_typ r) then (r, v) # data_log es else data_log es)"
| "data_log (_ # es) = data_log es"

lemma data_log_append [simp]: "data_log (es @ fs) = data_log es @ data_log fs"
  by (induction es rule: data_log.induct) auto

lemma data_log_revokes [simp]: "data_log (map (\<lambda>(client, ch). RevokeCall k client) xs) = []"
  by (induction xs) auto

definition follows :: "amap \<Rightarrow> (cacheReq \<times> storage_reply) list \<Rightarrow> amap \<Rightarrow> bool" where
  "follows m log m' \<longleftrightarrow> spec_log m (map fst log) = (m', map snd log)"

lemma follows_Nil [simp]: "follows m [] m' \<longleftrightarrow> m' = m"
  by (auto simp: follows_def)

lemma follows_one: "spec_req m r = (m', v) \<Longrightarrow> follows m [(r, v)] m'"
  by (simp add: follows_def)

lemma follows_append: "follows m l m1 \<Longrightarrow> follows m1 l' m2 \<Longrightarrow> follows m (l @ l') m2"
  by (simp add: follows_def spec_log_append)

lemma run_deferred_spec:
  assumes "cache_ok c" and "buf_ok b" and "\<forall>r \<in> set (buf_contents b). is_modify (cr_typ r)"
    and "length (buf_contents b) < n"
  shows "\<exists>c' b' es. run_deferred n c b = Some (c', b', es) \<and> cache_ok c' \<and> buf_ok b' \<and>
    buf_contents b' = [] \<and> follows (abs_cache c) (data_log es) (abs_cache c') \<and>
    map fst (data_log es) = buf_contents b"
  using assms
proof (induction n arbitrary: c b)
  case 0
  then show ?case by simp
next
  case (Suc n)
  show ?case
  proof (cases "buf_contents b")
    case Nil
    with Suc.prems show ?thesis by (simp add: buf.empty_iff)
  next
    case (Cons r rs)
    obtain y b1 where rm: "buf_Remove b = (y, b1)" by fastforce
    with Cons Suc.prems(2) buf.remove_hd [of b] buf.remove_ok [of b]
    have y: "y = Some r" and b1: "buf_ok b1" "buf_contents b1 = rs" by auto
    have mod: "is_modify (cr_typ r)" using Suc.prems(3) Cons by simp
    then have data: "is_data (cr_typ r)" by (simp add: is_data_def)
    from modify_spec [OF Suc.prems(1) mod] obtain c1 where
      c1: "modify c r = Some (c1, snd (spec_req (abs_cache c) r))" "cache_ok c1"
        "abs_cache c1 = fst (spec_req (abs_cache c) r)" by blast
    from Suc.IH [OF c1(2) b1(1)] b1(2) Cons Suc.prems(3,4) obtain c2 b2 es where
      r: "run_deferred n c1 b1 = Some (c2, b2, es)" "cache_ok c2" "buf_ok b2" "buf_contents b2 = []"
        "follows (abs_cache c1) (data_log es) (abs_cache c2)" "map fst (data_log es) = rs" by auto
    have "follows (abs_cache c) [(r, snd (spec_req (abs_cache c) r))] (abs_cache c1)"
      by (rule follows_one) (simp add: c1(3))
    from follows_append [OF this r(5)] show ?thesis
      using rm y c1(1) r data Cons Suc.prems(2) by (auto simp: buf.empty_iff)
  qed
qed

subsection \<open>The invariant\<close>

definition pending :: "app_state \<Rightarrow> string \<Rightarrow> cacheReq list" where
  "pending s k = (case defReqMap s k of None \<Rightarrow> [] | Some b \<Rightarrow> buf_contents b)"

text \<open>Timer \<open>ch\<close> guards the lease of a client on a key.\<close>

definition lease_of :: "app_state \<Rightarrow> string \<Rightarrow> string \<Rightarrow> nat option" where
  "lease_of s k client = (case leaseMap s k of None \<Rightarrow> None | Some ll \<Rightarrow> gget ll client)"

definition leases_inv :: "app_state \<Rightarrow> bool" where
  "leases_inv s \<longleftrightarrow>
     (\<forall>k ll. leaseMap s k = Some ll \<longrightarrow> ll \<noteq> [] \<and> gmap_ok ll) \<and>
     (\<forall>k client ch. lease_of s k client = Some ch \<longleftrightarrow> timers s ch = Some (k, client)) \<and>
     (\<forall>ch. timers s ch \<noteq> None \<longrightarrow> ch < next_timer s)"

definition deferred_inv :: "app_state \<Rightarrow> bool" where
  "deferred_inv s \<longleftrightarrow>
     (\<forall>k b. defReqMap s k = Some b \<longrightarrow> buf_ok b \<and>
        (\<forall>r \<in> set (buf_contents b). is_modify (cr_typ r) \<and> cr_key r = k)) \<and>
     (\<forall>k. pending s k \<noteq> [] \<longrightarrow> leaseMap s k \<noteq> None) \<and>
     (\<forall>k. banLeaseMap s k = (if pending s k = [] then None else Some (int (length (pending s k)))))"

definition storage_inv :: "app_state \<Rightarrow> bool" where
  "storage_inv s \<longleftrightarrow> cache_ok (cacheMap s) \<and> leases_inv s \<and> deferred_inv s"

lemma storage_inv_init: "storage_inv app_init"
  by (simp add: storage_inv_def cache_ok_def leases_inv_def deferred_inv_def app_init_def
      lease_of_def pending_def)


subsection \<open>What each part of the handler does\<close>

lemma deferred_buf:
  assumes "deferred_inv s" and "defReqMap s k = Some b"
  shows "buf_ok b" "pending s k = buf_contents b" "r \<in> set (buf_contents b) \<Longrightarrow> is_modify (cr_typ r) \<and> cr_key r = k"
  using assms by (auto simp: deferred_inv_def pending_def)

lemma deferred_ban:
  "deferred_inv s \<Longrightarrow> banLeaseMap s k = (if pending s k = [] then None else Some (int (length (pending s k))))"
  by (simp add: deferred_inv_def)

lemma deferred_lease: "deferred_inv s \<Longrightarrow> pending s k \<noteq> [] \<Longrightarrow> leaseMap s k \<noteq> None"
  by (simp add: deferred_inv_def)

lemma deferred_invI:
  assumes "\<And>k b. defReqMap s k = Some b \<Longrightarrow> buf_ok b \<and>
        (\<forall>r \<in> set (buf_contents b). is_modify (cr_typ r) \<and> cr_key r = k)"
    and "\<And>k. pending s k \<noteq> [] \<Longrightarrow> leaseMap s k \<noteq> None"
    and "\<And>k. banLeaseMap s k = (if pending s k = [] then None else Some (int (length (pending s k))))"
  shows "deferred_inv s"
  using assms unfolding deferred_inv_def by blast

lemma defer_modify_result:
  assumes inv: "deferred_inv s" and ll: "leaseMap s (cr_key r) = Some ll" and m: "is_modify (cr_typ r)"
  shows "\<exists>s' es. defer_modify s r ll = Some (s', es) \<and> deferred_inv s' \<and> cacheMap s' = cacheMap s \<and>
    leaseMap s' = leaseMap s \<and> timers s' = timers s \<and> next_timer s' = next_timer s \<and> data_log es = [] \<and>
    pending s' = (pending s)(cr_key r := pending s (cr_key r) @ [r])"
proof -
  let ?k = "cr_key r"
  let ?b = "case defReqMap s ?k of Some b \<Rightarrow> b | None \<Rightarrow> NewBuf"
  have b: "buf_ok ?b" "buf_contents ?b = pending s ?k"
    using deferred_buf [OF inv, of ?k] buf.new_ok buf.new_contents
    by (cases "defReqMap s ?k"; simp add: pending_def)+
  obtain b' where b': "buf_Insert r ?b = Some b'" "buf_ok b'" "buf_contents b' = pending s ?k @ [r]"
    using buf.insert_ok [OF b(1), of r] b(2) by auto
  let ?ban = "case banLeaseMap s ?k of Some n \<Rightarrow> n + 1 | None \<Rightarrow> 1"
  let ?s = "s\<lparr>banLeaseMap := (banLeaseMap s)(?k \<mapsto> ?ban), defReqMap := (defReqMap s)(?k \<mapsto> b')\<rparr>"
  have p: "pending ?s = (pending s)(?k := pending s ?k @ [r])"
    by (rule ext) (simp add: pending_def b'(3))
  have "deferred_inv ?s"
  proof (rule deferred_invI)
    fix k b assume "defReqMap ?s k = Some b"
    then show "buf_ok b \<and> (\<forall>r \<in> set (buf_contents b). is_modify (cr_typ r) \<and> cr_key r = k)"
      using b' m deferred_buf [OF inv, of ?k] deferred_buf [OF inv, of k b]
      by (cases "defReqMap s ?k") (auto simp: pending_def split: if_splits)
  next
    fix k show "pending ?s k \<noteq> [] \<Longrightarrow> leaseMap ?s k \<noteq> None"
      using deferred_lease [OF inv, of k] ll by (auto simp: p split: if_splits)
    show "banLeaseMap ?s k = (if pending ?s k = [] then None else Some (int (length (pending ?s k))))"
      using deferred_ban [OF inv, of k] by (cases "pending s k = []") (auto simp: p)
  qed
  with b' p show ?thesis
    by (intro exI [of _ ?s] exI conjI) (auto simp: defer_modify_def Let_def)
qed

lemma release_key_result:
  assumes inv: "deferred_inv s" and ok: "cache_ok (cacheMap s)"
  shows "\<exists>s' es. release_key s k = Some (s', es) \<and> deferred_inv s' \<and> cache_ok (cacheMap s') \<and>
    leaseMap s' = (leaseMap s)(k := None) \<and> timers s' = timers s \<and> next_timer s' = next_timer s \<and>
    pending s' = (pending s)(k := []) \<and> map fst (data_log es) = pending s k \<and>
    follows (abs_cache (cacheMap s)) (data_log es) (abs_cache (cacheMap s'))"
proof (cases "defReqMap s k")
  case None
  let ?s = "s\<lparr>leaseMap := (leaseMap s)(k := None)\<rparr>"
  have p: "pending ?s = pending s" "pending s k = []" by (auto simp: pending_def None)
  have "deferred_inv ?s"
  proof (rule deferred_invI)
    show "defReqMap ?s k' = Some b \<Longrightarrow> buf_ok b \<and> (\<forall>r \<in> set (buf_contents b). is_modify (cr_typ r) \<and> cr_key r = k')"
      for k' b using deferred_buf [OF inv, of k' b] by auto
    show "pending ?s k' \<noteq> [] \<Longrightarrow> leaseMap ?s k' \<noteq> None" for k'
      using deferred_lease [OF inv, of k'] p by auto
    show "banLeaseMap ?s k' = (if pending ?s k' = [] then None else Some (int (length (pending ?s k'))))" for k'
      using deferred_ban [OF inv, of k'] p by simp
  qed
  with None p ok show ?thesis by (intro exI [of _ ?s] exI [of _ "[]"]) (auto simp: release_key_def Let_def)
next
  case (Some b)
  note B = deferred_buf [OF inv Some]
  from run_deferred_spec [OF ok B(1) _ buf_contents_bound [OF B(1)]] B(3) obtain c' b' es where
    r: "run_deferred_all (cacheMap s) b = Some (c', b', es)" "cache_ok c'" "buf_ok b'" "buf_contents b' = []"
      "follows (abs_cache (cacheMap s)) (data_log es) (abs_cache c')" "map fst (data_log es) = buf_contents b"
    unfolding run_deferred_all_def by blast
  let ?s = "s\<lparr>leaseMap := (leaseMap s)(k := None), banLeaseMap := (banLeaseMap s)(k := None), cacheMap := c',
      defReqMap := (defReqMap s)(k \<mapsto> b')\<rparr>"
  have p: "pending ?s = (pending s)(k := [])" by (rule ext) (simp add: pending_def r(4))
  have "deferred_inv ?s"
  proof (rule deferred_invI)
    show "defReqMap ?s k' = Some b \<Longrightarrow> buf_ok b \<and> (\<forall>r \<in> set (buf_contents b). is_modify (cr_typ r) \<and> cr_key r = k')"
      for k' b using deferred_buf [OF inv, of k' b] r(3,4) by (auto split: if_splits)
    show "pending ?s k' \<noteq> [] \<Longrightarrow> leaseMap ?s k' \<noteq> None" for k'
      using deferred_lease [OF inv, of k'] p by (auto split: if_splits)
    show "banLeaseMap ?s k' = (if pending ?s k' = [] then None else Some (int (length (pending ?s k'))))" for k'
      using deferred_ban [OF inv, of k'] p by simp
  qed
  moreover have "release_key s k = Some (?s, es)"
    by (simp add: release_key_def Let_def Some r(1))
  ultimately show ?thesis using r p B(2) by (intro exI [of _ ?s] exI [of _ es]) auto
qed


text \<open>Leases and timers stay paired.\<close>

lemma leases_lease: "leases_inv s \<Longrightarrow> lease_of s k client = Some ch \<longleftrightarrow> timers s ch = Some (k, client)"
  by (simp add: leases_inv_def)

lemma leases_list: "leases_inv s \<Longrightarrow> leaseMap s k = Some ll \<Longrightarrow> ll \<noteq> [] \<and> gmap_ok ll"
  by (simp add: leases_inv_def)

lemma leases_new: "leases_inv s \<Longrightarrow> timers s (next_timer s) = None"
  unfolding leases_inv_def by blast

lemma leases_inv_frame:
  "leaseMap s' = leaseMap s \<Longrightarrow> timers s' = timers s \<Longrightarrow> next_timer s' = next_timer s \<Longrightarrow>
     leases_inv s' = leases_inv s"
  by (simp add: leases_inv_def lease_of_def)

lemma leases_inv_drop:
  assumes inv: "leases_inv s" and ll: "leaseMap s k = Some ll" and c: "gget ll client = Some ch"
    and s': "leaseMap s' = (leaseMap s)(k := if gdel client ll = [] then None else Some (gdel client ll))"
      "timers s' = (timers s)(ch := None)" "next_timer s' = next_timer s"
  shows "leases_inv s'"
  unfolding leases_inv_def
proof (intro conjI allI impI)
  fix k' ll' assume "leaseMap s' k' = Some ll'"
  then show "ll' \<noteq> []" "gmap_ok ll'"
    using leases_list [OF inv ll] leases_list [OF inv, of k'] by (auto simp: s' split: if_splits)
next
  fix k' client' ch'
  have drop: "lease_of s' k' client' = (if k' = k \<and> client' = client then None else lease_of s k' client')"
  proof (cases "k' = k")
    case True
    have "gget (gdel client ll) client' = (if client' = client then None else gget ll client')" by simp
    with True ll show ?thesis
      by (cases "gdel client ll = []") (auto simp: lease_of_def s' simp del: gget_gdel split: if_splits)
  next
    case False
    then show ?thesis by (simp add: lease_of_def s')
  qed
  have "timers s ch = Some (k, client)" using ll c leases_lease [OF inv, of k client ch] by (simp add: lease_of_def)
  then show "lease_of s' k' client' = Some ch' \<longleftrightarrow> timers s' ch' = Some (k', client')"
    using leases_lease [OF inv, of k' client' ch'] leases_lease [OF inv, of k client ch']
      leases_lease [OF inv, of k client ch] by (auto simp: drop s')
next
  fix ch' assume "timers s' ch' \<noteq> None"
  then show "ch' < next_timer s'" using inv by (auto simp: s' leases_inv_def split: if_splits)
qed

lemma leases_inv_put:
  assumes inv: "leases_inv s" and ll: "ll = (case leaseMap s k of None \<Rightarrow> [] | Some ll \<Rightarrow> ll)"
    and s': "leaseMap s' = (leaseMap s)(k \<mapsto> gput client (next_timer s) ll)"
      "timers s' = (case gget ll client of None \<Rightarrow> timers s | Some ch \<Rightarrow> (timers s)(ch := None))(next_timer s \<mapsto> (k, client))"
      "next_timer s' = next_timer s + 1"
  shows "leases_inv s'"
  unfolding leases_inv_def
proof (intro conjI allI impI)
  fix k' ll' assume l: "leaseMap s' k' = Some ll'"
  have "gmap_ok ll" using leases_list [OF inv, of k] by (cases "leaseMap s k") (auto simp: ll)
  moreover have "gput client (next_timer s) ll \<noteq> []" by simp
  ultimately show "ll' \<noteq> []" "gmap_ok ll'" using l leases_list [OF inv, of k'] by (auto simp: s' split: if_splits)
next
  fix k' client' ch'
  have old: "gget ll client = lease_of s k client" by (cases "leaseMap s k") (simp_all add: ll lease_of_def)
  have put: "lease_of s' k' client' =
      (if k' = k \<and> client' = client then Some (next_timer s) else lease_of s k' client')"
    by (cases "leaseMap s k") (auto simp: lease_of_def s' ll)
  have fresh: "timers s (next_timer s) = None" using inv by (rule leases_new)
  show "lease_of s' k' client' = Some ch' \<longleftrightarrow> timers s' ch' = Some (k', client')"
    using leases_lease [OF inv, of k' client' ch'] leases_lease [OF inv, of k client ch'] fresh
      leases_lease [OF inv, of k' client']
    by (cases "lease_of s k client") (auto simp: put s'(2) old)
next
  fix ch' assume "timers s' ch' \<noteq> None"
  then show "ch' < next_timer s'"
    using inv unfolding leases_inv_def
    by (auto simp: s' less_Suc_eq split: if_splits option.splits)
qed


subsection \<open>One event\<close>

definition asked :: "storage_event \<Rightarrow> cacheReq list" where
  "asked e = (case e of Ask r \<Rightarrow> if is_data (cr_typ r) then [r] else [] | TimerFires _ _ \<Rightarrow> [])"

abbreviation on_key :: "string \<Rightarrow> cacheReq list \<Rightarrow> cacheReq list" where
  "on_key k \<equiv> filter (\<lambda>r. cr_key r = k)"

text \<open>
  What an event is worth: the invariant, answers as specified, every data request answered
  or kept, and no value changed while a lease for it stays out.
\<close>

definition good_step :: "app_state \<Rightarrow> cacheReq list \<Rightarrow> app_state \<Rightarrow> storage_effect list \<Rightarrow> bool" where
  "good_step s rs s' es \<longleftrightarrow> storage_inv s' \<and>
     follows (abs_cache (cacheMap s)) (data_log es) (abs_cache (cacheMap s')) \<and>
     (\<forall>k. mset (on_key k (map fst (data_log es))) + mset (pending s' k) =
        mset (pending s k) + mset (on_key k rs)) \<and>
     (\<forall>k. leaseMap s' k \<noteq> None \<longrightarrow> abs_cache (cacheMap s') k = abs_cache (cacheMap s) k)"

lemma storage_invD:
  assumes "storage_inv s"
  shows "cache_ok (cacheMap s)" "leases_inv s" "deferred_inv s"
  using assms by (simp_all add: storage_inv_def)

lemma pending_key: "deferred_inv s \<Longrightarrow> on_key k' (pending s k) = (if k' = k then pending s k else [])"
  using deferred_buf [of s k] by (cases "defReqMap s k") (auto simp: pending_def filter_id_conv filter_empty_conv)

lemma spec_req_other: "cr_key r \<noteq> k \<Longrightarrow> fst (spec_req m r) k = m k"
  by (auto simp: spec_req_def Let_def split: storage_req.splits option.splits aval.splits)

lemma spec_log_other: "\<forall>r \<in> set rs. cr_key r \<noteq> k \<Longrightarrow> fst (spec_log m rs) k = m k"
  by (induction rs arbitrary: m) (auto split: prod.splits dest: spec_req_other [of _ k] simp: spec_req_other,
      metis fst_conv spec_req_other)

lemma good_deferred:
  assumes inv: "storage_inv s" and ll: "leaseMap s (cr_key r) = Some ll" and m: "is_modify (cr_typ r)"
  shows "\<exists>s' es. defer_modify s r ll = Some (s', es) \<and> good_step s [r] s' es"
proof -
  note I = storage_invD [OF inv]
  from defer_modify_result [OF I(3) ll m] obtain s' es where
    d: "defer_modify s r ll = Some (s', es)" "deferred_inv s'" "cacheMap s' = cacheMap s" "leaseMap s' = leaseMap s"
      "timers s' = timers s" "next_timer s' = next_timer s" "data_log es = []"
      "pending s' = (pending s)(cr_key r := pending s (cr_key r) @ [r])" by blast
  have "storage_inv s'" using I d leases_inv_frame [OF d(4-6)] by (simp add: storage_inv_def)
  with d show ?thesis by (intro exI [of _ s'] exI [of _ es]) (auto simp: good_step_def)
qed

lemma good_answer:
  assumes inv: "storage_inv s" and c: "cache_ok c" and f: "spec_req (abs_cache (cacheMap s)) r = (abs_cache c, v)"
    and d: "is_data (cr_typ r)" and l: "leaseMap s (cr_key r) = None \<or> abs_cache c = abs_cache (cacheMap s)"
  shows "good_step s [r] (s\<lparr>cacheMap := c\<rparr>) [SReply r v]"
proof -
  let ?s = "s\<lparr>cacheMap := c\<rparr>"
  note I = storage_invD [OF inv]
  have p: "pending ?s = pending s" by (simp add: pending_def fun_eq_iff)
  have "leases_inv ?s = leases_inv s" by (rule leases_inv_frame) simp_all
  moreover have "deferred_inv ?s = deferred_inv s" unfolding deferred_inv_def p by simp
  moreover have "abs_cache c k = abs_cache (cacheMap s) k" if "leaseMap s k \<noteq> None" for k
    using spec_req_other [of r k "abs_cache (cacheMap s)"] f l that by (cases "cr_key r = k") auto
  ultimately show ?thesis using I c d l follows_one [OF f]
    by (auto simp: good_step_def storage_inv_def p)
qed

text \<open>A lease goes: the key is released if it was the last.\<close>

lemma good_release:
  assumes inv: "storage_inv s" and ll: "leaseMap s k = Some ll" and c: "gget ll client = Some ch"
    and s1: "s1 = s\<lparr>timers := (timers s)(ch := None)\<rparr>"
  shows "\<exists>s' es. (if gdel client ll = [] then release_key s1 k
      else Some (s1\<lparr>leaseMap := (leaseMap s1)(k \<mapsto> gdel client ll)\<rparr>, [])) = Some (s', es) \<and> good_step s [] s' es"
proof -
  note I = storage_invD [OF inv]
  have p1: "pending s1 = pending s" by (simp add: pending_def fun_eq_iff s1)
  have d1: "deferred_inv s1" using I(3) unfolding deferred_inv_def p1 by (simp add: s1)
  show ?thesis
  proof (cases "gdel client ll = []")
    case True
    from release_key_result [OF d1, of k] I(1) obtain s' es where
      r: "release_key s1 k = Some (s', es)" "deferred_inv s'" "cache_ok (cacheMap s')"
        "leaseMap s' = (leaseMap s1)(k := None)" "timers s' = timers s1" "next_timer s' = next_timer s1"
        "pending s' = (pending s1)(k := [])" "map fst (data_log es) = pending s1 k"
        "follows (abs_cache (cacheMap s1)) (data_log es) (abs_cache (cacheMap s'))" by (auto simp: s1)
    have "leases_inv s'" by (rule leases_inv_drop [OF I(2) ll c]) (simp_all add: r s1 True)
    moreover have "abs_cache (cacheMap s') k' = abs_cache (cacheMap s) k'" if "k' \<noteq> k" for k'
    proof -
      have "on_key k' (pending s k) = []" using pending_key [OF I(3), of k' k] that by simp
      then have "\<forall>r \<in> set (pending s k). cr_key r \<noteq> k'" by (simp add: filter_empty_conv)
      from spec_log_other [OF this, of "abs_cache (cacheMap s)"] show ?thesis
        using r(8,9) p1 by (simp add: follows_def s1)
    qed
    ultimately have "good_step s [] s' es" unfolding good_step_def storage_inv_def
      using r p1 pending_key [OF I(3)] by (auto simp: s1)
    with r True show ?thesis by auto
  next
    case False
    let ?s = "s1\<lparr>leaseMap := (leaseMap s1)(k \<mapsto> gdel client ll)\<rparr>"
    have p: "pending ?s = pending s" by (simp add: pending_def fun_eq_iff s1)
    have "leases_inv ?s" by (rule leases_inv_drop [OF I(2) ll c]) (simp_all add: s1 False)
    moreover have "deferred_inv ?s" using I(3) unfolding deferred_inv_def p by (auto simp: s1)
    ultimately have "good_step s [] ?s []" using I(1) p by (auto simp: good_step_def storage_inv_def s1)
    with False show ?thesis by auto
  qed
qed

lemma good_step_append_reply:
  "good_step s rs s' es \<Longrightarrow> \<not> is_data (cr_typ r) \<Longrightarrow> good_step s rs s' (es @ [SReply r v])"
  by (simp add: good_step_def)


lemma good_put_lease:
  assumes inv: "storage_inv s" and t: "cr_typ r = S_PUT_LEASE"
  shows "\<exists>s' es. put_lease s r = Some (s', es) \<and> good_step s [] s' es"
proof (cases "banLeaseMap s (cr_key r) = None")
  case False
  then show ?thesis using inv t
    by (intro exI [of _ s] exI) (auto simp: put_lease_def Let_def good_step_def is_data_def is_modify_def)
next
  case True
  let ?k = "cr_key r" and ?c = "cr_value r"
  note I = storage_invD [OF inv]
  define ll where "ll = (case leaseMap s ?k of None \<Rightarrow> [] | Some ll \<Rightarrow> ll)"
  define s' where "s' = s\<lparr>leaseMap := (leaseMap s)(?k \<mapsto> gput ?c (next_timer s) ll),
    timers := (case gget ll ?c of None \<Rightarrow> timers s | Some ch \<Rightarrow> (timers s)(ch := None))(next_timer s \<mapsto> (?k, ?c)),
    next_timer := next_timer s + 1\<rparr>"
  have stop: "timers s ch \<noteq> None" if "gget ll ?c = Some ch" for ch
    using that leases_lease [OF I(2), of ?k ?c ch] by (cases "leaseMap s ?k") (auto simp: ll_def lease_of_def)
  have "put_lease s r = Some (s', [StartTimer ?k ?c (next_timer s), SReply r (SBool True)])"
    using True stop
    by (cases "leaseMap s ?k"; cases "gget ll ?c")
       (auto simp: put_lease_def Let_def start_timer_def stop_timer_def s'_def ll_def)
  moreover have p: "pending s' = pending s" by (simp add: pending_def fun_eq_iff s'_def)
  moreover have "leases_inv s'"
    by (rule leases_inv_put [OF I(2) ll_def]) (simp_all add: s'_def)
  moreover have "deferred_inv s'"
    using I(3) unfolding deferred_inv_def p by (auto simp: s'_def)
  ultimately show ?thesis using I(1) t p
    by (intro exI [of _ s'] exI) (auto simp: good_step_def storage_inv_def s'_def is_data_def is_modify_def)
qed

lemma good_revoke_lease:
  assumes inv: "storage_inv s" and t: "cr_typ r = REVOKE_LEASE"
  shows "\<exists>s' es. revoke_lease s r = Some (s', es) \<and> good_step s [] s' es"
proof -
  let ?k = "cr_key r" and ?c = "cr_value r"
  have d: "\<not> is_data (cr_typ r)" by (simp add: t is_data_def is_modify_def)
  have same: "good_step s [] s [SReply r v]" for v
    using inv d by (auto simp: good_step_def)
  show ?thesis
  proof (cases "lease_of s ?k ?c")
    case None
    then have "revoke_lease s r = Some (s, [SReply r (SBool True)])"
      by (auto simp: revoke_lease_def lease_of_def split: option.splits)
    with same show ?thesis by blast
  next
    case (Some ch)
    then obtain ll where ll: "leaseMap s ?k = Some ll" "gget ll ?c = Some ch"
      by (auto simp: lease_of_def split: option.splits)
    have "timers s ch \<noteq> None" using leases_lease [OF storage_invD(2) [OF inv], of ?k ?c ch] Some by simp
    then have "revoke_lease s r = map_option (\<lambda>(s', es). (s', es @ [SReply r (SBool True)]))
        (let s1 = s\<lparr>timers := (timers s)(ch := None)\<rparr> in
         if gdel ?c ll = [] then release_key s1 ?k
         else Some (s1\<lparr>leaseMap := (leaseMap s1)(?k \<mapsto> gdel ?c ll)\<rparr>, []))"
      by (auto simp: revoke_lease_def ll stop_timer_def Let_def)
    with good_release [OF inv ll refl] good_step_append_reply [OF _ d] show ?thesis
      unfolding Let_def by fastforce
  qed
qed

text \<open>A timer that fires.\<close>

lemma good_timer:
  assumes inv: "storage_inv s" and t: "leaseTimer s ch c = Some (s1, r)"
  shows "\<exists>s' es. appHandler s1 r = Some (s', es) \<and> good_step s [] s' es"
proof -
  from t obtain k client where kc: "timers s ch = Some (k, client)"
    and s1: "s1 = s\<lparr>timers := (timers s)(ch := None)\<rparr>" and r: "r = timer_request (k, client) c"
    by (auto simp: leaseTimer_def)
  have ty: "cr_typ r = REMOVE_LEASE" "cr_key r = k" "cr_value r = client" by (simp_all add: r timer_request_def)
  have d: "\<not> is_data (cr_typ r)" by (simp add: ty is_data_def is_modify_def)
  have "lease_of s k client = Some ch" using leases_lease [OF storage_invD(2) [OF inv]] kc by simp
  then obtain ll where ll: "leaseMap s k = Some ll" "gget ll client = Some ch"
    by (auto simp: lease_of_def split: option.splits)
  have "appHandler s1 r = map_option (\<lambda>(s', es). (s', es @ [SReply r (SBool True)]))
      (if gdel client ll = [] then release_key s1 k
       else Some (s1\<lparr>leaseMap := (leaseMap s1)(k \<mapsto> gdel client ll)\<rparr>, []))"
    using ll by (simp add: appHandler_def pre_check_def process_request_def is_modify_def remove_lease_def
        Let_def ty s1)
  with good_release [OF inv ll s1] good_step_append_reply [OF _ d] show ?thesis by fastforce
qed

text \<open>Every event: the handler comes back, and the step is good.\<close>

lemma good_ask:
  assumes inv: "storage_inv s" and t: "cr_typ r \<noteq> REMOVE_LEASE"
  shows "\<exists>s' es. appHandler s r = Some (s', es) \<and> good_step s (asked (Ask r)) s' es"
proof (cases "pre_check (cacheMap s) r")
  case (Some v)
  note P = pre_check_spec [OF storage_invD(1) [OF inv] Some]
  have d: "is_data (cr_typ r)" using P(1) by (simp add: is_data_def)
  have "good_step s [r] (s\<lparr>cacheMap := cacheMap s\<rparr>) [SReply r v]"
    by (rule good_answer [OF inv storage_invD(1) [OF inv] P(2) d]) simp
  with Some d show ?thesis by (simp add: appHandler_def asked_def)
next
  case None
  show ?thesis
  proof (cases "is_modify (cr_typ r)")
    case True
    then have d: "is_data (cr_typ r)" by (simp add: is_data_def)
    show ?thesis
    proof (cases "leaseMap s (cr_key r)")
      case (Some ll)
      with good_deferred [OF inv Some True] None True d show ?thesis
        by (simp add: appHandler_def asked_def)
    next
      case free: None
      from modify_spec [OF storage_invD(1) [OF inv] True] obtain c' where
        c': "modify (cacheMap s) r = Some (c', snd (spec_req (abs_cache (cacheMap s)) r))" "cache_ok c'"
          "abs_cache c' = fst (spec_req (abs_cache (cacheMap s)) r)" by blast
      have "good_step s [r] (s\<lparr>cacheMap := c'\<rparr>) [SReply r (snd (spec_req (abs_cache (cacheMap s)) r))]"
        by (rule good_answer [OF inv c'(2) _ d]) (simp_all add: c'(3) free)
      moreover have "appHandler s r = Some (s\<lparr>cacheMap := c'\<rparr>, [SReply r (snd (spec_req (abs_cache (cacheMap s)) r))])"
        using None free c'(1) True
        by (cases "cr_typ r") (simp_all add: appHandler_def process_request_def is_modify_def)
      ultimately show ?thesis using d by (simp add: asked_def)
    qed
  next
    case False
    then have h: "appHandler s r = process_request s r"
      using None by (simp add: appHandler_def split: option.split)
    show ?thesis
    proof (cases "is_data (cr_typ r)")
      case True
      have "\<exists>v. process_request s r = Some (s, [SReply r v]) \<and>
          spec_req (abs_cache (cacheMap s)) r = (abs_cache (cacheMap s), v)"
        using True False get_spec [OF storage_invD(1) [OF inv], of r]
        by (auto simp: is_data_def process_request_def)
      then obtain v where v: "process_request s r = Some (s, [SReply r v])"
        "spec_req (abs_cache (cacheMap s)) r = (abs_cache (cacheMap s), v)" by blast
      have "good_step s [r] (s\<lparr>cacheMap := cacheMap s\<rparr>) [SReply r v]"
        by (rule good_answer [OF inv storage_invD(1) [OF inv] v(2) True]) simp
      with h v True show ?thesis by (simp add: asked_def)
    next
      case nd: False
      with False t have "cr_typ r = S_PUT_LEASE \<or> cr_typ r = REVOKE_LEASE"
        by (cases "cr_typ r") (simp_all add: is_data_def is_modify_def)
      with good_put_lease [OF inv, of r] good_revoke_lease [OF inv, of r] h nd show ?thesis
        by (auto simp: process_request_def asked_def)
    qed
  qed
qed

lemma storage_exec_good:
  assumes inv: "storage_inv s" and e: "storage_exec s e = Some (s', es)"
  shows "good_step s (asked e) s' es"
proof (cases e)
  case (Ask r)
  with e have "cr_typ r \<noteq> REMOVE_LEASE" "appHandler s r = Some (s', es)" by (auto split: if_splits)
  with good_ask [OF inv] Ask show ?thesis by fastforce
next
  case (TimerFires ch c)
  with e obtain s1 r where "leaseTimer s ch c = Some (s1, r)" "appHandler s1 r = Some (s', es)"
    by (auto split: option.splits)
  with good_timer [OF inv] TimerFires show ?thesis by (fastforce simp: asked_def)
qed

end
