(* ===== verification/Storage_Properties.thy ===== *)
theory Storage_Properties
  imports Storage_Spec
begin

section \<open>Properties of the storage server's handler\<close>

text \<open>
  Runs of the handler from the empty store: what it answers, that it answers, and what a
  lease guarantees.
\<close>

subsection \<open>Runs\<close>

definition storage_step :: "app_state \<Rightarrow> storage_event \<Rightarrow> app_state option" where
  "storage_step s e = map_option fst (storage_exec s e)"

interpretation storage: invariant_machine "\<lambda>s. s = app_init" storage_step storage_inv
proof
  show "storage_inv s" if "s = app_init" for s using that by (simp add: storage_inv_init)
  show "storage_inv t" if "storage_inv s" "storage_step s e = Some t" for s e t
    using that storage_exec_good [OF that(1)] by (auto simp: storage_step_def good_step_def)
qed

text \<open>A run with its effects.\<close>

fun storage_run :: "app_state \<Rightarrow> storage_event list \<Rightarrow> (app_state \<times> storage_effect list) option" where
  "storage_run s [] = Some (s, [])"
| "storage_run s (e # evs) =
     (case storage_exec s e of
        None \<Rightarrow> None
      | Some (s1, es) \<Rightarrow> map_option (\<lambda>(s2, fs). (s2, es @ fs)) (storage_run s1 evs))"

lemma storage_run_step: "storage_run s evs = Some (s', es) \<Longrightarrow> run storage_step s evs = Some s'"
  by (induction evs arbitrary: s es) (auto simp: storage_step_def split: option.splits)

lemma storage_run_inv: "storage_run app_init evs = Some (s, es) \<Longrightarrow> storage_inv s"
  by (rule storage.inv_run [OF refl storage_run_step])

definition asked_all :: "storage_event list \<Rightarrow> cacheReq list" where
  "asked_all evs = concat (map asked evs)"

lemma storage_run_good:
  "storage_inv s \<Longrightarrow> storage_run s evs = Some (s', es) \<Longrightarrow>
     follows (abs_cache (cacheMap s)) (data_log es) (abs_cache (cacheMap s')) \<and>
     (\<forall>k. mset (on_key k (map fst (data_log es))) + mset (pending s' k) =
        mset (pending s k) + mset (on_key k (asked_all evs)))"
proof (induction evs arbitrary: s es)
  case Nil
  then show ?case by (simp add: asked_all_def)
next
  case (Cons e evs)
  from Cons.prems(2) obtain s1 es1 es2 where e: "storage_exec s e = Some (s1, es1)"
    and r: "storage_run s1 evs = Some (s', es2)" and es: "es = es1 @ es2"
    by (auto split: option.splits)
  have g: "good_step s (asked e) s1 es1" by (rule storage_exec_good [OF Cons.prems(1) e])
  then have "storage_inv s1" by (simp add: good_step_def)
  note IH = Cons.IH [OF this r]
  have "mset (on_key k (map fst (data_log es))) + mset (pending s' k) =
      mset (pending s k) + mset (on_key k (asked_all (e # evs)))" for k
  proof -
    let ?A = "mset (on_key k (map fst (data_log es1)))" and ?B = "mset (on_key k (map fst (data_log es2)))"
    have 1: "?A + mset (pending s1 k) = mset (pending s k) + mset (on_key k (asked e))"
      using g by (simp add: good_step_def)
    have 2: "?B + mset (pending s' k) = mset (pending s1 k) + mset (on_key k (asked_all evs))"
      using IH by blast
    have "?A + ?B + mset (pending s' k) = ?A + (mset (pending s1 k) + mset (on_key k (asked_all evs)))"
      by (simp only: add.assoc 2)
    also have "\<dots> = mset (pending s k) + (mset (on_key k (asked e)) + mset (on_key k (asked_all evs)))"
      by (simp only: add.assoc [symmetric] 1)
    finally show ?thesis by (simp add: es asked_all_def)
  qed
  moreover have "follows (abs_cache (cacheMap s)) (data_log es) (abs_cache (cacheMap s'))"
    using g IH by (auto simp: es good_step_def intro: follows_append)
  ultimately show ?case by blast
qed

subsection \<open>Example runs\<close>


text \<open>A value is stored and read under a lease; a second write waits for the lease.\<close>

definition leased_write :: "storage_event list" where
  "leased_write = map Ask [ask PUT_VALUE ''k'' ''a'' 0, ask GET_VALUE ''k'' '''' 1, ask S_PUT_LEASE ''k'' ''c'' 2,
     ask PUT_VALUE ''k'' ''b'' 3, ask GET_VALUE ''k'' '''' 4]"

text \<open>A list under a lease: a removal waits, the lease is given back.\<close>

definition leased_list :: "storage_event list" where
  "leased_list = map Ask [ask APPEND_LIST_VALUE ''l'' ''x'' 0, ask APPEND_LIST_VALUE ''l'' ''y'' 1,
     ask APPEND_LIST_VALUE ''l'' ''x'' 2, ask S_PUT_LEASE ''l'' ''c'' 3, ask REMOVE_LIST_VALUE ''l'' ''x'' 4,
     ask REVOKE_LEASE ''l'' ''c'' 5, ask GET_LIST_VALUE ''l'' '''' 6]"

lemma leased_write_result:
  "map_option (\<lambda>(s, es). (map snd (data_log es), map cr_replyc (pending s ''k''), get_value (cacheMap s) ''k'',
       lease_of s ''k'' ''c''))
     (storage_run app_init leased_write) =
   Some ([SBool True, SStr ''a'', SStr ''a''], [3], SStr ''a'', Some 0)"
  by code_simp

lemma leased_list_result:
  "map_option (\<lambda>(s, es). (map (cr_replyc \<circ> fst) (data_log es), map snd (data_log es), pending s ''l'', lease_of s ''l'' ''c''))
     (storage_run app_init leased_list) =
   Some ([0, 1, 2, 4, 6], [SBool True, SBool True, SBool False, SBool True, SList [''y'']], [], None)"
  by code_simp


subsection \<open>Properties\<close>

text \<open>C4: The storage server refines the specification: whatever requests, leases and timers
  interleave, the answers to data requests, in the order they are given, are those of a map
  of strings and lists, which the values of the server represent.\<close>

theorem storage_linearizable:
  assumes "storage_run app_init evs = Some (s, es)"
  shows "spec_log Map.empty (map fst (data_log es)) = (abs_cache (cacheMap s), map snd (data_log es))"
  using storage_run_good [OF storage_inv_init assms] by (simp add: follows_def app_init_def)

theorem storage_linearizable_witness:
  "\<exists>s es. storage_run app_init leased_list = Some (s, es) \<and>
     spec_log Map.empty (map fst (data_log es)) = (abs_cache (cacheMap s), map snd (data_log es))"
proof -
  obtain s es where "storage_run app_init leased_list = Some (s, es)" using leased_list_result by fastforce
  with storage_linearizable [OF this] show ?thesis by blast
qed

text \<open>No request is lost, answered twice or stuck: on every key the data requests asked are
  those answered and those kept, and requests are kept only while a lease on the key is out.\<close>

theorem storage_requests_answered:
  assumes "storage_run app_init evs = Some (s, es)"
  shows "mset (on_key k (map fst (data_log es))) + mset (pending s k) = mset (on_key k (asked_all evs)) \<and>
    (pending s k \<noteq> [] \<longrightarrow> leaseMap s k \<noteq> None)"
proof -
  have p: "pending app_init k = []" by (simp add: pending_def app_init_def)
  from storage_run_good [OF storage_inv_init assms]
  have "mset (on_key k (map fst (data_log es))) + mset (pending s k) =
      mset (pending app_init k) + mset (on_key k (asked_all evs))" by blast
  moreover have "deferred_inv s" using storage_run_inv [OF assms] by (simp add: storage_inv_def)
  ultimately show ?thesis using deferred_lease p by simp
qed

theorem storage_requests_answered_witness:
  "\<exists>s es. storage_run app_init leased_write = Some (s, es) \<and> pending s ''k'' \<noteq> [] \<and> leaseMap s ''k'' \<noteq> None"
proof -
  obtain s es where s: "storage_run app_init leased_write = Some (s, es)" "pending s ''k'' \<noteq> []"
    using leased_write_result by auto
  with storage_requests_answered [OF s(1), of "''k''"] show ?thesis by blast
qed

text \<open>C10: A lease protects the value: an event after which some client still holds a lease on a
  key has not changed the value of the key.\<close>

theorem lease_protects_value:
  assumes "storage_run app_init evs = Some (s, es)" and "storage_exec s e = Some (s', es')"
    and "lease_of s' k client = Some ch"
  shows "abs_cache (cacheMap s') k = abs_cache (cacheMap s) k"
proof -
  have "leaseMap s' k \<noteq> None" using assms(3) by (auto simp: lease_of_def split: option.splits)
  with storage_exec_good [OF storage_run_inv [OF assms(1)] assms(2)] show ?thesis
    by (simp add: good_step_def)
qed

theorem lease_protects_value_witness:
  "\<exists>s es s' es'. storage_run app_init leased_write = Some (s, es) \<and>
     storage_exec s (Ask (ask PUT_VALUE ''k'' ''d'' 5)) = Some (s', es') \<and>
     abs_cache (cacheMap s') ''k'' = abs_cache (cacheMap s) ''k''"
proof -
  have "map_option (\<lambda>(s, es). map_option (\<lambda>(s', es'). lease_of s' ''k'' ''c'')
      (storage_exec s (Ask (ask PUT_VALUE ''k'' ''d'' 5)))) (storage_run app_init leased_write) = Some (Some (Some 0))"
    by code_simp
  then obtain s es s' es' where "storage_run app_init leased_write = Some (s, es)"
    "storage_exec s (Ask (ask PUT_VALUE ''k'' ''d'' 5)) = Some (s', es')" "lease_of s' ''k'' ''c'' = Some 0"
    by auto
  with lease_protects_value [OF this] show ?thesis by blast
qed

text \<open>C22: The handler always comes back: in every reachable state it serves every request a
  client can send and every timer that fires; no pointer is nil, and a timer it stops is
  there to be stopped.\<close>

theorem storage_never_blocks:
  assumes "storage_run app_init evs = Some (s, es)"
    and "case e of Ask r \<Rightarrow> cr_typ r \<noteq> REMOVE_LEASE | TimerFires ch c \<Rightarrow> timers s ch \<noteq> None"
  shows "storage_exec s e \<noteq> None"
proof (cases e)
  case (Ask r)
  with assms(2) have t: "cr_typ r \<noteq> REMOVE_LEASE" by simp
  from good_ask [OF storage_run_inv [OF assms(1)] t] show ?thesis using Ask t by auto
next
  case (TimerFires ch c)
  with assms(2) obtain kc where kc: "timers s ch = Some kc" by auto
  have "leaseTimer s ch c = Some (s\<lparr>timers := (timers s)(ch := None)\<rparr>, timer_request kc c)"
    by (simp add: leaseTimer_def kc)
  from good_timer [OF storage_run_inv [OF assms(1)] this] show ?thesis
    using TimerFires by (auto simp: leaseTimer_def kc)
qed

theorem storage_never_blocks_witness:
  "\<exists>s es. storage_run app_init leased_write = Some (s, es) \<and> storage_exec s (TimerFires 0 9) \<noteq> None"
proof -
  obtain s es where s: "storage_run app_init leased_write = Some (s, es)" "lease_of s ''k'' ''c'' = Some 0"
    using leased_write_result by auto
  then have "timers s 0 \<noteq> None"
    using leases_lease [OF storage_invD(2) [OF storage_run_inv [OF s(1)]], of "''k''" "''c''" 0] by simp
  with storage_never_blocks [OF s(1), of "TimerFires 0 9"] s(1) show ?thesis by auto
qed


lemma release_key_leases: "release_key s k = Some (s', es) \<Longrightarrow> leaseMap s' = (leaseMap s)(k := None)"
  by (auto simp: release_key_def Let_def split: option.splits)

text \<open>A timer that fires takes exactly its lease away.\<close>

lemma timer_leases:
  assumes inv: "storage_inv s" and ll: "leaseMap s k = Some ll" and c: "gget ll client = Some ch"
  shows "\<exists>s' es. storage_exec s (TimerFires ch n) = Some (s', es) \<and>
    leaseMap s' = (leaseMap s)(k := if gdel client ll = [] then None else Some (gdel client ll))"
proof -
  have kc: "timers s ch = Some (k, client)"
    using leases_lease [OF storage_invD(2) [OF inv], of k client ch] ll c by (simp add: lease_of_def)
  let ?s1 = "s\<lparr>timers := (timers s)(ch := None)\<rparr>"
  have "storage_exec s (TimerFires ch n) =
      map_option (\<lambda>(s', es). (s', es @ [SReply (timer_request (k, client) n) (SBool True)]))
        (if gdel client ll = [] then release_key ?s1 k
         else Some (?s1\<lparr>leaseMap := (leaseMap ?s1)(k \<mapsto> gdel client ll)\<rparr>, []))"
    using ll by (simp add: leaseTimer_def kc appHandler_def pre_check_def process_request_def is_modify_def
        remove_lease_def Let_def timer_request_def)
  then show ?thesis
    using good_release [OF inv ll c refl] by (auto dest: release_key_leases split: if_splits)
qed

subsection \<open>What a request does to the leases\<close>

lemma modify_moves:
  assumes "appHandler s r = Some (s', es)" and "is_data (cr_typ r)"
  shows "leaseMap s' = leaseMap s" and "next_timer s' = next_timer s"
proof -
  have "leaseMap s' = leaseMap s \<and> next_timer s' = next_timer s"
    using assms
    by (auto simp: appHandler_def process_request_def is_data_def is_modify_def defer_modify_def Let_def
        split: option.splits if_splits storage_req.splits)
  then show "leaseMap s' = leaseMap s" and "next_timer s' = next_timer s" by simp_all
qed

definition lease_moves :: "app_state \<Rightarrow> app_state \<Rightarrow> string \<Rightarrow> string \<Rightarrow> nat option \<Rightarrow> bool" where
  "lease_moves s s' k c ch \<longleftrightarrow>
     (\<forall>k' c'. lease_of s' k' c' = (if k' = k \<and> c' = c then ch else lease_of s k' c'))"

lemma drop_moves:
  assumes "leaseMap s k = Some ll"
    and "leaseMap s' = (leaseMap s)(k := if gdel c ll = [] then None else Some (gdel c ll))"
  shows "lease_moves s s' k c None"
proof -
  have "gget (gdel c ll) c' = (if c' = c then None else gget ll c')" for c' by simp
  moreover have "gget [] c' = None" for c' by simp
  ultimately show ?thesis
    using assms by (auto simp: lease_moves_def lease_of_def simp del: gget_gdel split: if_splits) metis+
qed

lemma release_key_timer: "release_key s k = Some (s', es) \<Longrightarrow> next_timer s' = next_timer s"
  by (auto simp: release_key_def Let_def split: option.splits)

lemma revoke_moves:
  assumes "appHandler s r = Some (s', es)" and t: "cr_typ r = REVOKE_LEASE"
  shows "lease_moves s s' (cr_key r) (cr_value r) None \<and> next_timer s' = next_timer s"
proof -
  let ?k = "cr_key r" and ?c = "cr_value r"
  have p: "revoke_lease s r = Some (s', es)"
    using assms by (auto simp: appHandler_def pre_check_def process_request_def is_modify_def split: option.splits)
  show ?thesis
  proof (cases "lease_of s ?k ?c")
    case None
    with p have "s' = s" by (auto simp: revoke_lease_def lease_of_def split: option.splits)
    with None show ?thesis by (simp add: lease_moves_def)
  next
    case (Some ch)
    then obtain ll where ll: "leaseMap s ?k = Some ll" "gget ll ?c = Some ch"
      by (auto simp: lease_of_def split: option.splits)
    have "leaseMap s' = (leaseMap s)(?k := if gdel ?c ll = [] then None else Some (gdel ?c ll)) \<and>
        next_timer s' = next_timer s"
      using p ll by (auto simp: revoke_lease_def stop_timer_def Let_def dest: release_key_leases release_key_timer
          split: if_splits)
    with drop_moves [OF ll(1)] show ?thesis by blast
  qed
qed

lemma timer_moves:
  assumes inv: "storage_inv s" and "storage_exec s (TimerFires ch n) = Some (s', es)"
  obtains k c where "lease_of s k c = Some ch" "lease_moves s s' k c None" "next_timer s' = next_timer s"
proof -
  from assms(2) obtain k c where kc: "timers s ch = Some (k, c)"
    by (auto simp: leaseTimer_def split: option.splits)
  then have l: "lease_of s k c = Some ch" using leases_lease [OF storage_invD(2) [OF inv]] by simp
  then obtain ll where ll: "leaseMap s k = Some ll" "gget ll c = Some ch"
    by (auto simp: lease_of_def split: option.splits)
  from timer_leases [OF inv ll, of n] assms(2)
  have lm: "leaseMap s' = (leaseMap s)(k := if gdel c ll = [] then None else Some (gdel c ll))" by auto
  have nt: "next_timer s' = next_timer s"
    using assms(2) kc ll
    by (auto simp: leaseTimer_def appHandler_def pre_check_def process_request_def is_modify_def
        remove_lease_def Let_def timer_request_def dest: release_key_timer split: option.splits if_splits)
  show thesis by (rule that [OF l drop_moves [OF ll(1) lm] nt])
qed


subsection \<open>Leases that are given back\<close>

text \<open>
  While requests are kept for a key no new lease on it is granted (the ban), so the leases that are
  out when a request is kept are the ones it waits for. \<open>gives_back k client ch e\<close>: the event \<open>e\<close>
  gives the lease of \<open>client\<close> on \<open>k\<close> back, whose timer is \<open>ch\<close>: the client's revocation comes back, or the
  timer fires.
\<close>

definition gives_back :: "string \<Rightarrow> string \<Rightarrow> nat \<Rightarrow> storage_event \<Rightarrow> bool" where
  "gives_back k client ch e =
     (case e of
        TimerFires ch' n \<Rightarrow> ch' = ch
      | Ask r \<Rightarrow> cr_typ r = REVOKE_LEASE \<and> cr_key r = k \<and> cr_value r = client)"

lemma release_key_ban:
  "release_key s k = Some (s', es) \<Longrightarrow> k' \<noteq> k \<Longrightarrow> banLeaseMap s' k' = banLeaseMap s k'"
  by (auto simp: release_key_def Let_def split: option.splits)

lemma data_ban:
  assumes "appHandler s r = Some (s', es)" and "is_data (cr_typ r)" and "banLeaseMap s k \<noteq> None"
  shows "banLeaseMap s' k \<noteq> None"
  using assms
  by (auto simp: appHandler_def process_request_def is_data_def is_modify_def defer_modify_def Let_def
      split: option.splits if_splits storage_req.splits)

lemma put_lease_banned:
  assumes "appHandler s r = Some (s', es)" and "cr_typ r = S_PUT_LEASE" and ban: "banLeaseMap s k \<noteq> None"
  shows "banLeaseMap s' k \<noteq> None" and "leaseMap s' k = leaseMap s k"
proof -
  have p: "put_lease s r = Some (s', es)"
    using assms(1,2) by (auto simp: appHandler_def pre_check_def process_request_def is_modify_def split: option.splits)
  have "banLeaseMap s' k \<noteq> None \<and> leaseMap s' k = leaseMap s k"
    using p ban by (cases "cr_key r = k")
      (auto simp: put_lease_def start_timer_def stop_timer_def Let_def split: option.splits if_splits)
  then show "banLeaseMap s' k \<noteq> None" and "leaseMap s' k = leaseMap s k" by simp_all
qed

lemma revoke_banned:
  assumes "appHandler s r = Some (s', es)" and "cr_typ r = REVOKE_LEASE" and "banLeaseMap s k \<noteq> None"
    and "leaseMap s' k \<noteq> None"
  shows "banLeaseMap s' k \<noteq> None"
proof -
  have p: "revoke_lease s r = Some (s', es)"
    using assms(1,2) by (auto simp: appHandler_def pre_check_def process_request_def is_modify_def split: option.splits)
  show ?thesis
    using p assms(3,4) release_key_ban release_key_leases
    by (cases "cr_key r = k") (fastforce simp: revoke_lease_def stop_timer_def Let_def split: option.splits if_splits)+
qed

lemma timer_banned:
  assumes "storage_exec s (TimerFires ch n) = Some (s', es)" and "banLeaseMap s k \<noteq> None" and "leaseMap s' k \<noteq> None"
  shows "banLeaseMap s' k \<noteq> None"
proof -
  from assms(1) obtain kc where "timers s ch = Some kc" by (auto simp: leaseTimer_def split: option.splits)
  with assms(1) have p: "remove_lease (s\<lparr>timers := (timers s)(ch := None)\<rparr>) (timer_request kc n) = Some (s', es)"
    by (auto simp: leaseTimer_def appHandler_def pre_check_def process_request_def is_modify_def timer_request_def
        split: option.splits)
  show ?thesis
    using p assms(2,3) release_key_ban release_key_leases
    by (cases "fst kc = k") (fastforce simp: remove_lease_def timer_request_def Let_def split: option.splits if_splits)+
qed

text \<open>One event while requests are kept: the ban stays, and the leases left are old ones that the
  event has not given back.\<close>

lemma waiting_step:
  assumes inv: "storage_inv s" and e: "storage_exec s e = Some (s', es)" and p: "pending s k \<noteq> []"
    and l: "leaseMap s' k \<noteq> None"
  shows "pending s' k \<noteq> [] \<and>
    (\<forall>c ch. lease_of s' k c = Some ch \<longrightarrow> lease_of s k c = Some ch \<and> \<not> gives_back k c ch e)"
proof -
  have inv': "storage_inv s'" using storage_exec_good [OF inv e] by (simp add: good_step_def)
  have ban: "banLeaseMap s k \<noteq> None" using deferred_ban [OF storage_invD(3) [OF inv]] p by simp
  have timers': "\<And>k c ch. lease_of s k c = Some ch \<longleftrightarrow> timers s ch = Some (k, c)"
    using leases_lease [OF storage_invD(2) [OF inv]] by blast
  have "banLeaseMap s' k \<noteq> None \<and>
    (\<forall>c ch. lease_of s' k c = Some ch \<longrightarrow> lease_of s k c = Some ch \<and> \<not> gives_back k c ch e)"
  proof (cases e)
    case (Ask r)
    with e have h: "appHandler s r = Some (s', es)" and t: "cr_typ r \<noteq> REMOVE_LEASE" by (auto split: if_splits)
    consider "is_data (cr_typ r)" | "cr_typ r = S_PUT_LEASE" | "cr_typ r = REVOKE_LEASE"
      using t by (cases "cr_typ r") (auto simp: is_data_def is_modify_def)
    then show ?thesis
    proof cases
      case 1
      with modify_moves(1) [OF h] data_ban [OF h 1 ban] show ?thesis
        by (auto simp: Ask gives_back_def lease_of_def is_data_def is_modify_def)
    next
      case 2
      with put_lease_banned [OF h 2 ban] show ?thesis by (auto simp: Ask gives_back_def lease_of_def)
    next
      case 3
      with revoke_moves [OF h 3] revoke_banned [OF h 3 ban l] show ?thesis
        by (auto simp: Ask gives_back_def lease_moves_def)
    qed
  next
    case (TimerFires ch n)
    from timer_moves [OF inv e [unfolded TimerFires]] obtain k' c' where
      kc: "lease_of s k' c' = Some ch" "lease_moves s s' k' c' None" by blast
    have "lease_of s k c = Some ch' \<and> ch' \<noteq> ch" if l': "lease_of s' k c = Some ch'" for c ch'
    proof -
      from kc(2) l' have "(k', c') \<noteq> (k, c)" "lease_of s k c = Some ch'" by (auto simp: lease_moves_def split: if_splits)
      moreover from this(2) have "ch' = ch \<Longrightarrow> (k, c) = (k', c')" using kc(1) timers'  by (metis option.inject)
      ultimately show ?thesis by blast
    qed
    with timer_banned [OF e [unfolded TimerFires] ban l] show ?thesis by (auto simp: TimerFires gives_back_def)
  qed
  with deferred_ban [OF storage_invD(3) [OF inv'], of k] show ?thesis by (auto split: if_splits)
qed

text \<open>When every lease is given back, there is a moment without leases on the key.\<close>

lemma leases_run_out:
  assumes "storage_inv s" and "storage_run s evs = Some (s', es)" and "pending s k \<noteq> []"
    and "\<And>c ch. lease_of s k c = Some ch \<Longrightarrow> \<exists>e \<in> set evs. gives_back k c ch e"
  shows "\<exists>xs ys s1 es1 es2. evs = xs @ ys \<and> storage_run s xs = Some (s1, es1) \<and>
    storage_run s1 ys = Some (s', es2) \<and> es = es1 @ es2 \<and> leaseMap s1 k = None"
  using assms
proof (induction evs arbitrary: s es)
  case Nil
  have "leaseMap s k = None"
  proof (rule ccontr)
    assume "leaseMap s k \<noteq> None"
    then obtain ll where ll: "leaseMap s k = Some ll" by blast
    with leases_list [OF storage_invD(2) [OF Nil.prems(1)] ll] obtain c ch rest where "ll = (c, ch) # rest"
      by (cases ll) auto
    with ll have "lease_of s k c = Some ch" by (simp add: lease_of_def)
    with Nil.prems(4) show False by force
  qed
  with deferred_lease [OF storage_invD(3) [OF Nil.prems(1)] Nil.prems(3)] show ?case by simp
next
  case (Cons e evs)
  from Cons.prems(2) obtain s1 es1 es2 where e: "storage_exec s e = Some (s1, es1)"
    and r: "storage_run s1 evs = Some (s', es2)" and es: "es = es1 @ es2" by (auto split: option.splits)
  show ?case
  proof (cases "leaseMap s1 k = None")
    case True
    with e r es show ?thesis by (intro exI [of _ "[e]"] exI [of _ evs]) simp
  next
    case False
    have inv: "storage_inv s1" using storage_exec_good [OF Cons.prems(1) e] by (simp add: good_step_def)
    note w = waiting_step [OF Cons.prems(1) e Cons.prems(3) False]
    have "\<exists>d \<in> set evs. gives_back k c ch d" if "lease_of s1 k c = Some ch" for c ch
      using w that Cons.prems(4) [of c ch] by auto
    from Cons.IH [OF inv r _ this] w obtain xs ys s2 fs1 fs2 where
      "evs = xs @ ys" "storage_run s1 xs = Some (s2, fs1)" "storage_run s2 ys = Some (s', fs2)"
      "es2 = fs1 @ fs2" "leaseMap s2 k = None" by blast
    with e es show ?thesis by (intro exI [of _ "e # xs"] exI [of _ ys]) simp
  qed
qed

text \<open>The timers of the leases on a key, fired one after the other.\<close>

lemma timers_release:
  assumes "storage_inv s" and "leaseMap s k = Some ll"
  shows "storage_run s (map (\<lambda>(c, ch). TimerFires ch n) ll) \<noteq> None"
  using assms
proof (induction ll arbitrary: s)
  case Nil
  then show ?case by simp
next
  case (Cons l ll)
  obtain c ch where l: "l = (c, ch)" by fastforce
  have "gget (l # ll) c = Some ch" by (simp add: l)
  from timer_leases [OF Cons.prems this, of n] obtain s1 es1 where
    e: "storage_exec s (TimerFires ch n) = Some (s1, es1)" and
    l1: "leaseMap s1 = (leaseMap s)(k := if gdel c (l # ll) = [] then None else Some (gdel c (l # ll)))" by blast
  have inv1: "storage_inv s1" using storage_exec_good [OF Cons.prems(1) e] by (simp add: good_step_def)
  have "c \<notin> fst ` set ll"
    using leases_list [OF storage_invD(2) [OF Cons.prems(1)] Cons.prems(2)] by (simp add: gmap_ok_def l)
  then have d: "gdel c (l # ll) = ll" by (simp add: l)
  show ?case
  proof (cases "ll = []")
    case True
    with e show ?thesis by (simp add: l)
  next
    case False
    with l1 d have "leaseMap s1 k = Some ll" by simp
    from Cons.IH [OF inv1 this] e show ?thesis by (auto simp: l)
  qed
qed

text \<open>C21: A deferred write is answered once the leases on its key are given back, and this needs no
  help of the clients. Let \<open>ll\<close> be the leases on a key that are out in a reachable state. In every run
  from there, whatever else happens in it, in which each of these leases is given back in any way
  and order (a revocation comes back, or the timer of the lease fires), every request kept for the
  key is answered. The timers of these leases can fire, one after the other, and are such a run.\<close>

theorem deferred_answered:
  assumes "storage_run app_init evs = Some (s, es)" and "leaseMap s k = Some ll"
  shows "(\<forall>evs' s' es'. storage_run s evs' = Some (s', es') \<longrightarrow>
        (\<forall>(client, ch) \<in> set ll. \<exists>e \<in> set evs'. gives_back k client ch e) \<longrightarrow>
        mset (pending s k) \<subseteq># mset (on_key k (map fst (data_log es')))) \<and>
    storage_run s (map (\<lambda>(client, ch). TimerFires ch n) ll) \<noteq> None"
proof (intro conjI allI impI)
  note inv = storage_run_inv [OF assms(1)]
  show "storage_run s (map (\<lambda>(client, ch). TimerFires ch n) ll) \<noteq> None"
    by (rule timers_release [OF inv assms(2)])
  fix evs' s' es'
  assume run: "storage_run s evs' = Some (s', es')"
    and given: "\<forall>(client, ch) \<in> set ll. \<exists>e \<in> set evs'. gives_back k client ch e"
  show "mset (pending s k) \<subseteq># mset (on_key k (map fst (data_log es')))"
  proof (cases "pending s k = []")
    case False
    have "\<exists>e \<in> set evs'. gives_back k c ch e" if "lease_of s k c = Some ch" for c ch
      using given that map_of_SomeD [of ll c ch] by (auto simp: lease_of_def assms(2))
    from leases_run_out [OF inv run False this] obtain xs ys s1 es1 es2 where
      r: "storage_run s xs = Some (s1, es1)" "es' = es1 @ es2" "leaseMap s1 k = None" by blast
    have "storage_inv s1" by (rule storage.inv_run_from [OF inv storage_run_step [OF r(1)]])
    then have "pending s1 k = []" using deferred_lease [OF storage_invD(3), of s1 k] r(3) by blast
    moreover have "mset (on_key k (map fst (data_log es1))) + mset (pending s1 k) =
        mset (pending s k) + mset (on_key k (asked_all xs))"
      using storage_run_good [OF inv r(1)] by blast
    ultimately have "mset (on_key k (map fst (data_log es1))) = mset (pending s k) + mset (on_key k (asked_all xs))"
      by simp
    then show ?thesis by (simp add: r(2))
  qed simp
qed

text \<open>The write waits for the lease of \<open>c\<close>; a read of the key and the revocation come in.\<close>

theorem deferred_answered_witness:
  "\<exists>s es s' es'. storage_run app_init leased_write = Some (s, es) \<and> map cr_replyc (pending s ''k'') = [3] \<and>
     storage_run s (map Ask [ask GET_VALUE ''k'' '''' 5, ask REVOKE_LEASE ''k'' ''c'' 6]) = Some (s', es') \<and>
     mset (pending s ''k'') \<subseteq># mset (on_key ''k'' (map fst (data_log es')))"
proof -
  let ?evs = "map Ask [ask GET_VALUE ''k'' '''' 5, ask REVOKE_LEASE ''k'' ''c'' 6]"
  have "map_option (\<lambda>(s, es). (map cr_replyc (pending s ''k''), leaseMap s ''k'', storage_run s ?evs \<noteq> None))
      (storage_run app_init leased_write) = Some ([3], Some [(''c'', 0)], True)" by code_simp
  then obtain s es s' es' where s: "storage_run app_init leased_write = Some (s, es)" "leaseMap s ''k'' = Some [(''c'', 0)]"
    "map cr_replyc (pending s ''k'') = [3]" "storage_run s ?evs = Some (s', es')" by auto
  have "\<forall>(client, ch) \<in> set [(''c'', 0)]. \<exists>e \<in> set ?evs. gives_back ''k'' client ch e" by (simp add: gives_back_def)
  with deferred_answered [OF s(1,2)] s(4) have "mset (pending s ''k'') \<subseteq># mset (on_key ''k'' (map fst (data_log es')))"
    by blast
  with s show ?thesis by (intro exI conjI)
qed

end
