(* ===== verification/Storage_Server.thy ===== *)
theory Storage_Server
  imports Storage_Properties Storage_Ring
begin

section \<open>The storage server: registration and remote calls (contrib/storageimpl/storageimpl.go)\<close>

text \<open>
  A cluster of storage servers forms by registration: the master counts the slaves that call
  it and is ready when the count is complete; a slave calls until the master is ready. The
  remote calls of the clients become requests to \<open>appHandler\<close> (theory Storage): each call is
  given by the request it sends and by what it makes of the answer. A type assertion on an
  answer of the wrong type panics: \<open>None\<close>.
\<close>

subsection \<open>State\<close>

record Storageserver =
  nodeid :: "32 word"
  ss_servers :: "Node list"
  numnodes :: nat
  cntnodes :: nat

definition zero_Node :: Node where
  "zero_Node = \<lparr>HostPort = '''', NodeID = 0\<rparr>"

definition zero_RegisterReply :: RegisterReply where
  "zero_RegisterReply = \<lparr>Ready = False, Servers = []\<rparr>"

subsection \<open>Starting a server\<close>

text \<open>
  An attempt of a slave: whether a connection could be opened, and what the call of
  \<open>StorageRPC.Register\<close> brings (\<open>None\<close>: an error). The loop goes on until the master is
  ready; \<open>None\<close> is a loop that still waits when the attempts are used up.
\<close>

record attempt =
  dialed :: bool
  called :: "RegisterReply option"

fun register_loop :: "bool \<Rightarrow> attempt list \<Rightarrow> RegisterReply option" where
  "register_loop connected [] = None"
| "register_loop connected (a # as) =
     (let connected' = connected \<or> dialed a in
      if connected' \<and> (case called a of Some reply \<Rightarrow> Ready reply | None \<Rightarrow> False) then called a
      else register_loop connected' as)"

text \<open>\<open>rnd\<close> is the random number drawn for a slave started without an identifier.\<close>

definition NewStorageserver ::
  "string \<Rightarrow> nat \<Rightarrow> int \<Rightarrow> 32 word \<Rightarrow> 32 word \<Rightarrow> attempt list \<Rightarrow> (Storageserver \<times> app_state) option" where
  "NewStorageserver master n portnum nid rnd attempts =
     (let parts = strings_Split master '':'' in
      if length parts < 2 then None
      else if parts ! 1 = Itoa portnum
      then (if n = 0 then None
            else Some (\<lparr>nodeid = nid, ss_servers = (replicate n zero_Node)[0 := \<lparr>HostPort = master, NodeID = nid\<rparr>],
                        numnodes = n, cntnodes = 1\<rparr>, app_init))
      else map_option
        (\<lambda>reply. (\<lparr>nodeid = (if nid = 0 then rnd else nid), ss_servers = Servers reply,
                   numnodes = length (Servers reply), cntnodes = length (Servers reply)\<rparr>, app_init))
        (register_loop False attempts))"

definition RegisterServer :: "Storageserver \<Rightarrow> Node \<Rightarrow> (Storageserver \<times> RegisterReply) option" where
  "RegisterServer ss server =
     (if cntnodes ss < numnodes ss \<and> \<not> cntnodes ss < length (ss_servers ss) then None
      else
        (let ss1 = (if cntnodes ss < numnodes ss
                    then ss\<lparr>ss_servers := (ss_servers ss)[cntnodes ss := server], cntnodes := cntnodes ss + 1\<rparr>
                    else ss) in
         Some (ss1, if cntnodes ss1 = numnodes ss1 then \<lparr>Ready = True, Servers = ss_servers ss1\<rparr>
                    else zero_RegisterReply)))"

definition GetServers :: "Storageserver \<Rightarrow> RegisterReply" where
  "GetServers ss =
     (if cntnodes ss < numnodes ss then zero_RegisterReply
      else \<lparr>Ready = True, Servers = ss_servers ss\<rparr>)"

definition isKeyInRange :: "Storageserver \<Rightarrow> string \<Rightarrow> bool option" where
  "isKeyInRange ss key =
     (let keyid = key_hash key; currentMachine = ring_machine (ss_servers ss) keyid in
      if currentMachine < length (ss_servers ss)
      then Some (NodeID (ss_servers ss ! currentMachine) = nodeid ss)
      else None)"

subsection \<open>Reading\<close>

text \<open>
  \<open>Get\<close> asks the handler for the value and then, if the client wants a lease, for the lease:
  two requests, between which the handler may serve others. Each step ends with a reply
  (\<open>Inl\<close>) or the next request (\<open>Inr\<close>).
\<close>

definition Get_begin ::
  "Storageserver \<Rightarrow> storage_GetArgs \<Rightarrow> nat \<Rightarrow> (string storage_GetReply + cacheReq) option" where
  "Get_begin ss args c =
     map_option (\<lambda>mine.
         if \<not> mine then Inl \<lparr>sg_Status = EWRONGSERVER, sg_Value = '''', sg_Lease = no_lease\<rparr>
         else Inr (ask GET_VALUE (ga_Key args) '''' c))
       (isKeyInRange ss (ga_Key args))"

definition Get_value ::
  "storage_GetArgs \<Rightarrow> nat \<Rightarrow> storage_reply \<Rightarrow> (string storage_GetReply + string storage_GetReply \<times> cacheReq) option" where
  "Get_value args c v =
     (case v of
        SNil \<Rightarrow> Some (Inl \<lparr>sg_Status = EKEYNOTFOUND, sg_Value = '''', sg_Lease = no_lease\<rparr>)
      | SStr x \<Rightarrow>
          (let reply = \<lparr>sg_Status = S_OK, sg_Value = x, sg_Lease = no_lease\<rparr> in
           if WantLease args then Some (Inr (reply, ask S_PUT_LEASE (ga_Key args) (LeaseClient args) c))
           else Some (Inl reply))
      | _ \<Rightarrow> None)"

definition Get_lease :: "'v storage_GetReply \<Rightarrow> storage_reply \<Rightarrow> 'v storage_GetReply option" where
  "Get_lease reply v =
     (case v of
        SBool status \<Rightarrow>
          Some (if status then reply\<lparr>sg_Lease := \<lparr>Granted = True, ValidSeconds = LEASE_SECONDS\<rparr>\<rparr>
                else reply\<lparr>sg_Lease := (sg_Lease reply)\<lparr>Granted := False\<rparr>\<rparr>)
      | _ \<Rightarrow> None)"

definition GetList_begin ::
  "Storageserver \<Rightarrow> storage_GetArgs \<Rightarrow> nat \<Rightarrow> (string list storage_GetReply + cacheReq) option" where
  "GetList_begin ss args c =
     map_option (\<lambda>mine.
         if \<not> mine then Inl \<lparr>sg_Status = EWRONGSERVER, sg_Value = [], sg_Lease = no_lease\<rparr>
         else Inr (ask GET_LIST_VALUE (ga_Key args) '''' c))
       (isKeyInRange ss (ga_Key args))"

definition GetList_value ::
  "storage_GetArgs \<Rightarrow> nat \<Rightarrow> storage_reply \<Rightarrow>
     (string list storage_GetReply + string list storage_GetReply \<times> cacheReq) option" where
  "GetList_value args c v =
     (case v of
        SNil \<Rightarrow> Some (Inl \<lparr>sg_Status = EITEMNOTFOUND, sg_Value = [], sg_Lease = no_lease\<rparr>)
      | SList xs \<Rightarrow>
          (let reply = \<lparr>sg_Status = S_OK, sg_Value = xs, sg_Lease = no_lease\<rparr> in
           if WantLease args then Some (Inr (reply, ask S_PUT_LEASE (ga_Key args) (LeaseClient args) c))
           else Some (Inl reply))
      | _ \<Rightarrow> None)"

subsection \<open>Writing\<close>

text \<open>The server does not check that the key is its own.\<close>

definition Put_begin :: "string \<Rightarrow> string \<Rightarrow> nat \<Rightarrow> cacheReq" where
  "Put_begin key v c = ask PUT_VALUE key v c"

definition Put_reply :: "storage_reply \<Rightarrow> storage_status" where
  "Put_reply v = S_OK"

definition AppendToList_begin :: "string \<Rightarrow> string \<Rightarrow> nat \<Rightarrow> cacheReq" where
  "AppendToList_begin key v c = ask APPEND_LIST_VALUE key v c"

fun AppendToList_reply :: "storage_reply \<Rightarrow> storage_status option" where
  "AppendToList_reply (SBool status) = Some (if status then S_OK else EITEMEXISTS)"
| "AppendToList_reply _ = None"

definition RemoveFromList_begin :: "string \<Rightarrow> string \<Rightarrow> nat \<Rightarrow> cacheReq" where
  "RemoveFromList_begin key v c = ask REMOVE_LIST_VALUE key v c"

fun RemoveFromList_reply :: "storage_reply \<Rightarrow> storage_status option" where
  "RemoveFromList_reply (SBool status) = Some (if status then S_OK else EITEMNOTFOUND)"
| "RemoveFromList_reply _ = None"

text \<open>
  Calling a lease back: \<open>connMap\<close> holds the clients with an open connection, \<open>dial\<close> says
  whether one can be opened, \<open>status\<close> what the remote call answers (\<open>None\<close>: an error); only
  an OK makes a request.
\<close>

definition callCacheRPC ::
  "string set \<Rightarrow> string \<Rightarrow> string \<Rightarrow> bool \<Rightarrow> storage_status option \<Rightarrow> nat \<Rightarrow> string set \<times> cacheReq option" where
  "callCacheRPC connMap key client dial status c =
     (if client \<notin> connMap \<and> \<not> dial then (connMap, None)
      else (insert client connMap,
            if status = Some S_OK then Some (ask REVOKE_LEASE key client c) else None))"


subsection \<open>Properties\<close>

text \<open>An answer is one of the specification, in some state of it.\<close>

lemma spec_log_reply:
  "spec_log m rs = (m', vs) \<Longrightarrow> (r, v) \<in> set (zip rs vs) \<Longrightarrow> \<exists>n. v = snd (spec_req n r)"
  by (induction rs arbitrary: m m' vs) (auto split: prod.splits, metis snd_conv)

lemma answered_spec:
  assumes "storage_run app_init evs = Some (s, es)" and "(r, v) \<in> set (data_log es)"
  shows "\<exists>n. v = snd (spec_req n r)"
proof (rule spec_log_reply)
  show "spec_log (abs_cache (cacheMap app_init)) (map fst (data_log es)) =
      (abs_cache (cacheMap s), map snd (data_log es))"
    using storage_run_good [OF storage_inv_init assms(1)] by (simp add: follows_def)
  show "(r, v) \<in> set (zip (map fst (data_log es)) (map snd (data_log es)))"
    using assms(2) by (simp add: zip_map_fst_snd)
qed

definition slave :: "string \<Rightarrow> 32 word \<Rightarrow> Node" where
  "slave host n = \<lparr>HostPort = host, NodeID = n\<rparr>"

definition lease_args :: storage_GetArgs where
  "lease_args = \<lparr>ga_Key = ''k'', WantLease = True, LeaseClient = ''c''\<rparr>"

definition one_server :: Storageserver where
  "one_server = \<lparr>nodeid = 1, ss_servers = [slave ''localhost:9009'' 1], numnodes = 1, cntnodes = 1\<rparr>"

text \<open>The remote calls never panic on an answer of the handler: whatever is answered to a
  request of a client has the type that the client's type assertion expects.\<close>

theorem storage_answer_types:
  assumes "storage_run app_init evs = Some (s, es)" and "(r, v) \<in> set (data_log es)"
  shows "case cr_typ r of
      GET_VALUE \<Rightarrow> Get_value args c v \<noteq> None
    | GET_LIST_VALUE \<Rightarrow> GetList_value args c v \<noteq> None
    | APPEND_LIST_VALUE \<Rightarrow> AppendToList_reply v \<noteq> None
    | REMOVE_LIST_VALUE \<Rightarrow> RemoveFromList_reply v \<noteq> None
    | _ \<Rightarrow> True"
proof -
  obtain n where n: "v = snd (spec_req n r)" using answered_spec [OF assms] by blast
  show ?thesis
  proof (cases "cr_typ r")
    case GET_VALUE
    then show ?thesis unfolding n
      by (auto simp: spec_req_def Get_value_def Let_def split: option.splits aval.splits)
  next
    case GET_LIST_VALUE
    then show ?thesis unfolding n
      by (auto simp: spec_req_def GetList_value_def Let_def split: option.splits aval.splits)
  next
    case APPEND_LIST_VALUE
    then show ?thesis unfolding n by (auto simp: spec_req_def Let_def split: option.splits aval.splits)
  next
    case REMOVE_LIST_VALUE
    then show ?thesis unfolding n by (auto simp: spec_req_def Let_def split: option.splits aval.splits)
  qed simp_all
qed

theorem storage_answer_types_witness:
  "\<exists>s es. storage_run app_init leased_list = Some (s, es) \<and>
     (\<exists>r v. (r, v) \<in> set (data_log es) \<and> cr_typ r = GET_LIST_VALUE \<and>
        GetList_value \<lparr>ga_Key = ''l'', WantLease = False, LeaseClient = ''''\<rparr> 0 v \<noteq> None)"
proof -
  have "map_option (\<lambda>(s, es). cr_typ (fst (last (data_log es))) = GET_LIST_VALUE \<and> data_log es \<noteq> [])
      (storage_run app_init leased_list) = Some True" by code_simp
  then obtain s es where s: "storage_run app_init leased_list = Some (s, es)" "data_log es \<noteq> []"
    "cr_typ (fst (last (data_log es))) = GET_LIST_VALUE" by auto
  obtain r v where rv: "last (data_log es) = (r, v)" by fastforce
  then have m: "(r, v) \<in> set (data_log es)" using s(2) last_in_set by metis
  have t: "cr_typ r = GET_LIST_VALUE" using s(3) rv by simp
  from storage_answer_types [OF s(1) m, of "\<lparr>ga_Key = ''l'', WantLease = False, LeaseClient = ''''\<rparr>" 0] t
  have "GetList_value \<lparr>ga_Key = ''l'', WantLease = False, LeaseClient = ''''\<rparr> 0 v \<noteq> None" by simp
  with s(1) m t show ?thesis by blast
qed

text \<open>A slave that asks the master again is counted again: if two places are left, the two
  calls of one slave fill both, the master is ready with that slave twice in its list, and a
  slave that comes later is told of a cluster it is not part of.\<close>

theorem register_counts_retries:
  assumes "cntnodes ss + 2 = numnodes ss" and "length (ss_servers ss) = numnodes ss"
    and "b \<notin> set (ss_servers ss)" and "b \<noteq> a"
  shows "\<exists>ss1 ss2 reply1 reply2 reply3.
    RegisterServer ss a = Some (ss1, reply1) \<and> \<not> Ready reply1 \<and>
    RegisterServer ss1 a = Some (ss2, reply2) \<and> Ready reply2 \<and> \<not> distinct (Servers reply2) \<and>
    RegisterServer ss2 b = Some (ss2, reply3) \<and> Ready reply3 \<and> b \<notin> set (Servers reply3)"
proof -
  let ?n = "cntnodes ss" and ?xs = "ss_servers ss"
  let ?ys = "?xs[?n := a, Suc ?n := a]"
  let ?ss1 = "ss\<lparr>ss_servers := ?xs[?n := a], cntnodes := Suc ?n\<rparr>"
  let ?ss2 = "ss\<lparr>ss_servers := ?ys, cntnodes := Suc (Suc ?n)\<rparr>"
  have l: "numnodes ss = Suc (Suc ?n)" "length ?xs = Suc (Suc ?n)" using assms(1,2) by simp_all
  have "?ys ! ?n = ?ys ! Suc ?n" using l by simp
  then have "\<not> distinct ?ys" using l nth_eq_iff_index_eq [of ?ys ?n "Suc ?n"] by auto
  moreover have "b \<notin> set ?ys"
    using assms(3,4) set_update_subset_insert [of "?xs[?n := a]" "Suc ?n" a]
      set_update_subset_insert [of ?xs ?n a] by blast
  moreover have "RegisterServer ss a = Some (?ss1, zero_RegisterReply)"
    "RegisterServer ?ss1 a = Some (?ss2, \<lparr>Ready = True, Servers = ?ys\<rparr>)"
    "RegisterServer ?ss2 b = Some (?ss2, \<lparr>Ready = True, Servers = ?ys\<rparr>)"
    using l by (simp_all add: RegisterServer_def Let_def)
  moreover have "\<not> Ready zero_RegisterReply" by (simp add: zero_RegisterReply_def)
  ultimately show ?thesis by (intro exI conjI) (assumption | simp)+
qed

theorem register_counts_retries_witness:
  "\<exists>ss app ss1 reply1. NewStorageserver ''localhost:7'' 3 7 1 0 [] = Some (ss, app) \<and>
     RegisterServer ss (slave ''localhost:9010'' 7) = Some (ss1, reply1) \<and>
     (\<exists>ss2 reply2. RegisterServer ss1 (slave ''localhost:9010'' 7) = Some (ss2, reply2) \<and>
        Ready reply2 \<and> \<not> distinct (Servers reply2))"
proof -
  have "map_option (\<lambda>(ss, app). cntnodes ss + 2 = numnodes ss \<and> length (ss_servers ss) = numnodes ss \<and>
      slave ''localhost:9011'' 9 \<notin> set (ss_servers ss))
      (NewStorageserver ''localhost:7'' 3 7 1 0 []) = Some True" by code_simp
  then obtain ss app where n: "NewStorageserver ''localhost:7'' 3 7 1 0 [] = Some (ss, app)"
    "cntnodes ss + 2 = numnodes ss" "length (ss_servers ss) = numnodes ss"
    "slave ''localhost:9011'' 9 \<notin> set (ss_servers ss)" by auto
  have "slave ''localhost:9011'' 9 \<noteq> slave ''localhost:9010'' 7" by (simp add: slave_def)
  from register_counts_retries [OF n(2-4) this] n(1) show ?thesis by blast
qed

text \<open>C35: A lease can come with an old value: \<open>Get\<close> asks for the value and for the lease in two
  requests, and a \<open>Put\<close> served between the two makes the client cache the old value under a
  granted lease while the server has the new one.\<close>

theorem lease_on_old_value:
  "\<exists>r r' reply reply' s1 s2 s3 s4 es v.
     storage_run app_init [Ask (Put_begin ''k'' ''old'' 0)] = Some (s1, es) \<and>
     Get_begin one_server lease_args 1 = Some (Inr r) \<and>
     appHandler s1 r = Some (s2, [SReply r v]) \<and> Get_value lease_args 2 v = Some (Inr (reply, r')) \<and>
     appHandler s2 (Put_begin ''k'' ''new'' 3) = Some (s3, [SReply (Put_begin ''k'' ''new'' 3) (SBool True)]) \<and>
     appHandler s3 r' = Some (s4, [StartTimer ''k'' ''c'' 0, SReply r' (SBool True)]) \<and>
     Get_lease reply (SBool True) = Some reply' \<and> Granted (sg_Lease reply') \<and>
     sg_Value reply' = ''old'' \<and> get_value (cacheMap s4) ''k'' = SStr ''new''"
proof -
  have g: "Get_begin one_server lease_args 1 = Some (Inr (ask GET_VALUE ''k'' '''' 1))" by code_simp
  let ?s1 = "app_init\<lparr>cacheMap := [''k'' \<mapsto> StrV ''old'']\<rparr>"
  let ?s3 = "app_init\<lparr>cacheMap := [''k'' \<mapsto> StrV ''new'']\<rparr>"
  let ?s4 = "?s3\<lparr>timers := [0 \<mapsto> (''k'', ''c'')], next_timer := 1, leaseMap := [''k'' \<mapsto> [(''c'', 0)]]\<rparr>"
  let ?reply = "\<lparr>sg_Status = S_OK, sg_Value = ''old'', sg_Lease = no_lease\<rparr>"
  let ?reply' = "?reply\<lparr>sg_Lease := \<lparr>Granted = True, ValidSeconds = LEASE_SECONDS\<rparr>\<rparr>"
  note handler = appHandler_def pre_check_def process_request_def modify_def put_value_def get_value_def
    put_lease_def start_timer_def is_modify_def Let_def app_init_def
  have "storage_run app_init [Ask (Put_begin ''k'' ''old'' 0)] =
      Some (?s1, [SReply (Put_begin ''k'' ''old'' 0) (SBool True)])"
    by (simp add: Put_begin_def handler)
  moreover have "appHandler ?s1 (ask GET_VALUE ''k'' '''' 1) =
      Some (?s1, [SReply (ask GET_VALUE ''k'' '''' 1) (SStr ''old'')])"
    by (simp add: handler)
  moreover have "Get_value lease_args 2 (SStr ''old'') = Some (Inr (?reply, ask S_PUT_LEASE ''k'' ''c'' 2))"
    by (simp add: Get_value_def lease_args_def)
  moreover have "appHandler ?s1 (Put_begin ''k'' ''new'' 3) =
      Some (?s3, [SReply (Put_begin ''k'' ''new'' 3) (SBool True)])"
    by (simp add: Put_begin_def handler)
  moreover have "appHandler ?s3 (ask S_PUT_LEASE ''k'' ''c'' 2) =
      Some (?s4, [StartTimer ''k'' ''c'' 0, SReply (ask S_PUT_LEASE ''k'' ''c'' 2) (SBool True)])"
    by (simp add: handler)
  moreover have "Get_lease ?reply (SBool True) = Some ?reply'" by (simp add: Get_lease_def)
  moreover have "Granted (sg_Lease ?reply')" "sg_Value ?reply' = ''old''" "get_value (cacheMap ?s4) ''k'' = SStr ''new''"
    by (simp_all add: get_value_def)
  ultimately show ?thesis using g by blast
qed

end
