(* ===== verification/Libstore.thy ===== *)
theory Libstore
  imports Storage_Server
begin

section \<open>The client of the storage servers (contrib/libstore/libstore-impl.go)\<close>

text \<open>
  A client routes a key to a server, counts its queries to decide when a lease is worth
  asking for, and caches values under the leases it gets. \<open>cacheHandler\<close> is the goroutine
  that serves the cache; it is a function from the cache, the time (in nanoseconds) and a
  request to the new cache and the answer. The write lock has no part in it: the handler is
  the only writer besides \<open>RevokeLease\<close>, which sets one flag.

  The remote calls are parameters over a state \<open>'w\<close> of the world; \<open>None\<close> as their result is
  a call that failed. The result \<open>None\<close> of an operation is a panic, and the inner \<open>None\<close> an
  error it returns.
\<close>

subsection \<open>State\<close>

datatype cache_value = CStr string | CList "string list"

record CacheEntry =
  ce_value :: cache_value
  revoked :: bool
  expiryTime :: int

record lib_cache =
  lc_cacheMap :: "(string, CacheEntry) gomap"
  queryMap :: "(string, int) gomap"

datatype lib_req_type = CREATE_CACHE | FETCH_CACHE | FETCH_CACHE_LIST | NEW_QUERY | GARBAGE_COLLECT | QUERY_COLLECT

record CacheReq =
  lr_typ :: lib_req_type
  lr_time :: int
  lr_key :: string
  lr_value :: cache_value

datatype cache_reply = CRNil | CRBool bool | CRStr string | CRList "string list"

record Libstore =
  nodelist :: "Node list"
  always_lease :: bool
  ls_myhostport :: string
  ls_cache :: lib_cache
  ls_connMap :: "nat set"

definition empty_cache :: lib_cache where
  "empty_cache = \<lparr>lc_cacheMap = [], queryMap = []\<rparr>"

definition SECOND :: int where "SECOND = 1000000000"

subsection \<open>The cache\<close>

text \<open>An expired entry is marked like a revoked one when it is met.\<close>

definition mark_expired :: "int \<Rightarrow> CacheEntry \<Rightarrow> CacheEntry" where
  "mark_expired now e = (if \<not> revoked e \<and> expiryTime e < now then e\<lparr>revoked := True\<rparr> else e)"

definition fetch_cache :: "int \<Rightarrow> lib_cache \<Rightarrow> string \<Rightarrow> lib_cache \<times> cache_reply" where
  "fetch_cache now lc key =
     (case gget (lc_cacheMap lc) key of
        None \<Rightarrow> (lc, CRNil)
      | Some e0 \<Rightarrow>
          (let e = mark_expired now e0; lc1 = lc\<lparr>lc_cacheMap := gput key e (lc_cacheMap lc)\<rparr> in
           if \<not> revoked e
           then (lc1, case ce_value e of CStr v \<Rightarrow> CRStr v | CList xs \<Rightarrow> CRNil)
           else (lc1, CRNil)))"

definition fetch_cache_list :: "int \<Rightarrow> lib_cache \<Rightarrow> string \<Rightarrow> lib_cache \<times> cache_reply" where
  "fetch_cache_list now lc key =
     (case gget (lc_cacheMap lc) key of
        None \<Rightarrow> (lc, CRNil)
      | Some e0 \<Rightarrow>
          (let e = mark_expired now e0; lc1 = lc\<lparr>lc_cacheMap := gput key e (lc_cacheMap lc)\<rparr> in
           if \<not> revoked e
           then (lc1, case ce_value e of CStr v \<Rightarrow> CRNil | CList xs \<Rightarrow> CRList xs)
           else (lc1, CRNil)))"

definition create_cache :: "int \<Rightarrow> lib_cache \<Rightarrow> CacheReq \<Rightarrow> lib_cache" where
  "create_cache now lc r =
     lc\<lparr>lc_cacheMap := gput (lr_key r)
          \<lparr>ce_value = lr_value r, revoked = False, expiryTime = now + lr_time r * SECOND\<rparr> (lc_cacheMap lc)\<rparr>"

definition garbage_collect :: "int \<Rightarrow> lib_cache \<Rightarrow> lib_cache" where
  "garbage_collect now lc =
     lc\<lparr>lc_cacheMap := filter (\<lambda>(key, e). \<not> (revoked e \<or> expiryTime e < now)) (lc_cacheMap lc)\<rparr>"

definition query_collect :: "lib_cache \<Rightarrow> lib_cache" where
  "query_collect lc =
     lc\<lparr>queryMap := map (\<lambda>(key, n). (key, n - 1)) (filter (\<lambda>(key, n). n \<noteq> 1) (queryMap lc))\<rparr>"

definition new_query :: "lib_cache \<Rightarrow> string \<Rightarrow> lib_cache \<times> cache_reply" where
  "new_query lc key =
     (let value = (case gget (queryMap lc) key of Some n \<Rightarrow> n + 1 | None \<Rightarrow> 1) in
      (lc\<lparr>queryMap := gput key value (queryMap lc)\<rparr>, CRBool (QUERY_CACHE_THRESH \<le> value)))"

definition cacheHandler :: "int \<Rightarrow> lib_cache \<Rightarrow> CacheReq \<Rightarrow> lib_cache \<times> cache_reply" where
  "cacheHandler now lc r =
     (case lr_typ r of
        CREATE_CACHE \<Rightarrow> (create_cache now lc r, CRBool True)
      | GARBAGE_COLLECT \<Rightarrow> (garbage_collect now lc, CRBool True)
      | QUERY_COLLECT \<Rightarrow> (query_collect lc, CRBool True)
      | FETCH_CACHE \<Rightarrow> fetch_cache now lc (lr_key r)
      | FETCH_CACHE_LIST \<Rightarrow> fetch_cache_list now lc (lr_key r)
      | NEW_QUERY \<Rightarrow> new_query lc (lr_key r))"

definition cache_req :: "lib_req_type \<Rightarrow> int \<Rightarrow> string \<Rightarrow> cache_value \<Rightarrow> CacheReq" where
  "cache_req t n k v = \<lparr>lr_typ = t, lr_time = n, lr_key = k, lr_value = v\<rparr>"

text \<open>The request a \<open>cacheTimer\<close> sends, over and over.\<close>

definition cacheTimer :: "lib_req_type \<Rightarrow> CacheReq" where
  "cacheTimer t = cache_req t 0 '''' (CStr '''')"

definition RevokeLease :: "Libstore \<Rightarrow> string \<Rightarrow> Libstore \<times> storage_status" where
  "RevokeLease ls key =
     (ls\<lparr>ls_cache := (ls_cache ls)\<lparr>lc_cacheMap :=
           (case gget (lc_cacheMap (ls_cache ls)) key of
              None \<Rightarrow> lc_cacheMap (ls_cache ls)
            | Some e \<Rightarrow> gput key (e\<lparr>revoked := True\<rparr>) (lc_cacheMap (ls_cache ls)))\<rparr>\<rparr>, S_OK)"

subsection \<open>Starting a client\<close>

text \<open>Five attempts to get the list of servers; \<open>call i\<close> is what the \<open>i\<close>-th brings.\<close>

fun servers_loop :: "nat \<Rightarrow> (nat \<Rightarrow> RegisterReply option) \<Rightarrow> nat \<Rightarrow> RegisterReply option" where
  "servers_loop 0 call i = None"
| "servers_loop (Suc n) call i =
     (case call i of
        Some reply \<Rightarrow> if Ready reply then Some reply else servers_loop n call (Suc i)
      | None \<Rightarrow> servers_loop n call (Suc i))"

definition iNewLibstore ::
  "string \<Rightarrow> string \<Rightarrow> bool \<Rightarrow> bool \<Rightarrow> (nat \<Rightarrow> RegisterReply option) \<Rightarrow> Libstore option" where
  "iNewLibstore server host always dial call =
     (if \<not> dial then None
      else map_option
        (\<lambda>reply. \<lparr>nodelist = Servers reply, always_lease = always, ls_myhostport = host, ls_cache = empty_cache,
           ls_connMap = (case List.find (\<lambda>i. server = HostPort (Servers reply ! i)) [1..<length (Servers reply)] of
                           None \<Rightarrow> {} | Some i \<Rightarrow> {i})\<rparr>)
        (servers_loop 5 call 0))"

subsection \<open>Routing\<close>

text \<open>The client's own copy of the loops over the nodes.\<close>

definition lib_key_hash :: "string \<Rightarrow> 32 word" where
  "lib_key_hash key = Storehash (strings_Split key '':'' ! 0)"

fun lib_last :: "Node list \<Rightarrow> 32 word \<Rightarrow> nat \<Rightarrow> nat \<times> bool \<Rightarrow> nat \<times> bool" where
  "lib_last [] keyid i found = found"
| "lib_last (n # ns) keyid i found =
     lib_last ns keyid (Suc i) (if NodeID n \<ge> keyid then (i, True) else found)"

fun lib_least_above :: "Node list \<Rightarrow> Node list \<Rightarrow> 32 word \<Rightarrow> nat \<Rightarrow> nat \<Rightarrow> nat" where
  "lib_least_above nodes [] keyid i cur = cur"
| "lib_least_above nodes (n # ns) keyid i cur =
     lib_least_above nodes ns keyid (Suc i)
       (if NodeID n \<ge> keyid \<and> NodeID n < NodeID (nodes ! cur) then i else cur)"

fun lib_least :: "Node list \<Rightarrow> Node list \<Rightarrow> nat \<Rightarrow> nat \<Rightarrow> nat" where
  "lib_least nodes [] i cur = cur"
| "lib_least nodes (n # ns) i cur =
     lib_least nodes ns (Suc i) (if NodeID n < NodeID (nodes ! cur) then i else cur)"

definition lib_machine :: "Node list \<Rightarrow> 32 word \<Rightarrow> nat" where
  "lib_machine nodes keyid =
     (case lib_last nodes keyid 0 (0, False) of (cur, largeHash) \<Rightarrow>
        if largeHash then lib_least_above nodes nodes keyid 0 cur else lib_least nodes nodes 0 cur)"

text \<open>The two copies find the same node.\<close>

lemma lib_key_hash [simp]: "lib_key_hash key = key_hash key"
  by (simp add: lib_key_hash_def key_hash_def hd_conv_nth)

lemma lib_last_ring:
  "lib_last (drop i nodes) keyid i found =
     fold (\<lambda>i (cur, large). if keyid \<le> NodeID (nodes ! i) then (i, True) else (cur, large)) [i..<length nodes] found"
proof (induction "length nodes - i" arbitrary: i found)
  case (Suc k)
  then have i: "i < length nodes" by simp
  with Suc(1) [of "Suc i"] Suc(2) show ?case
    by (cases found) (simp add: Cons_nth_drop_Suc [symmetric] upt_conv_Cons)
qed simp

lemma lib_least_above_ring:
  "lib_least_above nodes (drop i nodes) keyid i cur =
     fold (\<lambda>i cur. if keyid \<le> NodeID (nodes ! i) \<and> NodeID (nodes ! i) < NodeID (nodes ! cur) then i else cur)
       [i..<length nodes] cur"
proof (induction "length nodes - i" arbitrary: i cur)
  case (Suc k)
  then have i: "i < length nodes" by simp
  with Suc(1) [of "Suc i"] Suc(2) show ?case by (simp add: Cons_nth_drop_Suc [symmetric] upt_conv_Cons)
qed simp

lemma lib_least_ring:
  "lib_least nodes (drop i nodes) i cur =
     fold (\<lambda>i cur. if NodeID (nodes ! i) < NodeID (nodes ! cur) then i else cur) [i..<length nodes] cur"
proof (induction "length nodes - i" arbitrary: i cur)
  case (Suc k)
  then have i: "i < length nodes" by simp
  with Suc(1) [of "Suc i"] Suc(2) show ?case by (simp add: Cons_nth_drop_Suc [symmetric] upt_conv_Cons)
qed simp

lemma lib_machine_ring [simp]: "lib_machine nodes keyid = ring_machine nodes keyid"
  using lib_last_ring [of 0 nodes keyid] lib_least_above_ring [of nodes 0 keyid] lib_least_ring [of nodes 0]
  by (auto simp: lib_machine_def ring_machine_def ring_last_def ring_least_above_def ring_least_def split: prod.splits)

text \<open>The machine of a key, and the connection to it, kept for the next time.\<close>

definition getServer :: "(string \<Rightarrow> bool) \<Rightarrow> Libstore \<Rightarrow> string \<Rightarrow> (nat option \<times> Libstore) option" where
  "getServer dial ls key =
     (let currentMachine = lib_machine (nodelist ls) (lib_key_hash key) in
      if currentMachine \<in> ls_connMap ls then Some (Some currentMachine, ls)
      else if \<not> currentMachine < length (nodelist ls) then None
      else if \<not> dial (HostPort (nodelist ls ! currentMachine)) then Some (None, ls)
      else Some (Some currentMachine, ls\<lparr>ls_connMap := insert currentMachine (ls_connMap ls)\<rparr>))"

subsection \<open>Reading\<close>

text \<open>Ask the cache handler.\<close>

definition to_cache :: "int \<Rightarrow> Libstore \<Rightarrow> CacheReq \<Rightarrow> Libstore \<times> cache_reply" where
  "to_cache now ls r =
     (case cacheHandler now (ls_cache ls) r of (lc, v) \<Rightarrow> (ls\<lparr>ls_cache := lc\<rparr>, v))"

text \<open>The query count and the look into the cache, of \<open>iGet\<close> and of \<open>iGetList\<close>.\<close>

definition want_lease :: "int \<Rightarrow> Libstore \<Rightarrow> string \<Rightarrow> Libstore \<times> bool" where
  "want_lease now ls key =
     (if ls_myhostport ls = '''' then (ls, False)
      else if always_lease ls then (ls, True)
      else (case to_cache now ls (cache_req NEW_QUERY 0 key (CStr '''')) of
              (ls1, v) \<Rightarrow> (ls1, v = CRBool True)))"

definition iGet ::
  "(string \<Rightarrow> bool) \<Rightarrow> (nat \<Rightarrow> storage_GetArgs \<Rightarrow> 'w \<Rightarrow> string storage_GetReply option \<times> 'w) \<Rightarrow> int \<times> int \<Rightarrow>
     Libstore \<Rightarrow> string \<Rightarrow> 'w \<Rightarrow> (string option \<times> Libstore \<times> 'w) option" where
  "iGet dial call clk ls key w =
     (let (ls1, wantlease) = want_lease (fst clk) ls key;
          (ls2, cacheValue) = (if ls_myhostport ls = '''' then (ls1, CRNil)
                               else to_cache (fst clk) ls1 (cache_req FETCH_CACHE 0 key (CStr ''''))) in
      case cacheValue of
        CRStr v \<Rightarrow> Some (Some v, ls2, w)
      | CRNil \<Rightarrow>
          (case getServer dial ls2 key of
             None \<Rightarrow> None
           | Some (None, ls3) \<Rightarrow> Some (None, ls3, w)
           | Some (Some cli, ls3) \<Rightarrow>
               (case call cli \<lparr>ga_Key = key, WantLease = wantlease, LeaseClient = ls_myhostport ls\<rparr> w of
                  (None, w1) \<Rightarrow> Some (None, ls3, w1)
                | (Some reply, w1) \<Rightarrow>
                    if sg_Status reply \<noteq> S_OK then Some (None, ls3, w1)
                    else if wantlease \<and> Granted (sg_Lease reply)
                    then Some (Some (sg_Value reply),
                               fst (to_cache (snd clk) ls3
                                 (cache_req CREATE_CACHE (ValidSeconds (sg_Lease reply)) key (CStr (sg_Value reply)))), w1)
                    else Some (Some (sg_Value reply), ls3, w1)))
      | _ \<Rightarrow> None)"

definition iGetList ::
  "(string \<Rightarrow> bool) \<Rightarrow> (nat \<Rightarrow> storage_GetArgs \<Rightarrow> 'w \<Rightarrow> string list storage_GetReply option \<times> 'w) \<Rightarrow> int \<times> int \<Rightarrow>
     Libstore \<Rightarrow> string \<Rightarrow> 'w \<Rightarrow> (string list option \<times> Libstore \<times> 'w) option" where
  "iGetList dial call clk ls key w =
     (let (ls1, wantlease) = want_lease (fst clk) ls key;
          (ls2, cacheValue) = (if ls_myhostport ls = '''' then (ls1, CRNil)
                               else to_cache (fst clk) ls1 (cache_req FETCH_CACHE_LIST 0 key (CStr ''''))) in
      case cacheValue of
        CRList xs \<Rightarrow> Some (Some xs, ls2, w)
      | CRNil \<Rightarrow>
          (case getServer dial ls2 key of
             None \<Rightarrow> None
           | Some (None, ls3) \<Rightarrow> Some (None, ls3, w)
           | Some (Some cli, ls3) \<Rightarrow>
               (case call cli \<lparr>ga_Key = key, WantLease = wantlease, LeaseClient = ls_myhostport ls\<rparr> w of
                  (None, w1) \<Rightarrow> Some (None, ls3, w1)
                | (Some reply, w1) \<Rightarrow>
                    if sg_Status reply \<noteq> S_OK then Some (None, ls3, w1)
                    else if wantlease \<and> Granted (sg_Lease reply)
                    then Some (Some (sg_Value reply),
                               fst (to_cache (snd clk) ls3
                                 (cache_req CREATE_CACHE (ValidSeconds (sg_Lease reply)) key (CList (sg_Value reply)))), w1)
                    else Some (Some (sg_Value reply), ls3, w1)))
      | _ \<Rightarrow> None)"

subsection \<open>Writing\<close>

text \<open>The three writes differ in the remote call; the result says whether there was no error.\<close>

definition lib_write ::
  "(string \<Rightarrow> bool) \<Rightarrow> (nat \<Rightarrow> string \<Rightarrow> string \<Rightarrow> 'w \<Rightarrow> storage_status option \<times> 'w) \<Rightarrow>
     Libstore \<Rightarrow> string \<Rightarrow> string \<Rightarrow> 'w \<Rightarrow> (bool \<times> Libstore \<times> 'w) option" where
  "lib_write dial call ls key v w =
     (case getServer dial ls key of
        None \<Rightarrow> None
      | Some (None, ls1) \<Rightarrow> Some (False, ls1, w)
      | Some (Some cli, ls1) \<Rightarrow>
          (case call cli key v w of
             (None, w1) \<Rightarrow> Some (False, ls1, w1)
           | (Some status, w1) \<Rightarrow> Some (status = S_OK, ls1, w1)))"

definition iPut where
  "iPut dial call_put ls key value w = lib_write dial call_put ls key value w"

definition iRemoveFromList where
  "iRemoveFromList dial call_remove ls key removeitem w = lib_write dial call_remove ls key removeitem w"

definition iAppendToList where
  "iAppendToList dial call_append ls key newitem w = lib_write dial call_append ls key newitem w"

end
