(* ===== verification/Lease_Net.thy ===== *)
theory Lease_Net
  imports Libstore
begin

section \<open>Clients with caches and a ring of storage servers\<close>

text \<open>
  Several clients (theory Libstore) and the storage servers of a ring (theories Storage,
  Storage_Server), with a clock in nanoseconds. A lease granted at some time is kept by the
  server for at least \<open>LEASE_SECONDS + LEASE_GUARD_SECONDS\<close> (\<open>due\<close>), by the client for
  \<open>LEASE_SECONDS\<close> after it puts the value into its cache, which is less than the guard time
  later. Here a read is one event: nothing else happens between the query, the grant of the lease
  and the creation of the cache entry, as when one operation follows another (theory Kv_Store
  uses it so); theory Read_Steps takes a read and a revocation apart and interleaves their steps
  with everything else. Writes, the answers to them, revocations and timers are events of their own.

  \<open>coherent\<close> is the invariant: whatever a client would take from its cache is under a lease
  that outlives it, and is what the server has.
\<close>

subsection \<open>The system\<close>

record lease_net =
  ln_nodes :: "Node list"
  ln_apps :: "nat \<Rightarrow> app_state"
  ln_due :: "nat \<Rightarrow> nat \<Rightarrow> int"
  ln_libs :: "string \<rightharpoonup> Libstore"
  ln_now :: int

definition server_at :: "Node list \<Rightarrow> nat \<Rightarrow> Storageserver" where
  "server_at nodes i =
     \<lparr>nodeid = NodeID (nodes ! i), ss_servers = nodes, numnodes = length nodes, cntnodes = length nodes\<rparr>"

text \<open>The answer to a request among the effects of the handler.\<close>

fun answer_to :: "cacheReq \<Rightarrow> storage_effect list \<Rightarrow> storage_reply option" where
  "answer_to r [] = None"
| "answer_to r (SReply r' v # es) = (if r' = r then Some v else answer_to r es)"
| "answer_to r (_ # es) = answer_to r es"

definition serve :: "app_state \<Rightarrow> cacheReq \<Rightarrow> (app_state \<times> storage_reply) option" where
  "serve s r =
     (case appHandler s r of
        None \<Rightarrow> None
      | Some (s', es) \<Rightarrow> map_option (Pair s') (answer_to r es))"

text \<open>\<open>Get\<close> and \<open>GetList\<close> of server \<open>i\<close>, their two requests in a row; a panic fails the call.\<close>

definition call_with ::
  "('v storage_GetReply + cacheReq) option \<Rightarrow>
   (storage_reply \<Rightarrow> ('v storage_GetReply + 'v storage_GetReply \<times> cacheReq) option) \<Rightarrow>
   nat \<Rightarrow> (nat \<Rightarrow> app_state) \<Rightarrow> 'v storage_GetReply option \<times> (nat \<Rightarrow> app_state)" where
  "call_with start finish i w =
     (case start of
        None \<Rightarrow> (None, w)
      | Some (Inl reply) \<Rightarrow> (Some reply, w)
      | Some (Inr r) \<Rightarrow>
          (case serve (w i) r of
             None \<Rightarrow> (None, w)
           | Some (s1, v) \<Rightarrow>
               (case finish v of
                  None \<Rightarrow> (None, w(i := s1))
                | Some (Inl reply) \<Rightarrow> (Some reply, w(i := s1))
                | Some (Inr (reply, r1)) \<Rightarrow>
                    (case serve s1 r1 of
                       None \<Rightarrow> (None, w(i := s1))
                     | Some (s2, v2) \<Rightarrow> (Get_lease reply v2, w(i := s2))))))"

definition call_Get where
  "call_Get nodes i args w =
     call_with (Get_begin (server_at nodes i) args 0) (Get_value args 1) i w"

definition call_GetList where
  "call_GetList nodes i args w =
     call_with (GetList_begin (server_at nodes i) args 0) (GetList_value args 1) i w"

definition owner :: "Node list \<Rightarrow> string \<Rightarrow> nat" where
  "owner nodes key = ring_machine nodes (key_hash key)"

datatype lease_event =
    Read string string nat | ReadList string string nat | Write cacheReq
  | GiveBack nat string string | Fire nat nat | Tick nat | Collect string

definition GUARD :: int where "GUARD = LEASE_GUARD_SECONDS * SECOND"

text \<open>When a timer may fire that was started now.\<close>

definition lease_end :: "int \<Rightarrow> int" where
  "lease_end now = now + (LEASE_SECONDS + LEASE_GUARD_SECONDS) * SECOND"

definition new_due :: "lease_net \<Rightarrow> (nat \<Rightarrow> app_state) \<Rightarrow> nat \<Rightarrow> nat \<Rightarrow> int" where
  "new_due s w = (\<lambda>i ch. if next_timer (ln_apps s i) \<le> ch \<and> ch < next_timer (w i) then lease_end (ln_now s)
     else ln_due s i ch)"

definition set_app :: "lease_net \<Rightarrow> nat \<Rightarrow> app_state \<Rightarrow> lease_net" where
  "set_app s i a = s\<lparr>ln_apps := (ln_apps s)(i := a)\<rparr>"

definition read_string :: "lease_net \<Rightarrow> string \<Rightarrow> string \<Rightarrow> nat \<Rightarrow> (string option \<times> lease_net) option" where
  "read_string s c key delay =
     (case ln_libs s c of
        None \<Rightarrow> None
      | Some ls \<Rightarrow>
          if GUARD \<le> int delay then None
          else map_option (\<lambda>(v, ls1, w). (v, s\<lparr>ln_libs := (ln_libs s)(c \<mapsto> ls1), ln_apps := w,
                 ln_due := new_due s w, ln_now := ln_now s + int delay\<rparr>))
            (iGet (\<lambda>_. True) (call_Get (ln_nodes s)) (ln_now s, ln_now s + int delay) ls key (ln_apps s)))"

definition read_list :: "lease_net \<Rightarrow> string \<Rightarrow> string \<Rightarrow> nat \<Rightarrow> (string list option \<times> lease_net) option" where
  "read_list s c key delay =
     (case ln_libs s c of
        None \<Rightarrow> None
      | Some ls \<Rightarrow>
          if GUARD \<le> int delay then None
          else map_option (\<lambda>(v, ls1, w). (v, s\<lparr>ln_libs := (ln_libs s)(c \<mapsto> ls1), ln_apps := w,
                 ln_due := new_due s w, ln_now := ln_now s + int delay\<rparr>))
            (iGetList (\<lambda>_. True) (call_GetList (ln_nodes s)) (ln_now s, ln_now s + int delay) ls key (ln_apps s)))"

text \<open>A lease is called back: the client marks its entry, the server takes the lease.\<close>

definition give_back :: "lease_net \<Rightarrow> nat \<Rightarrow> string \<Rightarrow> string \<Rightarrow> (lease_net \<times> storage_effect list) option" where
  "give_back s i key c =
     (case ln_libs s c of
        None \<Rightarrow> None
      | Some ls \<Rightarrow>
          (case RevokeLease ls key of (ls1, status) \<Rightarrow>
             (case snd (callCacheRPC {} key c True (Some status) 0) of
                None \<Rightarrow> None
              | Some r \<Rightarrow>
                  map_option (\<lambda>(a, es). ((set_app s i a)\<lparr>ln_libs := (ln_libs s)(c \<mapsto> ls1)\<rparr>, es))
                    (appHandler (ln_apps s i) r))))"

fun lease_step :: "lease_net \<Rightarrow> lease_event \<Rightarrow> lease_net option" where
  "lease_step s (Read c key delay) = map_option snd (read_string s c key delay)"
| "lease_step s (ReadList c key delay) = map_option snd (read_list s c key delay)"
| "lease_step s (Write r) =
     (if is_modify (cr_typ r)
      then (let i = owner (ln_nodes s) (cr_key r) in
            map_option (\<lambda>(a, es). set_app s i a) (appHandler (ln_apps s i) r))
      else None)"
| "lease_step s (GiveBack i key c) = map_option fst (give_back s i key c)"
| "lease_step s (Fire i ch) =
     (if ln_due s i ch \<le> ln_now s
      then map_option (\<lambda>(a, es). set_app s i a) (storage_exec (ln_apps s i) (TimerFires ch 0))
      else None)"
| "lease_step s (Tick d) = Some (s\<lparr>ln_now := ln_now s + int d\<rparr>)"
| "lease_step s (Collect c) =
     (case ln_libs s c of
        None \<Rightarrow> None
      | Some ls \<Rightarrow>
          Some (s\<lparr>ln_libs := (ln_libs s)(c \<mapsto>
            fst (to_cache (ln_now s) (fst (to_cache (ln_now s) ls (cacheTimer QUERY_COLLECT)))
                  (cacheTimer GARBAGE_COLLECT)))\<rparr>))"

subsection \<open>The invariant\<close>

definition matches :: "cache_value \<Rightarrow> aval option \<Rightarrow> bool" where
  "matches v m =
     (case v of
        CStr x \<Rightarrow> m = Some (AStr x)
      | CList xs \<Rightarrow> m = Some (AList xs) \<or> xs = [] \<and> (\<exists>x. m = Some (AStr x)))"

definition fresh :: "int \<Rightarrow> CacheEntry \<Rightarrow> bool" where
  "fresh now e \<longleftrightarrow> \<not> revoked e \<and> now \<le> expiryTime e"

definition stored_at :: "lease_net \<Rightarrow> string \<Rightarrow> aval option" where
  "stored_at s key = abs_cache (cacheMap (ln_apps s (owner (ln_nodes s) key))) key"

definition covered :: "lease_net \<Rightarrow> string \<Rightarrow> string \<Rightarrow> CacheEntry \<Rightarrow> bool" where
  "covered s c key e \<longleftrightarrow>
     (\<exists>ch. lease_of (ln_apps s (owner (ln_nodes s) key)) key c = Some ch \<and>
        expiryTime e < ln_due s (owner (ln_nodes s) key) ch) \<and>
     matches (ce_value e) (stored_at s key)"

definition lib_ok :: "lease_net \<Rightarrow> string \<Rightarrow> Libstore \<Rightarrow> bool" where
  "lib_ok s c ls \<longleftrightarrow> nodelist ls = ln_nodes s \<and> ls_myhostport ls = c \<and> c \<noteq> '''' \<and>
     ls_connMap ls \<subseteq> {..< length (ln_nodes s)} \<and> gmap_ok (lc_cacheMap (ls_cache ls))"

definition coherent :: "lease_net \<Rightarrow> bool" where
  "coherent s \<longleftrightarrow>
     ln_nodes s \<noteq> [] \<and> distinct (map NodeID (ln_nodes s)) \<and>
     (\<forall>i. storage_inv (ln_apps s i)) \<and>
     (\<forall>c ls. ln_libs s c = Some ls \<longrightarrow> lib_ok s c ls) \<and>
     (\<forall>c ls key e. ln_libs s c = Some ls \<longrightarrow> gget (lc_cacheMap (ls_cache ls)) key = Some e \<longrightarrow>
        fresh (ln_now s) e \<longrightarrow> covered s c key e)"


text \<open>Nothing is deferred, and every lease belongs to a client that can be called.\<close>

definition idle :: "lease_net \<Rightarrow> bool" where
  "idle s \<longleftrightarrow> (\<forall>i k. pending (ln_apps s i) k = []) \<and>
     (\<forall>i k c. lease_of (ln_apps s i) k c \<noteq> None \<longrightarrow> ln_libs s c \<noteq> None)"

subsection \<open>What a request does to the leases\<close>

lemma put_lease_moves:
  assumes "appHandler s r = Some (s', es)" and t: "cr_typ r = S_PUT_LEASE"
  shows "cacheMap s' = cacheMap s \<and> defReqMap s' = defReqMap s \<and>
    (answer_to r es = Some (SBool False) \<and> s' = s \<or>
     answer_to r es = Some (SBool True) \<and> next_timer s' = next_timer s + 1 \<and>
     lease_moves s s' (cr_key r) (cr_value r) (Some (next_timer s)))"
proof -
  have p: "put_lease s r = Some (s', es)"
    using assms by (auto simp: appHandler_def pre_check_def process_request_def is_modify_def split: option.splits)
  show ?thesis
  proof (cases "banLeaseMap s (cr_key r) = None")
    case False
    with p show ?thesis by (auto simp: put_lease_def Let_def)
  next
    case True
    then show ?thesis using p
      by (cases "leaseMap s (cr_key r)")
         (auto simp: put_lease_def Let_def start_timer_def stop_timer_def lease_moves_def lease_of_def
           split: option.splits if_splits)
  qed
qed


subsection \<open>A read at the server\<close>

text \<open>The owner of a key is the server that accepts it.\<close>

lemma isKeyInRange_owner:
  "nodes \<noteq> [] \<Longrightarrow> isKeyInRange (server_at nodes (owner nodes key)) key = Some True"
  using ring_machine_owns [of nodes "key_hash key"]
  by (simp add: isKeyInRange_def server_at_def owner_def owns_def Let_def)

lemma owner_bound: "nodes \<noteq> [] \<Longrightarrow> owner nodes key < length nodes"
  using ring_machine_owns [of nodes "key_hash key"] by (simp add: owner_def owns_def)

lemma serve_put_lease:
  assumes inv: "storage_inv s"
  obtains s' b where "serve s (ask S_PUT_LEASE k c n) = Some (s', SBool b)" "storage_inv s'"
    "cacheMap s' = cacheMap s" "defReqMap s' = defReqMap s" "\<not> b \<Longrightarrow> s' = s"
    "b \<Longrightarrow> next_timer s' = next_timer s + 1 \<and> lease_moves s s' k c (Some (next_timer s))"
proof -
  let ?r = "ask S_PUT_LEASE k c n"
  from good_ask [OF inv, of ?r] obtain s' es where h: "appHandler s ?r = Some (s', es)"
    and g: "good_step s (asked (Ask ?r)) s' es" by auto
  from put_lease_moves [OF h] have m: "cacheMap s' = cacheMap s" "defReqMap s' = defReqMap s"
    "answer_to ?r es = Some (SBool False) \<and> s' = s \<or>
     answer_to ?r es = Some (SBool True) \<and> next_timer s' = next_timer s + 1 \<and>
       lease_moves s s' k c (Some (next_timer s))" by simp_all
  have inv': "storage_inv s'" using g by (simp add: good_step_def)
  from m(3) show thesis
  proof
    assume a: "answer_to ?r es = Some (SBool False) \<and> s' = s"
    show thesis by (rule that [of s' False]) (use a h inv' m(1,2) in \<open>simp_all add: serve_def\<close>)
  next
    assume a: "answer_to ?r es = Some (SBool True) \<and> next_timer s' = next_timer s + 1 \<and>
       lease_moves s s' k c (Some (next_timer s))"
    show thesis by (rule that [of s' True]) (use a h inv' m(1,2) in \<open>simp_all add: serve_def\<close>)
  qed
qed

definition read_moves :: "app_state \<Rightarrow> app_state \<Rightarrow> string \<Rightarrow> string \<Rightarrow> bool \<Rightarrow> bool" where
  "read_moves s s' k c granted \<longleftrightarrow> storage_inv s' \<and> cacheMap s' = cacheMap s \<and> defReqMap s' = defReqMap s \<and>
     (if granted then next_timer s' = next_timer s + 1 \<and> lease_moves s s' k c (Some (next_timer s)) else s' = s)"

lemma serve_get:
  "serve s (ask GET_VALUE k v n) = Some (s, get_value (cacheMap s) k)"
  "cache_ok (cacheMap s) \<Longrightarrow> \<exists>v'. serve s (ask GET_LIST_VALUE k v n) = Some (s, v') \<and>
     get_list_value (cacheMap s) k = Some v'"
proof -
  show "serve s (ask GET_VALUE k v n) = Some (s, get_value (cacheMap s) k)"
    by (simp add: serve_def appHandler_def pre_check_def process_request_def is_modify_def split: option.split)
  assume "cache_ok (cacheMap s)"
  from get_spec(2) [OF this, of "ask GET_LIST_VALUE k v n"]
  show "\<exists>v'. serve s (ask GET_LIST_VALUE k v n) = Some (s, v') \<and> get_list_value (cacheMap s) k = Some v'"
    by (auto simp: serve_def appHandler_def pre_check_def process_request_def is_modify_def split: option.split)
qed

text \<open>The common part of the two reads: an answer without a value ends the call, an answer with
  a value is followed by the request for the lease.\<close>

lemma call_with_result:
  assumes inv: "storage_inv (w i)" and s: "serve (w i) r = Some (w i, v)"
    and f: "finish v = (if ok then Some (if wl then Inr (reply, ask S_PUT_LEASE k c n) else Inl reply)
       else Some (Inl bad))"
    and nl: "\<not> Granted (sg_Lease reply)" "\<not> Granted (sg_Lease bad)"
  obtains a reply' where "call_with (Some (Inr r)) finish i w = (Some reply', w(i := a))"
    "sg_Status reply' = sg_Status (if ok then reply else bad)"
    "sg_Value reply' = sg_Value (if ok then reply else bad)"
    "read_moves (w i) a k c (Granted (sg_Lease reply'))"
    "Granted (sg_Lease reply') \<Longrightarrow> ok \<and> wl \<and> ValidSeconds (sg_Lease reply') = LEASE_SECONDS"
proof (cases "ok \<and> wl")
  case False
  have w: "w(i := w i) = w" by simp
  have "read_moves (w i) (w i) k c False" using inv by (simp add: read_moves_def)
  with False s f nl show thesis
    by (intro that [of "if ok then reply else bad" "w i"]) (auto simp: call_with_def split: if_splits)
next
  case True
  obtain s' b where p: "serve (w i) (ask S_PUT_LEASE k c n) = Some (s', SBool b)" "storage_inv s'"
    "cacheMap s' = cacheMap (w i)" "defReqMap s' = defReqMap (w i)" "\<not> b \<Longrightarrow> s' = w i"
    "b \<Longrightarrow> next_timer s' = next_timer (w i) + 1 \<and> lease_moves (w i) s' k c (Some (next_timer (w i)))"
    using serve_put_lease [OF inv] by blast
  let ?reply = "if b then reply\<lparr>sg_Lease := \<lparr>Granted = True, ValidSeconds = LEASE_SECONDS\<rparr>\<rparr>
                else reply\<lparr>sg_Lease := (sg_Lease reply)\<lparr>Granted := False\<rparr>\<rparr>"
  have "read_moves (w i) s' k c b" using p by (simp add: read_moves_def)
  with True s f p(1) show thesis
    by (intro that [of ?reply s']) (auto simp: call_with_def Get_lease_def)
qed


definition string_at :: "aval option \<Rightarrow> string option" where
  "string_at m = (case m of Some (AStr v) \<Rightarrow> Some v | _ \<Rightarrow> None)"

definition list_at :: "aval option \<Rightarrow> string list option" where
  "list_at m = (case m of Some (AList xs) \<Rightarrow> Some xs | Some (AStr _) \<Rightarrow> Some [] | None \<Rightarrow> None)"

lemma call_Get_result:
  assumes ne: "nodes \<noteq> []" and i: "i = owner nodes key" and inv: "storage_inv (w i)"
  obtains a reply where
    "call_Get nodes i \<lparr>ga_Key = key, WantLease = wl, LeaseClient = c\<rparr> w = (Some reply, w(i := a))"
    "(if sg_Status reply = S_OK then Some (sg_Value reply) else None) = string_at (abs_cache (cacheMap (w i)) key)"
    "read_moves (w i) a key c (Granted (sg_Lease reply))"
    "Granted (sg_Lease reply) \<Longrightarrow> sg_Status reply = S_OK \<and> wl \<and> ValidSeconds (sg_Lease reply) = LEASE_SECONDS"
proof -
  let ?args = "\<lparr>ga_Key = key, WantLease = wl, LeaseClient = c\<rparr>"
  let ?m = "abs_cache (cacheMap (w i)) key"
  have b: "Get_begin (server_at nodes i) ?args 0 = Some (Inr (ask GET_VALUE key '''' 0))"
    using isKeyInRange_owner [OF ne] by (simp add: Get_begin_def i)
  define ok where "ok = (string_at ?m \<noteq> None)"
  let ?bad = "\<lparr>sg_Status = EKEYNOTFOUND, sg_Value = '''', sg_Lease = no_lease\<rparr>"
  let ?good = "\<lparr>sg_Status = S_OK, sg_Value = the (string_at ?m), sg_Lease = no_lease\<rparr>"
  have f: "Get_value ?args 1 (get_value (cacheMap (w i)) key) =
      (if ok then Some (if wl then Inr (?good, ask S_PUT_LEASE key c 1) else Inl ?good) else Some (Inl ?bad))"
    by (auto simp: Get_value_def get_value_def ok_def string_at_def abs_cache_def Let_def
        split: option.splits stored.splits)
  show thesis
  proof (rule call_with_result [where w = w and i = i and finish = "Get_value ?args 1", OF inv serve_get(1) [of "w i" key "''''" 0] f])
    show "\<not> Granted (sg_Lease ?good)" "\<not> Granted (sg_Lease ?bad)" by (simp_all add: no_lease_def)
  next
    fix a reply
    assume r: "call_with (Some (Inr (ask GET_VALUE key '''' 0))) (Get_value ?args 1) i w = (Some reply, w(i := a))"
      "sg_Status reply = sg_Status (if ok then ?good else ?bad)" "sg_Value reply = sg_Value (if ok then ?good else ?bad)"
      "read_moves (w i) a key c (Granted (sg_Lease reply))"
      "Granted (sg_Lease reply) \<Longrightarrow> ok \<and> wl \<and> ValidSeconds (sg_Lease reply) = LEASE_SECONDS"
    show thesis
    proof (rule that [OF _ _ r(4)])
      show "call_Get nodes i ?args w = (Some reply, w(i := a))" using r(1) b by (simp add: call_Get_def)
      show "(if sg_Status reply = S_OK then Some (sg_Value reply) else None) = string_at ?m"
        using r(2,3) by (auto simp: ok_def)
      show "Granted (sg_Lease reply) \<Longrightarrow> sg_Status reply = S_OK \<and> wl \<and> ValidSeconds (sg_Lease reply) = LEASE_SECONDS"
        using r(2,5) by auto
    qed
  qed
qed

lemma call_GetList_result:
  assumes ne: "nodes \<noteq> []" and i: "i = owner nodes key" and inv: "storage_inv (w i)"
  obtains a reply where
    "call_GetList nodes i \<lparr>ga_Key = key, WantLease = wl, LeaseClient = c\<rparr> w = (Some reply, w(i := a))"
    "(if sg_Status reply = S_OK then Some (sg_Value reply) else None) = list_at (abs_cache (cacheMap (w i)) key)"
    "read_moves (w i) a key c (Granted (sg_Lease reply))"
    "Granted (sg_Lease reply) \<Longrightarrow> sg_Status reply = S_OK \<and> wl \<and> ValidSeconds (sg_Lease reply) = LEASE_SECONDS"
proof -
  let ?args = "\<lparr>ga_Key = key, WantLease = wl, LeaseClient = c\<rparr>"
  let ?m = "abs_cache (cacheMap (w i)) key"
  have b: "GetList_begin (server_at nodes i) ?args 0 = Some (Inr (ask GET_LIST_VALUE key '''' 0))"
    using isKeyInRange_owner [OF ne] by (simp add: GetList_begin_def i)
  define ok where "ok = (list_at ?m \<noteq> None)"
  let ?bad = "\<lparr>sg_Status = EITEMNOTFOUND, sg_Value = [], sg_Lease = no_lease\<rparr>"
  let ?good = "\<lparr>sg_Status = S_OK, sg_Value = the (list_at ?m), sg_Lease = no_lease\<rparr>"
  obtain v where v: "serve (w i) (ask GET_LIST_VALUE key '''' 0) = Some (w i, v)"
    "get_list_value (cacheMap (w i)) key = Some v"
    using serve_get(2) [OF storage_invD(1) [OF inv]] by blast
  have f: "GetList_value ?args 1 v =
      (if ok then Some (if wl then Inr (?good, ask S_PUT_LEASE key c 1) else Inl ?good) else Some (Inl ?bad))"
    using v(2)
    by (auto simp: GetList_value_def get_list_value_def ok_def list_at_def abs_cache_def Let_def
        split: option.splits stored.splits)
  show thesis
  proof (rule call_with_result [where w = w and i = i and finish = "GetList_value ?args 1", OF inv v(1) f])
    show "\<not> Granted (sg_Lease ?good)" "\<not> Granted (sg_Lease ?bad)" by (simp_all add: no_lease_def)
  next
    fix a reply
    assume r: "call_with (Some (Inr (ask GET_LIST_VALUE key '''' 0))) (GetList_value ?args 1) i w = (Some reply, w(i := a))"
      "sg_Status reply = sg_Status (if ok then ?good else ?bad)" "sg_Value reply = sg_Value (if ok then ?good else ?bad)"
      "read_moves (w i) a key c (Granted (sg_Lease reply))"
      "Granted (sg_Lease reply) \<Longrightarrow> ok \<and> wl \<and> ValidSeconds (sg_Lease reply) = LEASE_SECONDS"
    show thesis
    proof (rule that [OF _ _ r(4)])
      show "call_GetList nodes i ?args w = (Some reply, w(i := a))" using r(1) b by (simp add: call_GetList_def)
      show "(if sg_Status reply = S_OK then Some (sg_Value reply) else None) = list_at ?m"
        using r(2,3) by (auto simp: ok_def)
      show "Granted (sg_Lease reply) \<Longrightarrow> sg_Status reply = S_OK \<and> wl \<and> ValidSeconds (sg_Lease reply) = LEASE_SECONDS"
        using r(2,5) by auto
    qed
  qed
qed


subsection \<open>A read at the client\<close>

text \<open>Looking into the cache, counting queries and collecting only take entries away.\<close>

definition fewer :: "(string, CacheEntry) gomap \<Rightarrow> (string, CacheEntry) gomap \<Rightarrow> bool" where
  "fewer m m' \<longleftrightarrow> (gmap_ok m \<longrightarrow> gmap_ok m') \<and>
     (\<forall>k e. gget m' k = Some e \<longrightarrow> \<not> revoked e \<longrightarrow> gget m k = Some e)"

lemma fewer_refl [simp]: "fewer m m"
  by (simp add: fewer_def)

lemma fewer_trans: "fewer m m1 \<Longrightarrow> fewer m1 m2 \<Longrightarrow> fewer m m2"
  by (auto simp: fewer_def)

lemma fewer_mark: "gget m key = Some e \<Longrightarrow> fewer m (gput key (mark_expired now e) m)"
  by (auto simp: fewer_def mark_expired_def split: if_splits)

lemma fewer_revoke: "fewer m (gput key (e\<lparr>revoked := True\<rparr>) m)"
  by (auto simp: fewer_def split: if_splits)

lemma gget_filter: "gmap_ok m \<Longrightarrow> gget (filter P m) k = Some e \<Longrightarrow> gget m k = Some e"
  by (metis distinct_map_filter filter_is_subset gmap_ok_def map_of_SomeD map_of_is_SomeI subsetD)

lemma fewer_collect: "gmap_ok m \<Longrightarrow> fewer m (filter P m)"
  by (auto simp: fewer_def gmap_ok_def distinct_map_filter intro: gget_filter [unfolded gmap_ok_def])

lemma fetch_cache_result:
  assumes "fetch_cache now lc key = (lc', v)"
  shows "fewer (lc_cacheMap lc) (lc_cacheMap lc')"
    and "v = CRNil \<or> (\<exists>x e. v = CRStr x \<and> gget (lc_cacheMap lc) key = Some e \<and> fresh now e \<and> ce_value e = CStr x)"
  using assms
  by (auto simp: fetch_cache_def Let_def fewer_mark split: option.splits if_splits)
     (auto simp: fetch_cache_def Let_def fresh_def mark_expired_def split: option.splits if_splits cache_value.splits)

lemma fetch_cache_list_result:
  assumes "fetch_cache_list now lc key = (lc', v)"
  shows "fewer (lc_cacheMap lc) (lc_cacheMap lc')"
    and "v = CRNil \<or> (\<exists>xs e. v = CRList xs \<and> gget (lc_cacheMap lc) key = Some e \<and> fresh now e \<and> ce_value e = CList xs)"
  using assms
  by (auto simp: fetch_cache_list_def Let_def fewer_mark split: option.splits if_splits)
     (auto simp: fetch_cache_list_def Let_def fresh_def mark_expired_def split: option.splits if_splits cache_value.splits)

definition same_lib :: "Libstore \<Rightarrow> Libstore \<Rightarrow> bool" where
  "same_lib ls ls' \<longleftrightarrow> nodelist ls' = nodelist ls \<and> ls_myhostport ls' = ls_myhostport ls \<and>
     ls_connMap ls \<subseteq> ls_connMap ls' \<and> fewer (lc_cacheMap (ls_cache ls)) (lc_cacheMap (ls_cache ls'))"

lemma want_lease_same: "want_lease now ls key = (ls1, b) \<Longrightarrow> same_lib ls ls1 \<and> ls_connMap ls1 = ls_connMap ls"
  by (auto simp: want_lease_def to_cache_def cacheHandler_def cache_req_def new_query_def same_lib_def Let_def
      split: if_splits)

lemma getServer_ok:
  assumes ne: "nodelist ls \<noteq> []"
  shows "\<exists>ls'. getServer (\<lambda>_. True) ls key = Some (Some (owner (nodelist ls) key), ls') \<and> same_lib ls ls' \<and>
    ls_connMap ls' \<subseteq> insert (owner (nodelist ls) key) (ls_connMap ls)"
  using owner_bound [OF ne, of key]
  by (auto simp: getServer_def Let_def owner_def same_lib_def)

lemma same_lib_ok:
  assumes "lib_ok s c ls" and "same_lib ls ls'" and "ls_connMap ls' \<subseteq> {..< length (ln_nodes s)}"
  shows "lib_ok s c ls'"
  using assms by (auto simp: lib_ok_def same_lib_def fewer_def)

subsection \<open>A read keeps the invariant\<close>

lemma coherentD:
  assumes "coherent s"
  shows "ln_nodes s \<noteq> []" "distinct (map NodeID (ln_nodes s))" "storage_inv (ln_apps s i)"
    "ln_libs s c = Some ls \<Longrightarrow> lib_ok s c ls"
    "ln_libs s c = Some ls \<Longrightarrow> gget (lc_cacheMap (ls_cache ls)) key = Some e \<Longrightarrow> fresh (ln_now s) e \<Longrightarrow>
       covered s c key e"
  using assms by (auto simp: coherent_def)

lemma covered_keep:
  assumes "covered s c key e" and "ln_nodes s' = ln_nodes s"
    and "lease_of (ln_apps s' (owner (ln_nodes s) key)) key c = lease_of (ln_apps s (owner (ln_nodes s) key)) key c"
    and "stored_at s' key = stored_at s key"
    and "\<And>ch. lease_of (ln_apps s (owner (ln_nodes s) key)) key c = Some ch \<Longrightarrow>
      ln_due s' (owner (ln_nodes s) key) ch = ln_due s (owner (ln_nodes s) key) ch"
  shows "covered s' c key e"
  using assms by (auto simp: covered_def)

lemma lease_timer_old:
  "storage_inv a \<Longrightarrow> lease_of a k c = Some ch \<Longrightarrow> ch < next_timer a"
  using storage_invD(2) [of a] by (auto simp: leases_inv_def)

definition new_entry :: "cache_value \<Rightarrow> int \<Rightarrow> CacheEntry" where
  "new_entry v t = \<lparr>ce_value = v, revoked = False, expiryTime = t + LEASE_SECONDS * SECOND\<rparr>"

lemma coherent_read:
  assumes coh: "coherent s" and ls: "ln_libs s c = Some ls" and i: "i = owner (ln_nodes s) key"
    and mv: "read_moves (ln_apps s i) a key c granted" and lib: "lib_ok s c ls'" and d: "int delay < GUARD"
    and old: "\<And>k e. gget (lc_cacheMap (ls_cache ls')) k = Some e \<Longrightarrow> \<not> revoked e \<Longrightarrow>
      (k = key \<and> granted \<and> e = new_entry v (ln_now s + int delay)) \<or>
      (\<not> (k = key \<and> granted) \<and> gget (lc_cacheMap (ls_cache ls)) k = Some e)"
    and mat: "granted \<Longrightarrow> matches v (stored_at s key)"
    and s': "s' = s\<lparr>ln_libs := (ln_libs s)(c \<mapsto> ls'), ln_apps := (ln_apps s)(i := a),
      ln_due := new_due s ((ln_apps s)(i := a)), ln_now := ln_now s + int delay\<rparr>"
  shows "coherent s'" and "stored_at s' k = stored_at s k" and "idle s \<Longrightarrow> idle s'"
proof -
  have pe: "pending a k = pending (ln_apps s i) k" for k
    using mv by (simp add: read_moves_def pending_def)
  have lo: "lease_of a k c' \<noteq> None \<Longrightarrow> c' = c \<or> lease_of (ln_apps s i) k c' \<noteq> None" for k c'
    using mv by (auto simp: read_moves_def lease_moves_def split: if_splits)
  show "idle s'" if "idle s"
    using that pe lo unfolding idle_def by (auto simp: s') blast
  have st: "stored_at s' k = stored_at s k" for k
    using mv by (auto simp: stored_at_def s' read_moves_def)
  then show "stored_at s' k = stored_at s k" .
  have due: "ln_due s' j ch = ln_due s j ch" if "lease_of (ln_apps s j) k' c' = Some ch" for j ch k' c'
    using lease_timer_old [OF coherentD(3) [OF coh] that] by (simp add: s' new_due_def)
  have cov: "covered s' c' k' e" if l: "ln_libs s' c' = Some l" and g: "gget (lc_cacheMap (ls_cache l)) k' = Some e"
    and f: "fresh (ln_now s') e" for c' l k' e
  proof (cases "c' = c \<and> k' = key \<and> granted")
    case True
    have e: "e = new_entry v (ln_now s + int delay)" using old [of k' e] True l g f by (auto simp: s' fresh_def)
    have m: "next_timer a = next_timer (ln_apps s i) + 1" "lease_of a key c = Some (next_timer (ln_apps s i))"
      using mv True by (auto simp: read_moves_def lease_moves_def)
    then have "ln_due s' i (next_timer (ln_apps s i)) = lease_end (ln_now s)" by (simp add: s' new_due_def)
    moreover have "expiryTime e < lease_end (ln_now s)"
      using d by (simp add: e new_entry_def lease_end_def GUARD_def algebra_simps)
    ultimately show ?thesis using True m mat st [of key]
      by (auto simp: covered_def s' i e new_entry_def)
  next
    case False
    have keep: "covered s c' k' e"
    proof (cases "c' = c")
      case True
      then have "gget (lc_cacheMap (ls_cache ls)) k' = Some e" using old [of k' e] False l g f by (auto simp: s' fresh_def)
      moreover have "fresh (ln_now s) e" using f by (simp add: fresh_def s')
      ultimately show ?thesis using coherentD(5) [OF coh] ls True by blast
    next
      case False
      then show ?thesis using coherentD(5) [OF coh, of c' l k' e] l g f by (auto simp: s' fresh_def)
    qed
    have L: "lease_of (ln_apps s' (owner (ln_nodes s) k')) k' c' = lease_of (ln_apps s (owner (ln_nodes s) k')) k' c'"
      using mv False by (cases granted) (auto simp: s' read_moves_def lease_moves_def)
    show ?thesis by (rule covered_keep [OF keep _ L st due]) (simp_all add: s')
  qed
  show "coherent s'"
    unfolding coherent_def
  proof (intro conjI allI impI)
    show "ln_nodes s' \<noteq> []" "distinct (map NodeID (ln_nodes s'))"
      using coherentD(1,2) [OF coh] by (simp_all add: s')
    show "storage_inv (ln_apps s' j)" for j
      using coherentD(3) [OF coh, of j] mv by (simp add: s' read_moves_def)
    show "ln_libs s' c' = Some l \<Longrightarrow> lib_ok s' c' l" for c' l
      using coherentD(4) [OF coh, of c' l] lib by (auto simp: s' lib_ok_def split: if_splits)
  qed (rule cov)
qed


text \<open>The two reads: what they answer and that they keep the invariant.\<close>

lemma fewer_put:
  assumes "fewer m0 m" and "gget (gput key (new_entry v t) m) k = Some e" and "\<not> revoked e"
  shows "k = key \<and> e = new_entry v t \<or> k \<noteq> key \<and> gget m0 k = Some e"
  using assms by (auto simp: fewer_def split: if_splits)

lemma lib_ok_create:
  "lib_ok s c ls \<Longrightarrow> lib_ok s c (fst (to_cache t ls (cache_req CREATE_CACHE n key v)))"
  by (simp add: lib_ok_def to_cache_def cacheHandler_def cache_req_def create_cache_def)

lemma create_entries:
  "lc_cacheMap (ls_cache (fst (to_cache t ls (cache_req CREATE_CACHE LEASE_SECONDS key v)))) =
     gput key (new_entry v t) (lc_cacheMap (ls_cache ls))"
  by (simp add: to_cache_def cacheHandler_def cache_req_def create_cache_def new_entry_def)

lemma matches_string: "string_at m = Some x \<Longrightarrow> matches (CStr x) m"
  by (auto simp: string_at_def matches_def split: option.splits aval.splits)

lemma matches_list: "list_at m = Some xs \<Longrightarrow> matches (CList xs) m"
  by (auto simp: list_at_def matches_def split: option.splits aval.splits)

lemma string_matches: "matches (CStr x) m \<Longrightarrow> string_at m = Some x"
  by (simp add: string_at_def matches_def)

lemma list_matches: "matches (CList xs) m \<Longrightarrow> list_at m = Some xs"
  by (auto simp: list_at_def matches_def)

lemma read_end:
  assumes coh: "coherent s" and ls: "ln_libs s c = Some ls" and i: "i = owner (ln_nodes s) key"
    and lib: "same_lib ls ls3" "ls_connMap ls3 \<subseteq> {..< length (ln_nodes s)}" and d: "int delay < GUARD"
    and mv: "read_moves (ln_apps s i) a key c granted" and mat: "granted \<Longrightarrow> matches v (stored_at s key)"
    and ls': "ls' = (if granted then fst (to_cache (ln_now s + int delay) ls3 (cache_req CREATE_CACHE LEASE_SECONDS key v)) else ls3)"
    and s': "s' = s\<lparr>ln_libs := (ln_libs s)(c \<mapsto> ls'), ln_apps := (ln_apps s)(i := a),
      ln_due := new_due s ((ln_apps s)(i := a)), ln_now := ln_now s + int delay\<rparr>"
  shows "coherent s' \<and> (\<forall>k. stored_at s' k = stored_at s k) \<and> (idle s \<longrightarrow> idle s')"
proof -
  have ok3: "lib_ok s c ls3" by (rule same_lib_ok [OF coherentD(4) [OF coh ls] lib])
  have few: "fewer (lc_cacheMap (ls_cache ls)) (lc_cacheMap (ls_cache ls3))" using lib(1) by (simp add: same_lib_def)
  have ok: "lib_ok s c ls'" using ok3 lib_ok_create by (auto simp: ls')
  have old: "(k = key \<and> granted \<and> e = new_entry v (ln_now s + int delay)) \<or>
      (\<not> (k = key \<and> granted) \<and> gget (lc_cacheMap (ls_cache ls)) k = Some e)"
    if "gget (lc_cacheMap (ls_cache ls')) k = Some e" "\<not> revoked e" for k e
  proof (cases granted)
    case True
    then have "lc_cacheMap (ls_cache ls') = gput key (new_entry v (ln_now s + int delay)) (lc_cacheMap (ls_cache ls3))"
      by (simp add: ls' create_entries)
    with fewer_put [OF few, of key v "ln_now s + int delay" k e] that True show ?thesis by auto
  next
    case False
    with that few show ?thesis by (auto simp: ls' fewer_def)
  qed
  from coherent_read [OF coh ls i mv ok d old mat s'] show ?thesis by blast
qed

lemma read_string_result:
  assumes coh: "coherent s" and ls: "ln_libs s c = Some ls" and d: "int delay < GUARD"
  shows "\<exists>s'. read_string s c key delay = Some (string_at (stored_at s key), s') \<and> coherent s' \<and>
    (\<forall>k. stored_at s' k = stored_at s k) \<and> (idle s \<longrightarrow> idle s') \<and> ln_libs s' c \<noteq> None"
proof -
  let ?i = "owner (ln_nodes s) key" and ?now = "ln_now s"
  note C = coherentD [OF coh]
  have lib: "lib_ok s c ls" by (rule C(4) [OF ls])
  then have L: "nodelist ls = ln_nodes s" "ls_myhostport ls = c" "c \<noteq> ''''" "ls_connMap ls \<subseteq> {..< length (ln_nodes s)}"
    by (auto simp: lib_ok_def)
  obtain ls1 wl where w: "want_lease ?now ls key = (ls1, wl)" by fastforce
  have s1: "same_lib ls ls1" "ls_connMap ls1 = ls_connMap ls" using want_lease_same [OF w] by simp_all
  obtain lc v where f: "fetch_cache ?now (ls_cache ls1) key = (lc, v)" by fastforce
  let ?ls2 = "ls1\<lparr>ls_cache := lc\<rparr>"
  have tc: "to_cache ?now ls1 (cache_req FETCH_CACHE 0 key (CStr '''')) = (?ls2, v)"
    by (simp add: to_cache_def cacheHandler_def cache_req_def f)
  have s2: "same_lib ls ?ls2" using s1(1) fetch_cache_result(1) [OF f] by (auto simp: same_lib_def intro: fewer_trans)
  have stay: "(ln_apps s)(?i := ln_apps s ?i) = ln_apps s" by simp
  have rm: "read_moves (ln_apps s ?i) (ln_apps s ?i) key c False" using C(3) by (simp add: read_moves_def)
  from fetch_cache_result(2) [OF f] consider
      (hit) x e where "v = CRStr x" "gget (lc_cacheMap (ls_cache ls1)) key = Some e" "fresh ?now e" "ce_value e = CStr x"
    | (miss) "v = CRNil" by blast
  then show ?thesis
  proof cases
    case hit
    have "gget (lc_cacheMap (ls_cache ls)) key = Some e"
      using hit(2,3) s1(1) by (simp add: same_lib_def fewer_def fresh_def)
    from C(5) [OF ls this hit(3)] hit(4) have st: "string_at (stored_at s key) = Some x"
      by (intro string_matches) (simp add: covered_def)
    let ?s' = "s\<lparr>ln_libs := (ln_libs s)(c \<mapsto> ?ls2), ln_apps := ln_apps s, ln_due := new_due s (ln_apps s),
      ln_now := ?now + int delay\<rparr>"
    have "coherent ?s' \<and> (\<forall>k. stored_at ?s' k = stored_at s k) \<and> (idle s \<longrightarrow> idle ?s')"
      using s1(2) L(4) by (intro read_end [OF coh ls refl s2 _ d rm]) (simp_all add: stay)
    moreover have "read_string s c key delay = Some (Some x, ?s')"
      using d by (simp add: read_string_def ls iGet_def w L(2,3) tc hit(1))
    ultimately show ?thesis using st by auto
  next
    case miss
    have ne: "nodelist ?ls2 \<noteq> []" using C(1) L(1) s2 by (simp add: same_lib_def)
    from getServer_ok [OF ne, of key] obtain ls3 where
      g: "getServer (\<lambda>_. True) ?ls2 key = Some (Some ?i, ls3)" "same_lib ?ls2 ls3"
        "ls_connMap ls3 \<subseteq> insert ?i (ls_connMap ?ls2)" using s2 L(1) by (auto simp: same_lib_def)
    have s3: "same_lib ls ls3" using s2 g(2) by (auto simp: same_lib_def intro: fewer_trans)
    have cm: "ls_connMap ls3 \<subseteq> {..< length (ln_nodes s)}"
      using g(3) s1(2) L(4) owner_bound [OF C(1), of key] by auto
    obtain a reply where r:
      "call_Get (ln_nodes s) ?i \<lparr>ga_Key = key, WantLease = wl, LeaseClient = c\<rparr> (ln_apps s) = (Some reply, (ln_apps s)(?i := a))"
      "(if sg_Status reply = S_OK then Some (sg_Value reply) else None) = string_at (stored_at s key)"
      "read_moves (ln_apps s ?i) a key c (Granted (sg_Lease reply))"
      "Granted (sg_Lease reply) \<Longrightarrow> sg_Status reply = S_OK \<and> wl \<and> ValidSeconds (sg_Lease reply) = LEASE_SECONDS"
      using call_Get_result [where w = "ln_apps s", OF C(1) refl C(3)] unfolding stored_at_def by blast
    let ?ls' = "if Granted (sg_Lease reply)
      then fst (to_cache (?now + int delay) ls3 (cache_req CREATE_CACHE LEASE_SECONDS key (CStr (sg_Value reply)))) else ls3"
    let ?s' = "s\<lparr>ln_libs := (ln_libs s)(c \<mapsto> ?ls'), ln_apps := (ln_apps s)(?i := a),
      ln_due := new_due s ((ln_apps s)(?i := a)), ln_now := ?now + int delay\<rparr>"
    have "Granted (sg_Lease reply) \<Longrightarrow> matches (CStr (sg_Value reply)) (stored_at s key)"
      using r(2,4) by (intro matches_string) simp
    then have "coherent ?s' \<and> (\<forall>k. stored_at ?s' k = stored_at s k) \<and> (idle s \<longrightarrow> idle ?s')"
      by (intro read_end [OF coh ls refl s3 cm d r(3) _ refl refl])
    moreover have "read_string s c key delay = Some (string_at (stored_at s key), ?s')"
      using d r(1,4) r(2) [symmetric] by (auto simp: read_string_def ls iGet_def w L(2,3) tc miss g(1))
    moreover have "ln_libs ?s' c \<noteq> None" by simp
    ultimately show ?thesis by blast
  qed
qed

lemma read_list_result:
  assumes coh: "coherent s" and ls: "ln_libs s c = Some ls" and d: "int delay < GUARD"
  shows "\<exists>s'. read_list s c key delay = Some (list_at (stored_at s key), s') \<and> coherent s' \<and>
    (\<forall>k. stored_at s' k = stored_at s k) \<and> (idle s \<longrightarrow> idle s') \<and> ln_libs s' c \<noteq> None"
proof -
  let ?i = "owner (ln_nodes s) key" and ?now = "ln_now s"
  note C = coherentD [OF coh]
  have lib: "lib_ok s c ls" by (rule C(4) [OF ls])
  then have L: "nodelist ls = ln_nodes s" "ls_myhostport ls = c" "c \<noteq> ''''" "ls_connMap ls \<subseteq> {..< length (ln_nodes s)}"
    by (auto simp: lib_ok_def)
  obtain ls1 wl where w: "want_lease ?now ls key = (ls1, wl)" by fastforce
  have s1: "same_lib ls ls1" "ls_connMap ls1 = ls_connMap ls" using want_lease_same [OF w] by simp_all
  obtain lc v where f: "fetch_cache_list ?now (ls_cache ls1) key = (lc, v)" by fastforce
  let ?ls2 = "ls1\<lparr>ls_cache := lc\<rparr>"
  have tc: "to_cache ?now ls1 (cache_req FETCH_CACHE_LIST 0 key (CStr '''')) = (?ls2, v)"
    by (simp add: to_cache_def cacheHandler_def cache_req_def f)
  have s2: "same_lib ls ?ls2" using s1(1) fetch_cache_list_result(1) [OF f] by (auto simp: same_lib_def intro: fewer_trans)
  have stay: "(ln_apps s)(?i := ln_apps s ?i) = ln_apps s" by simp
  have rm: "read_moves (ln_apps s ?i) (ln_apps s ?i) key c False" using C(3) by (simp add: read_moves_def)
  from fetch_cache_list_result(2) [OF f] consider
      (hit) xs e where "v = CRList xs" "gget (lc_cacheMap (ls_cache ls1)) key = Some e" "fresh ?now e" "ce_value e = CList xs"
    | (miss) "v = CRNil" by blast
  then show ?thesis
  proof cases
    case hit
    have "gget (lc_cacheMap (ls_cache ls)) key = Some e"
      using hit(2,3) s1(1) by (simp add: same_lib_def fewer_def fresh_def)
    from C(5) [OF ls this hit(3)] hit(4) have st: "list_at (stored_at s key) = Some xs"
      by (intro list_matches) (simp add: covered_def)
    let ?s' = "s\<lparr>ln_libs := (ln_libs s)(c \<mapsto> ?ls2), ln_apps := ln_apps s, ln_due := new_due s (ln_apps s),
      ln_now := ?now + int delay\<rparr>"
    have "coherent ?s' \<and> (\<forall>k. stored_at ?s' k = stored_at s k) \<and> (idle s \<longrightarrow> idle ?s')"
      using s1(2) L(4) by (intro read_end [OF coh ls refl s2 _ d rm]) (simp_all add: stay)
    moreover have "read_list s c key delay = Some (Some xs, ?s')"
      using d by (simp add: read_list_def ls iGetList_def w L(2,3) tc hit(1))
    ultimately show ?thesis using st by auto
  next
    case miss
    have ne: "nodelist ?ls2 \<noteq> []" using C(1) L(1) s2 by (simp add: same_lib_def)
    from getServer_ok [OF ne, of key] obtain ls3 where
      g: "getServer (\<lambda>_. True) ?ls2 key = Some (Some ?i, ls3)" "same_lib ?ls2 ls3"
        "ls_connMap ls3 \<subseteq> insert ?i (ls_connMap ?ls2)" using s2 L(1) by (auto simp: same_lib_def)
    have s3: "same_lib ls ls3" using s2 g(2) by (auto simp: same_lib_def intro: fewer_trans)
    have cm: "ls_connMap ls3 \<subseteq> {..< length (ln_nodes s)}"
      using g(3) s1(2) L(4) owner_bound [OF C(1), of key] by auto
    obtain a reply where r:
      "call_GetList (ln_nodes s) ?i \<lparr>ga_Key = key, WantLease = wl, LeaseClient = c\<rparr> (ln_apps s) = (Some reply, (ln_apps s)(?i := a))"
      "(if sg_Status reply = S_OK then Some (sg_Value reply) else None) = list_at (stored_at s key)"
      "read_moves (ln_apps s ?i) a key c (Granted (sg_Lease reply))"
      "Granted (sg_Lease reply) \<Longrightarrow> sg_Status reply = S_OK \<and> wl \<and> ValidSeconds (sg_Lease reply) = LEASE_SECONDS"
      using call_GetList_result [where w = "ln_apps s", OF C(1) refl C(3)] unfolding stored_at_def by blast
    let ?ls' = "if Granted (sg_Lease reply)
      then fst (to_cache (?now + int delay) ls3 (cache_req CREATE_CACHE LEASE_SECONDS key (CList (sg_Value reply)))) else ls3"
    let ?s' = "s\<lparr>ln_libs := (ln_libs s)(c \<mapsto> ?ls'), ln_apps := (ln_apps s)(?i := a),
      ln_due := new_due s ((ln_apps s)(?i := a)), ln_now := ?now + int delay\<rparr>"
    have "Granted (sg_Lease reply) \<Longrightarrow> matches (CList (sg_Value reply)) (stored_at s key)"
      using r(2,4) by (intro matches_list) simp
    then have "coherent ?s' \<and> (\<forall>k. stored_at ?s' k = stored_at s k) \<and> (idle s \<longrightarrow> idle ?s')"
      by (intro read_end [OF coh ls refl s3 cm d r(3) _ refl refl])
    moreover have "read_list s c key delay = Some (list_at (stored_at s key), ?s')"
      using d r(1,4) r(2) [symmetric] by (auto simp: read_list_def ls iGetList_def w L(2,3) tc miss g(1))
    moreover have "ln_libs ?s' c \<noteq> None" by simp
    ultimately show ?thesis by blast
  qed
qed


subsection \<open>The other events\<close>

text \<open>A server moves: leases of other clients or other keys stay, and so do the values they
  protect.\<close>

lemma coherent_server:
  assumes coh: "coherent s" and g: "good_step (ln_apps s i) rs a es"
    and mv: "(\<forall>k c. lease_of a k c = lease_of (ln_apps s i) k c) \<or>
      (\<exists>k0 c0. lease_moves (ln_apps s i) a k0 c0 None \<and>
         (\<forall>l e. libs c0 = Some l \<longrightarrow> gget (lc_cacheMap (ls_cache l)) k0 = Some e \<longrightarrow>
            i = owner (ln_nodes s) k0 \<longrightarrow> \<not> fresh (ln_now s) e))"
    and libs: "\<And>c l. libs c = Some l \<Longrightarrow> \<exists>l0. ln_libs s c = Some l0 \<and> same_lib l0 l \<and> ls_connMap l = ls_connMap l0"
    and s': "s' = (set_app s i a)\<lparr>ln_libs := libs\<rparr>"
  shows "coherent s'"
proof -
  note C = coherentD [OF coh]
  have inv: "storage_inv a" using g by (simp add: good_step_def)
  have keep: "abs_cache (cacheMap a) k = abs_cache (cacheMap (ln_apps s i)) k" if "lease_of a k c = Some ch" for k c ch
  proof -
    have "leaseMap a k \<noteq> None" using that by (auto simp: lease_of_def split: option.splits)
    with g show ?thesis by (simp add: good_step_def)
  qed
  have cov: "covered s' c k e" if l: "ln_libs s' c = Some l" and e: "gget (lc_cacheMap (ls_cache l)) k = Some e"
    and f: "fresh (ln_now s') e" for c l k e
  proof -
    let ?o = "owner (ln_nodes s) k"
    have l': "libs c = Some l" "fresh (ln_now s) e" using l f by (simp_all add: s' set_app_def)
    then obtain l0 where l0: "ln_libs s c = Some l0" "same_lib l0 l" using libs by blast
    then have "gget (lc_cacheMap (ls_cache l0)) k = Some e"
      using e l'(2) by (simp add: same_lib_def fewer_def fresh_def)
    from C(5) [OF l0(1) this l'(2)] have c0: "covered s c k e" .
    have same: "lease_of a k c = lease_of (ln_apps s i) k c" if "?o = i"
      using mv l' e that by (auto simp: lease_moves_def)
    have L: "lease_of (ln_apps s' ?o) k c = lease_of (ln_apps s ?o) k c"
      using same by (auto simp: s' set_app_def)
    have st: "stored_at s' k = stored_at s k"
    proof (cases "?o = i")
      case True
      obtain ch where "lease_of (ln_apps s ?o) k c = Some ch" using c0 by (auto simp: covered_def)
      with same [OF True] True keep [of k c ch] show ?thesis by (simp add: stored_at_def s' set_app_def)
    qed (simp add: stored_at_def s' set_app_def)
    show ?thesis by (rule covered_keep [OF c0 _ L st]) (simp_all add: s' set_app_def)
  qed
  show ?thesis
    unfolding coherent_def
  proof (intro conjI allI impI)
    show "ln_nodes s' \<noteq> []" "distinct (map NodeID (ln_nodes s'))" using C(1,2) by (simp_all add: s' set_app_def)
    show "storage_inv (ln_apps s' j)" for j using C(3) [of j] inv by (simp add: s' set_app_def)
  next
    fix c l assume "ln_libs s' c = Some l"
    then have "libs c = Some l" by (simp add: s')
    from libs [OF this] obtain l0 where l0: "ln_libs s c = Some l0" "same_lib l0 l" "ls_connMap l = ls_connMap l0" by blast
    with C(4) [OF l0(1)] have "lib_ok s c l" by (intro same_lib_ok [of s c l0 l]) (auto simp: lib_ok_def)
    then show "lib_ok s' c l" by (simp add: lib_ok_def s' set_app_def)
  qed (rule cov)
qed

lemma libs_same: "ln_libs s c = Some l \<Longrightarrow> \<exists>l0. ln_libs s c = Some l0 \<and> same_lib l0 l \<and> ls_connMap l = ls_connMap l0"
  by (simp add: same_lib_def)

lemma RevokeLease_same: "same_lib ls (fst (RevokeLease ls key))" "ls_connMap (fst (RevokeLease ls key)) = ls_connMap ls"
  "gget (lc_cacheMap (ls_cache (fst (RevokeLease ls key)))) key = Some e \<Longrightarrow> revoked e"
  by (auto simp: RevokeLease_def same_lib_def fewer_revoke split: option.splits)

lemma collect_same:
  assumes "gmap_ok (lc_cacheMap (ls_cache ls))"
  shows "same_lib ls (fst (to_cache t (fst (to_cache t ls (cacheTimer QUERY_COLLECT))) (cacheTimer GARBAGE_COLLECT)))"
  using assms by (simp add: to_cache_def cacheHandler_def cacheTimer_def cache_req_def query_collect_def
      garbage_collect_def same_lib_def fewer_collect)

lemma coherent_libs:
  assumes coh: "coherent s"
    and libs: "\<And>c l. libs c = Some l \<Longrightarrow> \<exists>l0. ln_libs s c = Some l0 \<and> same_lib l0 l \<and> ls_connMap l = ls_connMap l0"
    and t: "ln_now s \<le> t"
  shows "coherent (s\<lparr>ln_libs := libs, ln_now := t\<rparr>)"
  unfolding coherent_def
proof (intro conjI allI impI)
  let ?s = "s\<lparr>ln_libs := libs, ln_now := t\<rparr>"
  note C = coherentD [OF coh]
  show "ln_nodes ?s \<noteq> []" "distinct (map NodeID (ln_nodes ?s))" using C(1,2) by simp_all
  show "storage_inv (ln_apps ?s j)" for j using C(3) [of j] by simp
  fix c l assume "ln_libs ?s c = Some l"
  then have l: "libs c = Some l" by simp
  from libs [OF this] obtain l0 where l0: "ln_libs s c = Some l0" "same_lib l0 l" "ls_connMap l = ls_connMap l0" by blast
  with C(4) [OF l0(1)] have "lib_ok s c l" by (intro same_lib_ok [of s c l0 l]) (auto simp: lib_ok_def)
  then show "lib_ok ?s c l" by (simp add: lib_ok_def)
  fix k e assume e: "gget (lc_cacheMap (ls_cache l)) k = Some e" "fresh (ln_now ?s) e"
  then have "gget (lc_cacheMap (ls_cache l0)) k = Some e" "fresh (ln_now s) e"
    using l0(2) t by (auto simp: same_lib_def fewer_def fresh_def)
  from C(5) [OF l0(1) this] show "covered ?s c k e" by (simp add: covered_def stored_at_def)
qed


lemma set_app_libs: "(set_app s i a)\<lparr>ln_libs := ln_libs s\<rparr> = set_app s i a"
  by (auto simp: set_app_def intro: lease_net.equality)

lemma coherent_step:
  assumes coh: "coherent s" and st: "lease_step s e = Some s'"
  shows "coherent s'"
proof (cases e)
  case (Read c key delay)
  with st obtain v where r: "read_string s c key delay = Some (v, s')" by auto
  then obtain ls where "ln_libs s c = Some ls" "int delay < GUARD"
    by (auto simp: read_string_def split: option.splits if_splits)
  from read_string_result [OF coh this, of key] r show ?thesis by auto
next
  case (ReadList c key delay)
  with st obtain v where r: "read_list s c key delay = Some (v, s')" by auto
  then obtain ls where "ln_libs s c = Some ls" "int delay < GUARD"
    by (auto simp: read_list_def split: option.splits if_splits)
  from read_list_result [OF coh this, of key] r show ?thesis by auto
next
  case (Write r)
  let ?i = "owner (ln_nodes s) (cr_key r)"
  from Write st obtain a es where m: "is_modify (cr_typ r)" and h: "appHandler (ln_apps s ?i) r = Some (a, es)"
    and s': "s' = set_app s ?i a" by (auto simp: Let_def split: if_splits)
  have d: "is_data (cr_typ r)" using m by (simp add: is_data_def)
  have "storage_exec (ln_apps s ?i) (Ask r) = Some (a, es)" using h m by (auto simp: is_modify_def)
  from storage_exec_good [OF coherentD(3) [OF coh] this]
  have g: "good_step (ln_apps s ?i) (asked (Ask r)) a es" .
  have "lease_of a k c = lease_of (ln_apps s ?i) k c" for k c
    using modify_moves(1) [OF h d] by (simp add: lease_of_def)
  then show ?thesis
    unfolding s' by (intro coherent_server [OF coh g _ libs_same set_app_libs [symmetric]]) simp_all
next
  case (GiveBack i key c)
  with st obtain ls where ls: "ln_libs s c = Some ls" by (auto simp: give_back_def split: option.splits)
  let ?ls = "fst (RevokeLease ls key)" and ?r = "ask REVOKE_LEASE key c 0"
  from GiveBack st ls obtain a es where h: "appHandler (ln_apps s i) ?r = Some (a, es)"
    and s': "s' = (set_app s i a)\<lparr>ln_libs := (ln_libs s)(c \<mapsto> ?ls)\<rparr>"
    by (auto simp: give_back_def callCacheRPC_def RevokeLease_def)
  have "storage_exec (ln_apps s i) (Ask ?r) = Some (a, es)" using h by simp
  from storage_exec_good [OF coherentD(3) [OF coh] this]
  have g: "good_step (ln_apps s i) (asked (Ask ?r)) a es" .
  have mv: "lease_moves (ln_apps s i) a key c None" using revoke_moves [OF h] by simp
  show ?thesis
  proof (rule coherent_server [OF coh g _ _ s'])
    show "(\<forall>k c. lease_of a k c = lease_of (ln_apps s i) k c) \<or>
      (\<exists>k0 c0. lease_moves (ln_apps s i) a k0 c0 None \<and>
         (\<forall>l e. ((ln_libs s)(c \<mapsto> ?ls)) c0 = Some l \<longrightarrow> gget (lc_cacheMap (ls_cache l)) k0 = Some e \<longrightarrow>
            i = owner (ln_nodes s) k0 \<longrightarrow> \<not> fresh (ln_now s) e))"
      using mv RevokeLease_same(3) [of ls key]
      by (intro disjI2 exI [of _ key] exI [of _ c]) (auto simp: fresh_def)
    show "\<exists>l0. ln_libs s c' = Some l0 \<and> same_lib l0 l \<and> ls_connMap l = ls_connMap l0"
      if "((ln_libs s)(c \<mapsto> ?ls)) c' = Some l" for c' l
      using that libs_same [of s c' l] RevokeLease_same(1,2) [of ls key] ls by (auto split: if_splits)
  qed
next
  case (Fire i ch)
  with st obtain a es where due: "ln_due s i ch \<le> ln_now s"
    and h: "storage_exec (ln_apps s i) (TimerFires ch 0) = Some (a, es)" and s': "s' = set_app s i a"
    by (auto simp del: storage_exec.simps split: if_splits)
  from storage_exec_good [OF coherentD(3) [OF coh] h]
  have g: "good_step (ln_apps s i) (asked (TimerFires ch 0)) a es" .
  obtain k c where kc: "lease_of (ln_apps s i) k c = Some ch" "lease_moves (ln_apps s i) a k c None"
    using timer_moves [OF coherentD(3) [OF coh] h] by blast
  have "\<not> fresh (ln_now s) e" if l: "ln_libs s c = Some l" "gget (lc_cacheMap (ls_cache l)) k = Some e"
    "i = owner (ln_nodes s) k" for l e
  proof
    assume "fresh (ln_now s) e"
    from coherentD(5) [OF coh l(1,2) this] kc(1) l(3) have "expiryTime e < ln_due s i ch" by (auto simp: covered_def)
    with due \<open>fresh (ln_now s) e\<close> show False by (simp add: fresh_def)
  qed
  with kc(2) show ?thesis
    unfolding s' by (intro coherent_server [OF coh g _ libs_same set_app_libs [symmetric]]) blast+
next
  case (Tick d)
  with st have "s' = s\<lparr>ln_libs := ln_libs s, ln_now := ln_now s + int d\<rparr>" by simp
  with coherent_libs [where libs = "ln_libs s" and t = "ln_now s + int d", OF coh libs_same] show ?thesis
    by simp
next
  case (Collect c)
  with st obtain ls where ls: "ln_libs s c = Some ls" by (auto split: option.splits)
  let ?ls = "fst (to_cache (ln_now s) (fst (to_cache (ln_now s) ls (cacheTimer QUERY_COLLECT))) (cacheTimer GARBAGE_COLLECT))"
  have "s' = s\<lparr>ln_libs := (ln_libs s)(c \<mapsto> ?ls)\<rparr>" using Collect st ls by simp
  then have s': "s' = s\<lparr>ln_libs := (ln_libs s)(c \<mapsto> ?ls), ln_now := ln_now s\<rparr>" by simp
  have "gmap_ok (lc_cacheMap (ls_cache ls))" using coherentD(4) [OF coh ls] by (simp add: lib_ok_def)
  then have "same_lib ls ?ls" "ls_connMap ?ls = ls_connMap ls"
    using collect_same by (blast, simp add: to_cache_def cacheHandler_def cacheTimer_def cache_req_def)
  then have "\<exists>l0. ln_libs s c' = Some l0 \<and> same_lib l0 l \<and> ls_connMap l = ls_connMap l0"
    if "((ln_libs s)(c \<mapsto> ?ls)) c' = Some l" for c' l
    using that libs_same [of s c' l] ls by (auto split: if_splits)
  then show ?thesis unfolding s' by (intro coherent_libs [OF coh _ order_refl])
qed

text \<open>The start: empty servers, clients with empty caches, a ring with distinct identifiers.\<close>

definition lease_start :: "lease_net \<Rightarrow> bool" where
  "lease_start s \<longleftrightarrow> ln_nodes s \<noteq> [] \<and> distinct (map NodeID (ln_nodes s)) \<and> ln_apps s = (\<lambda>_. app_init) \<and>
     (\<forall>c ls. ln_libs s c = Some ls \<longrightarrow> c \<noteq> '''' \<and> nodelist ls = ln_nodes s \<and> ls_myhostport ls = c \<and>
        ls_cache ls = empty_cache \<and> ls_connMap ls \<subseteq> {..< length (ln_nodes s)})"

lemma lease_start_coherent: "lease_start s \<Longrightarrow> coherent s"
  by (auto simp: lease_start_def coherent_def lib_ok_def empty_cache_def storage_inv_init)

interpretation leases: invariant_machine lease_start lease_step coherent
  by unfold_locales (auto intro: lease_start_coherent coherent_step)

end
