(* ===== verification/Kv_Store.thy ===== *)
theory Kv_Store
  imports Lease_Net
begin

section \<open>The interface of the store\<close>

text \<open>
  What the agency server (theory Tribserver) relies on: a map from keys to strings and lists,
  with the five operations of the client library. The locale \<open>kv_store\<close> states it; the
  interpretation proves that a client of the ring provides it, caches, leases and
  revocations included, when the operations follow one another: a write that is deferred
  waits until every holder of a lease has given it back.
\<close>

subsection \<open>A write and its answer\<close>

fun revoked_clients :: "storage_effect list \<Rightarrow> string list" where
  "revoked_clients [] = []"
| "revoked_clients (RevokeCall k c # es) = c # revoked_clients es"
| "revoked_clients (_ # es) = revoked_clients es"

fun give_back_all :: "lease_net \<Rightarrow> nat \<Rightarrow> string \<Rightarrow> string list \<Rightarrow> (lease_net \<times> storage_effect list) option" where
  "give_back_all s i key [] = Some (s, [])"
| "give_back_all s i key (c # cs) =
     (case give_back s i key c of
        None \<Rightarrow> None
      | Some (s1, es) \<Rightarrow> map_option (\<lambda>(s2, fs). (s2, es @ fs)) (give_back_all s1 i key cs))"

definition write_now :: "nat \<Rightarrow> cacheReq \<Rightarrow> lease_net \<Rightarrow> (storage_reply \<times> lease_net) option" where
  "write_now i r s =
     (case appHandler (ln_apps s i) r of
        None \<Rightarrow> None
      | Some (a, es) \<Rightarrow>
          (case answer_to r es of
             Some v \<Rightarrow> Some (v, set_app s i a)
           | None \<Rightarrow>
               (case give_back_all (set_app s i a) i (cr_key r) (revoked_clients es) of
                  None \<Rightarrow> None
                | Some (s1, fs) \<Rightarrow> map_option (\<lambda>v. (v, s1)) (answer_to r fs))))"

lemma modify_cases:
  assumes inv: "storage_inv s" and m: "is_modify (cr_typ r)" and h: "appHandler s r = Some (s', es)"
  obtains v where "es = [SReply r v]" | ll where "leaseMap s (cr_key r) = Some ll"
    "es = map (\<lambda>(client, ch). RevokeCall (cr_key r) client) ll" "leaseMap s' = leaseMap s"
proof (cases "pre_check (cacheMap s) r")
  case (Some v)
  with h have "es = [SReply r v]" by (simp add: appHandler_def)
  then show thesis by (rule that(1))
next
  case None
  show thesis
  proof (cases "leaseMap s (cr_key r)")
    case (Some ll)
    with h None m have "defer_modify s r ll = Some (s', es)" by (simp add: appHandler_def)
    then show thesis by (intro that(2) [OF Some]) (auto simp: defer_modify_def Let_def)
  next
    case free: None
    have "process_request s r = Some (s', es)" using h None free by (simp add: appHandler_def)
    then have "\<exists>v. es = [SReply r v]" using m
      by (auto simp: process_request_def is_modify_def split: storage_req.splits)
    then show thesis using that(1) by blast
  qed
qed

lemma revoked_clients_map [simp]:
  "revoked_clients (map (\<lambda>(client, ch). RevokeCall k client) ll) = map fst ll"
  by (induction ll) auto

lemma answer_to_revokes [simp]: "answer_to r (map (\<lambda>(client, ch). RevokeCall k client) ll) = None"
  by (induction ll) auto

lemma answer_to_log: "data_log es = [(r, v)] \<Longrightarrow> is_data (cr_typ r) \<Longrightarrow> answer_to r es = Some v"
  by (induction es rule: data_log.induct) (auto split: if_splits)

definition same_net :: "lease_net \<Rightarrow> lease_net \<Rightarrow> nat \<Rightarrow> bool" where
  "same_net s s' i \<longleftrightarrow> ln_nodes s' = ln_nodes s \<and> (\<forall>j. j \<noteq> i \<longrightarrow> ln_apps s' j = ln_apps s j) \<and>
     dom (ln_libs s') = dom (ln_libs s)"

lemma give_back_ok:
  assumes coh: "coherent s" and c: "ln_libs s c \<noteq> None"
  obtains s' es where "give_back s i key c = Some (s', es)" "coherent s'" "same_net s s' i"
    "storage_exec (ln_apps s i) (Ask (ask REVOKE_LEASE key c 0)) = Some (ln_apps s' i, es)"
    "lease_moves (ln_apps s i) (ln_apps s' i) key c None"
proof -
  obtain ls where ls: "ln_libs s c = Some ls" using c by blast
  from good_ask [OF coherentD(3) [OF coh], of "ask REVOKE_LEASE key c 0" i] obtain a es where
    h: "appHandler (ln_apps s i) (ask REVOKE_LEASE key c 0) = Some (a, es)" by auto
  let ?s' = "(set_app s i a)\<lparr>ln_libs := (ln_libs s)(c \<mapsto> fst (RevokeLease ls key))\<rparr>"
  have g: "give_back s i key c = Some (?s', es)"
    by (simp add: give_back_def ls callCacheRPC_def RevokeLease_def h)
  then have "lease_step s (GiveBack i key c) = Some ?s'" by simp
  then have "coherent ?s'" by (rule coherent_step [OF coh])
  from that [OF g this] show thesis
    using h ls revoke_moves [OF h] by (auto simp: same_net_def set_app_def)
qed

lemma give_back_all_ok:
  assumes "coherent s" and "\<forall>c \<in> set cs. ln_libs s c \<noteq> None"
  shows "\<exists>s' es. give_back_all s i key cs = Some (s', es) \<and> coherent s' \<and> same_net s s' i \<and>
    storage_run (ln_apps s i) (map (\<lambda>c. Ask (ask REVOKE_LEASE key c 0)) cs) = Some (ln_apps s' i, es) \<and>
    (\<forall>k c. lease_of (ln_apps s' i) k c = (if k = key \<and> c \<in> set cs then None else lease_of (ln_apps s i) k c))"
  using assms
proof (induction cs arbitrary: s)
  case Nil
  then show ?case by (simp add: same_net_def)
next
  case (Cons c cs)
  have "ln_libs s c \<noteq> None" using Cons.prems(2) by simp
  then obtain s1 es1 where g: "give_back s i key c = Some (s1, es1)" "coherent s1" "same_net s s1 i"
    "storage_exec (ln_apps s i) (Ask (ask REVOKE_LEASE key c 0)) = Some (ln_apps s1 i, es1)"
    "lease_moves (ln_apps s i) (ln_apps s1 i) key c None"
    using give_back_ok [OF Cons.prems(1)] by metis
  have "\<forall>c \<in> set cs. ln_libs s1 c \<noteq> None" using Cons.prems(2) g(3) by (auto simp: same_net_def dom_def) 
  from Cons.IH [OF g(2) this] obtain s' es where r: "give_back_all s1 i key cs = Some (s', es)" "coherent s'"
    "same_net s1 s' i"
    "storage_run (ln_apps s1 i) (map (\<lambda>c. Ask (ask REVOKE_LEASE key c 0)) cs) = Some (ln_apps s' i, es)"
    "\<forall>k c. lease_of (ln_apps s' i) k c = (if k = key \<and> c \<in> set cs then None else lease_of (ln_apps s1 i) k c)"
    by blast
  show ?case
    using g r by (intro exI [of _ s'] exI [of _ "es1 @ es"])
      (auto simp: same_net_def lease_moves_def simp del: storage_exec.simps)
qed


text \<open>One write, and leases given back: exactly the write is answered, as specified.\<close>

lemma single_write:
  assumes inv: "storage_inv s" and idle: "\<And>k. pending s k = []" and m: "is_modify (cr_typ r)"
    and run: "storage_run s (Ask r # map (\<lambda>c. Ask (ask REVOKE_LEASE key c 0)) cs) = Some (a, es)"
    and fin: "pending a (cr_key r) = []"
  shows "\<exists>v. data_log es = [(r, v)] \<and> spec_req (abs_cache (cacheMap s)) r = (abs_cache (cacheMap a), v)"
    and "pending a k = []"
proof -
  let ?log = "map fst (data_log es)"
  have asked: "asked_all (Ask r # map (\<lambda>c. Ask (ask REVOKE_LEASE key c 0)) cs) = [r]"
    using m by (auto simp: asked_all_def asked_def is_data_def is_modify_def)
  note G = storage_run_good [OF inv run, unfolded asked idle]
  have cons: "mset (on_key k ?log) + mset (pending a k) = mset (on_key k [r])" for k using G by simp
  have other: "on_key k ?log = [] \<and> pending a k = []" if "k \<noteq> cr_key r" for k
    using cons [of k] that by simp
  show "pending a k = []" using other [of k] fin by (cases "k = cr_key r") auto
  have "mset (on_key (cr_key r) ?log) = {#r#}" using cons [of "cr_key r"] fin by simp
  then have "on_key (cr_key r) ?log = [r]" by (simp only: mset_single_iff)
  moreover have "on_key (cr_key r) ?log = ?log"
  proof (rule filter_True, rule ballI)
    fix x assume "x \<in> set ?log"
    then have "on_key (cr_key x) ?log \<noteq> []" by (auto simp: filter_empty_conv)
    with other show "cr_key x = cr_key r" by blast
  qed
  ultimately have "?log = [r]" by simp
  then obtain v where v: "data_log es = [(r, v)]" by (cases "data_log es") auto
  with G show "\<exists>v. data_log es = [(r, v)] \<and> spec_req (abs_cache (cacheMap s)) r = (abs_cache (cacheMap a), v)"
    by (auto simp: follows_def split: prod.splits)
qed

lemma leaseMap_none:
  assumes inv: "storage_inv a" and none: "\<And>c. lease_of a k c = None"
  shows "leaseMap a k = None"
proof (rule ccontr)
  assume "leaseMap a k \<noteq> None"
  then obtain ll where ll: "leaseMap a k = Some ll" by blast
  then obtain c ch rest where "ll = (c, ch) # rest"
    using leases_list [OF storage_invD(2) [OF inv]] by (metis list.exhaust surj_pair)
  with none [of c] ll show False by (simp add: lease_of_def)
qed

lemma idle_keep:
  assumes "idle s" and "same_net s s' i" and "\<And>k. pending (ln_apps s' i) k = []"
    and "\<And>k c. lease_of (ln_apps s' i) k c \<noteq> None \<Longrightarrow> lease_of (ln_apps s i) k c \<noteq> None"
  shows "idle s'"
  unfolding idle_def
proof (intro conjI allI impI)
  show "pending (ln_apps s' j) k = []" for j k using assms by (cases "j = i") (auto simp: idle_def same_net_def)
  fix j k c assume "lease_of (ln_apps s' j) k c \<noteq> None"
  then have "lease_of (ln_apps s j) k c \<noteq> None" using assms(2,4) by (cases "j = i") (auto simp: same_net_def)
  then have "c \<in> dom (ln_libs s)" using assms(1) unfolding idle_def by blast
  then show "ln_libs s' c \<noteq> None" using assms(2) by (auto simp: same_net_def)
qed

lemma write_now_ok:
  assumes coh: "coherent s" and id: "idle s" and m: "is_modify (cr_typ r)" and i: "i = owner (ln_nodes s) (cr_key r)"
  shows "\<exists>v s'. write_now i r s = Some (v, s') \<and> coherent s' \<and> idle s' \<and> same_net s s' i \<and>
    spec_req (abs_cache (cacheMap (ln_apps s i))) r = (abs_cache (cacheMap (ln_apps s' i)), v)"
proof -
  let ?a = "ln_apps s i"
  have inv: "storage_inv ?a" by (rule coherentD(3) [OF coh])
  have p: "pending ?a k = []" for k using id by (simp add: idle_def)
  have t: "cr_typ r \<noteq> REMOVE_LEASE" "is_data (cr_typ r)" using m by (auto simp: is_modify_def is_data_def)
  from good_ask [OF inv t(1)] obtain a es where h: "appHandler ?a r = Some (a, es)"
    and g: "good_step ?a (asked (Ask r)) a es" by blast
  let ?s1 = "set_app s i a"
  have "lease_step s (Write r) = Some ?s1" using h m i by simp
  then have coh1: "coherent ?s1" by (rule coherent_step [OF coh])
  have net1: "same_net s ?s1 i" by (auto simp: same_net_def set_app_def)
  have lo: "lease_of a k c = lease_of ?a k c" for k c using modify_moves(1) [OF h t(2)] by (simp add: lease_of_def)
  have a1: "ln_apps ?s1 i = a" by (simp add: set_app_def)
  show ?thesis
  proof (cases rule: modify_cases [OF inv m h])
    case (1 v)
    have run: "storage_run ?a (Ask r # map (\<lambda>c. Ask (ask REVOKE_LEASE '''' c 0)) []) = Some (a, es)"
      using h t(1) by simp
    have log: "data_log es = [(r, v)]" using 1 t(2) by simp
    have "mset (on_key (cr_key r) (map fst (data_log es))) + mset (pending a (cr_key r)) =
        mset (pending ?a (cr_key r)) + mset (on_key (cr_key r) (asked (Ask r)))"
      using g unfolding good_step_def by blast
    then have "pending a (cr_key r) = []" using t(2) by (simp add: log p asked_def)
    note S = single_write [OF inv p m run this]
    have "idle ?s1" by (rule idle_keep [OF id net1]) (simp_all add: a1 S(2) lo)
    moreover have "write_now i r s = Some (v, ?s1)" using h 1 by (simp add: write_now_def)
    ultimately show ?thesis using S(1) log coh1 net1 a1 by (intro exI [of _ v] exI [of _ ?s1]) auto
  next
    case (2 ll)
    let ?cs = "map fst ll"
    have known: "\<forall>c \<in> set ?cs. ln_libs ?s1 c \<noteq> None"
    proof
      fix c assume "c \<in> set ?cs"
      then have "lease_of ?a (cr_key r) c \<noteq> None" using 2(1) by (simp add: lease_of_def map_of_eq_None_iff)
      then show "ln_libs ?s1 c \<noteq> None" using id by (simp add: idle_def set_app_def)
    qed
    from give_back_all_ok [OF coh1 known, of i "cr_key r"] a1 obtain s' fs where
      b: "give_back_all ?s1 i (cr_key r) ?cs = Some (s', fs)" "coherent s'" "same_net ?s1 s' i"
        "storage_run a (map (\<lambda>c. Ask (ask REVOKE_LEASE (cr_key r) c 0)) ?cs) = Some (ln_apps s' i, fs)"
        "\<forall>k c. lease_of (ln_apps s' i) k c = (if k = cr_key r \<and> c \<in> set ?cs then None else lease_of a k c)" by auto
    have run: "storage_run ?a (Ask r # map (\<lambda>c. Ask (ask REVOKE_LEASE (cr_key r) c 0)) ?cs) =
        Some (ln_apps s' i, es @ fs)" using h t(1) b(4) by simp
    have "lease_of (ln_apps s' i) (cr_key r) c = None" for c
      using b(5) lo [of "cr_key r" c] 2(1) by (auto simp: lease_of_def map_of_eq_None_iff)
    then have "leaseMap (ln_apps s' i) (cr_key r) = None" by (rule leaseMap_none [OF coherentD(3) [OF b(2)]])
    then have "pending (ln_apps s' i) (cr_key r) = []"
      using deferred_lease [OF storage_invD(3) [OF coherentD(3) [OF b(2)]], of i "cr_key r"] by blast
    note S = single_write [OF inv p m run this]
    then obtain v where v: "data_log (es @ fs) = [(r, v)]"
      "spec_req (abs_cache (cacheMap ?a)) r = (abs_cache (cacheMap (ln_apps s' i)), v)" by blast
    have "data_log fs = [(r, v)]" using v(1) 2(2) by simp
    then have ans: "answer_to r fs = Some v" using t(2) by (rule answer_to_log)
    have net: "same_net s s' i" using net1 b(3) by (auto simp: same_net_def)
    have "idle s'" by (rule idle_keep [OF id net S(2)]) (use b(5) lo in \<open>auto split: if_splits\<close>)
    moreover have "write_now i r s = Some (v, s')"
      using h 2(2) b(1) ans by (simp add: write_now_def)
    ultimately show ?thesis using v(2) b(2) net by blast
  qed
qed


subsection \<open>The operations of a client\<close>

definition put_conn :: "lease_net \<Rightarrow> string \<Rightarrow> nat set \<Rightarrow> lease_net" where
  "put_conn s c conns =
     s\<lparr>ln_libs := (ln_libs s)(c := map_option (\<lambda>l. l\<lparr>ls_connMap := conns\<rparr>) (ln_libs s c))\<rparr>"

definition client_write ::
  "((string \<Rightarrow> bool) \<Rightarrow> (nat \<Rightarrow> string \<Rightarrow> string \<Rightarrow> lease_net \<Rightarrow> storage_status option \<times> lease_net) \<Rightarrow>
     Libstore \<Rightarrow> string \<Rightarrow> string \<Rightarrow> lease_net \<Rightarrow> (bool \<times> Libstore \<times> lease_net) option) \<Rightarrow>
   (string \<Rightarrow> string \<Rightarrow> nat \<Rightarrow> cacheReq) \<Rightarrow> (storage_reply \<Rightarrow> storage_status option) \<Rightarrow>
   string \<Rightarrow> string \<Rightarrow> string \<Rightarrow> lease_net \<Rightarrow> (bool \<times> lease_net) option" where
  "client_write lib start reply c key v s =
     (case ln_libs s c of
        None \<Rightarrow> None
      | Some ls \<Rightarrow>
          map_option (\<lambda>(ok, ls1, s1). (ok, put_conn s1 c (ls_connMap ls1)))
            (lib (\<lambda>_. True)
               (\<lambda>i k x w. case write_now i (start k x 0) w of None \<Rightarrow> (None, w) | Some (rv, w1) \<Rightarrow> (reply rv, w1))
               ls key v s))"

definition store_put where
  "store_put = client_write iPut Put_begin (\<lambda>v. Some (Put_reply v))"

definition store_append where
  "store_append = client_write iAppendToList AppendToList_begin AppendToList_reply"

definition store_remove where
  "store_remove = client_write iRemoveFromList RemoveFromList_begin RemoveFromList_reply"

definition store_get :: "string \<Rightarrow> string \<Rightarrow> lease_net \<Rightarrow> (string option \<times> lease_net) option" where
  "store_get c key s = read_string s c key 0"

definition store_get_list :: "string \<Rightarrow> string \<Rightarrow> lease_net \<Rightarrow> (string list option \<times> lease_net) option" where
  "store_get_list c key s = read_list s c key 0"

definition store_ok :: "string \<Rightarrow> lease_net \<Rightarrow> bool" where
  "store_ok c s \<longleftrightarrow> coherent s \<and> idle s \<and> ln_libs s c \<noteq> None"

subsection \<open>The interface\<close>

definition append_result :: "aval option \<Rightarrow> string \<Rightarrow> bool" where
  "append_result m v = (case m of Some (AList xs) \<Rightarrow> v \<notin> set xs | _ \<Rightarrow> True)"

definition append_val :: "aval option \<Rightarrow> string \<Rightarrow> aval option" where
  "append_val m v = Some (AList (case m of Some (AList xs) \<Rightarrow> if v \<in> set xs then xs else xs @ [v] | _ \<Rightarrow> [v]))"

definition remove_result :: "aval option \<Rightarrow> string \<Rightarrow> bool" where
  "remove_result m v = (case m of Some (AList xs) \<Rightarrow> v \<in> set xs | _ \<Rightarrow> False)"

definition remove_val :: "aval option \<Rightarrow> string \<Rightarrow> aval option" where
  "remove_val m v = (case m of Some (AList xs) \<Rightarrow> Some (AList (remove1 v xs)) | _ \<Rightarrow> m)"

locale kv_store =
  fixes get :: "string \<Rightarrow> 's \<Rightarrow> (string option \<times> 's) option"
    and get_list :: "string \<Rightarrow> 's \<Rightarrow> (string list option \<times> 's) option"
    and put :: "string \<Rightarrow> string \<Rightarrow> 's \<Rightarrow> (bool \<times> 's) option"
    and append :: "string \<Rightarrow> string \<Rightarrow> 's \<Rightarrow> (bool \<times> 's) option"
    and remove :: "string \<Rightarrow> string \<Rightarrow> 's \<Rightarrow> (bool \<times> 's) option"
    and ok :: "'s \<Rightarrow> bool"
    and view :: "'s \<Rightarrow> string \<Rightarrow> aval option"
  assumes get_law: "ok s \<Longrightarrow> \<exists>s'. get k s = Some (string_at (view s k), s') \<and> ok s' \<and> view s' = view s"
    and get_list_law: "ok s \<Longrightarrow> \<exists>s'. get_list k s = Some (list_at (view s k), s') \<and> ok s' \<and> view s' = view s"
    and put_law: "ok s \<Longrightarrow> \<exists>s'. put k v s = Some (True, s') \<and> ok s' \<and> view s' = (view s)(k := Some (AStr v))"
    and append_law: "ok s \<Longrightarrow> \<exists>s'. append k v s = Some (append_result (view s k) v, s') \<and> ok s' \<and>
      view s' = (view s)(k := append_val (view s k) v)"
    and remove_law: "ok s \<Longrightarrow> \<exists>s'. remove k v s = Some (remove_result (view s k) v, s') \<and> ok s' \<and>
      view s' = (view s)(k := remove_val (view s k) v)"

subsection \<open>The ring provides it\<close>

lemma coherent_put_conn:
  assumes "coherent s" and "conns \<subseteq> {..< length (ln_nodes s)}"
  shows "coherent (put_conn s c conns)"
  using assms unfolding coherent_def
  by (auto simp: put_conn_def lib_ok_def covered_def stored_at_def split: if_splits)

lemma put_conn_sel [simp]:
  "ln_apps (put_conn s c conns) = ln_apps s" "ln_nodes (put_conn s c conns) = ln_nodes s"
  "dom (ln_libs (put_conn s c conns)) = dom (ln_libs s)" "stored_at (put_conn s c conns) k = stored_at s k"
  by (auto simp: put_conn_def stored_at_def split: if_splits)

lemma idle_put_conn [simp]: "idle (put_conn s c conns) = idle s"
proof -
  have "ln_libs (put_conn s c conns) d = None \<longleftrightarrow> ln_libs s d = None" for d by (simp add: put_conn_def)
  then show ?thesis by (simp add: idle_def)
qed

lemma client_write_ok:
  assumes ok: "store_ok c s" and m: "is_modify (cr_typ (start key v 0))" and k: "cr_key (start key v 0) = key"
    and m0: "m = abs_cache (cacheMap (ln_apps s (owner (ln_nodes s) key)))"
  shows "\<exists>s'. client_write lib_write start reply c key v s =
      Some (reply (snd (spec_req m (start key v 0))) = Some S_OK, s') \<and>
    store_ok c s' \<and> stored_at s' = (stored_at s)(key := fst (spec_req m (start key v 0)) key) \<and>
    dom (ln_libs s') = dom (ln_libs s)"
proof -
  let ?r = "start key v 0" and ?i = "owner (ln_nodes s) key"
  from ok obtain ls where coh: "coherent s" and id: "idle s" and ls: "ln_libs s c = Some ls"
    by (auto simp: store_ok_def)
  note C = coherentD [OF coh]
  have L: "nodelist ls = ln_nodes s" "ls_connMap ls \<subseteq> {..< length (ln_nodes s)}"
    using C(4) [OF ls] by (auto simp: lib_ok_def)
  have ne: "nodelist ls \<noteq> []" using C(1) L(1) by simp
  from getServer_ok [OF ne, of key] obtain ls1 where
    g: "getServer (\<lambda>_. True) ls key = Some (Some ?i, ls1)" "ls_connMap ls1 \<subseteq> insert ?i (ls_connMap ls)"
    by (auto simp: L(1))
  from write_now_ok [OF coh id m, of ?i] k obtain rv s1 where
    w: "write_now ?i ?r s = Some (rv, s1)" "coherent s1" "idle s1" "same_net s s1 ?i"
      "spec_req m ?r = (abs_cache (cacheMap (ln_apps s1 ?i)), rv)" unfolding m0 by auto
  let ?s' = "put_conn s1 c (ls_connMap ls1)"
  have b: "ls_connMap ls1 \<subseteq> {..< length (ln_nodes s1)}"
    using g(2) L(2) owner_bound [OF C(1), of key] w(4) by (auto simp: same_net_def)
  have "client_write lib_write start reply c key v s = Some (reply rv = Some S_OK, ?s')"
    by (simp add: client_write_def ls lib_write_def g(1) w(1) split: option.split)
  moreover have "ln_libs ?s' c \<noteq> None"
    using w(4) ls by (auto simp: same_net_def put_conn_def dom_def)
  then have "store_ok c ?s'" using coherent_put_conn [OF w(2) b] w(3) by (simp add: store_ok_def)
  moreover have "stored_at ?s' j = ((stored_at s)(key := fst (spec_req m ?r) key)) j" for j
  proof (cases "owner (ln_nodes s) j = ?i")
    case True
    have "stored_at ?s' j = fst (spec_req m ?r) j" using True w(4,5) by (simp add: stored_at_def same_net_def)
    moreover have "j \<noteq> key \<Longrightarrow> fst (spec_req m ?r) j = m j" using k by (intro spec_req_other) simp
    ultimately show ?thesis using True by (auto simp: stored_at_def m0)
  next
    case False
    then show ?thesis using w(4) by (auto simp: stored_at_def same_net_def)
  qed
  moreover have "dom (ln_libs ?s') = dom (ln_libs s)" using w(4) by (simp add: same_net_def)
  ultimately show ?thesis using w(5) by (intro exI [of _ ?s']) (auto simp: fun_eq_iff)
qed

lemma lib_write_eta: "iPut = lib_write" "iAppendToList = lib_write" "iRemoveFromList = lib_write"
  by (intro ext, simp add: iPut_def iAppendToList_def iRemoveFromList_def)+


interpretation ring: kv_store "store_get c" "store_get_list c" "store_put c" "store_append c" "store_remove c"
    "store_ok c" stored_at
  for c
proof (unfold_locales, goal_cases)
  case (1 s k)
  then obtain ls where "coherent s" "idle s" "ln_libs s c = Some ls" by (auto simp: store_ok_def)
  from read_string_result [OF this(1,3), of 0 k] this(2) show ?case
    by (auto simp: store_get_def store_ok_def GUARD_def LEASE_GUARD_SECONDS_def SECOND_def)
next
  case (2 s k)
  then obtain ls where "coherent s" "idle s" "ln_libs s c = Some ls" by (auto simp: store_ok_def)
  from read_list_result [OF this(1,3), of 0 k] this(2) show ?case
    by (auto simp: store_get_list_def store_ok_def GUARD_def LEASE_GUARD_SECONDS_def SECOND_def)
next
  case (3 s k v)
  from client_write_ok [OF 3, of Put_begin k v _ "\<lambda>v. Some (Put_reply v)", OF _ _ refl] show ?case
    by (simp add: store_put_def lib_write_eta Put_begin_def Put_reply_def is_modify_def spec_req_def) blast
next
  case (4 s k v)
  let ?m = "abs_cache (cacheMap (ln_apps s (owner (ln_nodes s) k)))"
  have "AppendToList_reply (snd (spec_req ?m (AppendToList_begin k v 0))) = Some S_OK \<longleftrightarrow> append_result (stored_at s k) v"
    "fst (spec_req ?m (AppendToList_begin k v 0)) k = append_val (stored_at s k) v"
    by (auto simp: AppendToList_begin_def spec_req_def append_result_def append_val_def stored_at_def
        split: option.splits aval.splits)
  with client_write_ok [OF 4, of AppendToList_begin k v _ AppendToList_reply, OF _ _ refl] show ?case
    by (simp add: store_append_def lib_write_eta) (simp add: AppendToList_begin_def is_modify_def, blast)
next
  case (5 s k v)
  let ?m = "abs_cache (cacheMap (ln_apps s (owner (ln_nodes s) k)))"
  have "RemoveFromList_reply (snd (spec_req ?m (RemoveFromList_begin k v 0))) = Some S_OK \<longleftrightarrow> remove_result (stored_at s k) v"
    "fst (spec_req ?m (RemoveFromList_begin k v 0)) k = remove_val (stored_at s k) v"
    by (auto simp: RemoveFromList_begin_def spec_req_def remove_result_def remove_val_def stored_at_def remove1_idem
        split: option.splits aval.splits)
  with client_write_ok [OF 5, of RemoveFromList_begin k v _ RemoveFromList_reply, OF _ _ refl] show ?case
    by (simp add: store_remove_def lib_write_eta) (simp add: RemoveFromList_begin_def is_modify_def, blast)
qed

end
