(* ===== verification/Tribserver.thy ===== *)
theory Tribserver
  imports Libairline Kv_Store
begin

section \<open>The agency server (contrib/tribimpl/trib-impl.go)\<close>

text \<open>
  An agency keeps two keys for a user in its own storage ring: one that says that the user
  exists, and the list of the flights booked. Flights and seats are at the airlines. A
  \<open>Tribserver\<close> is its two client libraries; the store is a state \<open>'s\<close> that the five store
  operations change, the airlines are a world \<open>'a\<close>.

  An operation gives a reply (\<open>Inr\<close>) or a returned error (\<open>Inl\<close>); \<open>None\<close> is a panic, as for a
  booking without flights. \<open>spec_agency\<close> is the agency with a plain directory from users to
  lists of flights. The lemmas, proved for every store that satisfies the laws of
  \<open>kv_store\<close>, show that the server refines it.
\<close>

subsection \<open>Messages and state\<close>

datatype trib_status =
    T_OK | ENOSUCHUSER | ENOSUCHFLIGHT | ENOSUCHAIRLINE | EBOOKINGFAILED | EEXISTS | ENOAIRLINE | ENOTBOOKED

datatype trib_error = CreatingUser | FetchingIds | FetchingFlight | StoreError

record 's store_client =
  sc_get :: "string \<Rightarrow> 's \<Rightarrow> (string option \<times> 's) option"
  sc_get_list :: "string \<Rightarrow> 's \<Rightarrow> (string list option \<times> 's) option"
  sc_put :: "string \<Rightarrow> string \<Rightarrow> 's \<Rightarrow> (bool \<times> 's) option"
  sc_append :: "string \<Rightarrow> string \<Rightarrow> 's \<Rightarrow> (bool \<times> 's) option"
  sc_remove :: "string \<Rightarrow> string \<Rightarrow> 's \<Rightarrow> (bool \<times> 's) option"

record 'a airline_client =
  ac_all_flights :: "string \<Rightarrow> string \<Rightarrow> string \<Rightarrow> 'a \<Rightarrow> (string list option \<times> 'a) option"
  ac_flight :: "string \<Rightarrow> 'a \<Rightarrow> (FlightInfo option \<times> 'a) option"
  ac_create :: "FlightInfo \<Rightarrow> 'a \<Rightarrow> (create_error option \<times> 'a) option"
  ac_book :: "string list \<Rightarrow> bool \<Rightarrow> 'a \<Rightarrow> (bool \<times> 'a) option"

record ('s, 'a) Tribserver =
  lib_store :: "'s store_client"
  lib_airline :: "'a airline_client"
  agencyid :: string
  ts_myhostport :: string

text \<open>
  The server starts only if all its libraries do, the registration with the master last;
  \<open>new_store\<close> is what \<open>iNewLibstore\<close> brings, \<open>stores\<close> and \<open>airlines\<close> are the operations of
  the two libraries.
\<close>

definition NewTribserver ::
  "(string \<Rightarrow> bool) \<Rightarrow> Libstore option \<Rightarrow> (string \<Rightarrow> string \<Rightarrow> 'w \<Rightarrow> storage_status option \<times> 'w) \<Rightarrow>
     (Libstore \<Rightarrow> 's store_client) \<Rightarrow> (Libairline \<Rightarrow> 'a airline_client) \<Rightarrow>
     string \<Rightarrow> string \<Rightarrow> string \<Rightarrow> int \<Rightarrow> 'w \<Rightarrow> ('s, 'a) Tribserver option \<times> 'w" where
  "NewTribserver dial new_store call stores airlines agency master host prefer w =
     (case (NewLibconn dial agency master host prefer, new_store) of
        (Some lc, Some ls) \<Rightarrow>
          (case NewLibairline call lc agency host w of (la, w1) \<Rightarrow>
             (map_option (\<lambda>la. \<lparr>lib_store = stores ls, lib_airline = airlines la, agencyid = agency,
                                 ts_myhostport = host\<rparr>) la, w1))
      | _ \<Rightarrow> (None, w))"

subsection \<open>Keys\<close>

definition NEW_USER :: string where "NEW_USER = ''n''"
definition ALL_BOOKINGS :: string where "ALL_BOOKINGS = ''b''"
definition TRIB_SEP :: string where "TRIB_SEP = '':''"

definition getNewUserKey :: "string \<Rightarrow> string" where
  "getNewUserKey userid = userid @ TRIB_SEP @ NEW_USER"

definition getUserBookingsKey :: "string \<Rightarrow> string" where
  "getUserBookingsKey userid = userid @ TRIB_SEP @ ALL_BOOKINGS"

lemma keys_distinct [simp]:
  "getNewUserKey u \<noteq> getUserBookingsKey w" "getUserBookingsKey w \<noteq> getNewUserKey u"
  "getNewUserKey u = getNewUserKey w \<longleftrightarrow> u = w" "getUserBookingsKey u = getUserBookingsKey w \<longleftrightarrow> u = w"
  by (auto simp: getNewUserKey_def getUserBookingsKey_def NEW_USER_def ALL_BOOKINGS_def TRIB_SEP_def)

subsection \<open>Operations\<close>

definition doesUserExist :: "('s, 'a) Tribserver \<Rightarrow> string \<Rightarrow> 's \<Rightarrow> (bool \<times> 's) option" where
  "doesUserExist ts userid s =
     map_option (\<lambda>(v, s1). (v \<noteq> None, s1)) (sc_get (lib_store ts) (getNewUserKey userid) s)"

definition CreateUser ::
  "('s, 'a) Tribserver \<Rightarrow> string \<Rightarrow> 's \<times> 'a \<Rightarrow> ((trib_error + trib_status) \<times> 's \<times> 'a) option" where
  "CreateUser ts userid w =
     (case w of (s, a) \<Rightarrow>
        (case doesUserExist ts userid s of
           None \<Rightarrow> None
         | Some (True, s1) \<Rightarrow> Some (Inr EEXISTS, s1, a)
         | Some (False, s1) \<Rightarrow>
             (case sc_put (lib_store ts) (getNewUserKey userid) ''new_user'' s1 of
                None \<Rightarrow> None
              | Some (cok, s2) \<Rightarrow>
                  (case sc_put (lib_store ts) (getUserBookingsKey userid) '''' s2 of
                     None \<Rightarrow> None
                   | Some (pok, s3) \<Rightarrow>
                       Some (if \<not> cok \<or> \<not> pok then Inl CreatingUser else Inr T_OK, s3, a)))))"

fun doGetFlightsFromIds ::
  "(string \<Rightarrow> 'a \<Rightarrow> (FlightInfo option \<times> 'a) option) \<Rightarrow> string list \<Rightarrow> 'a \<Rightarrow>
     (FlightInfo list option \<times> 'a) option" where
  "doGetFlightsFromIds get_flight [] a = Some (Some [], a)"
| "doGetFlightsFromIds get_flight (fid # fids) a =
     (case get_flight fid a of
        None \<Rightarrow> None
      | Some (None, a1) \<Rightarrow> Some (None, a1)
      | Some (Some f, a1) \<Rightarrow>
          map_option (\<lambda>(fs, a2). (map_option ((#) f) fs, a2)) (doGetFlightsFromIds get_flight fids a1))"

definition ViewFlights ::
  "('s, 'a) Tribserver \<Rightarrow> string \<Rightarrow> string \<Rightarrow> string \<Rightarrow> 's \<times> 'a \<Rightarrow>
     ((trib_error + trib_status \<times> FlightInfo list) \<times> 's \<times> 'a) option" where
  "ViewFlights ts from to dep w =
     (case w of (s, a) \<Rightarrow>
        (case ac_all_flights (lib_airline ts) from to dep a of
           None \<Rightarrow> None
         | Some (None, a1) \<Rightarrow> Some (Inl FetchingIds, s, a1)
         | Some (Some flightids, a1) \<Rightarrow>
             map_option
               (\<lambda>(fs, a2). (case fs of None \<Rightarrow> Inl FetchingFlight | Some flightsInfo \<Rightarrow> Inr (T_OK, flightsInfo), s, a2))
               (doGetFlightsFromIds (ac_flight (lib_airline ts)) flightids a1)))"

text \<open>The loop over the booked flights; it ends at the first error.\<close>

fun update_bookings ::
  "(string \<Rightarrow> 's \<Rightarrow> (bool \<times> 's) option) \<Rightarrow> string list \<Rightarrow> 's \<Rightarrow> (bool \<times> 's) option" where
  "update_bookings upd [] s = Some (True, s)"
| "update_bookings upd (fid # fids) s =
     (case upd fid s of
        None \<Rightarrow> None
      | Some (False, s1) \<Rightarrow> Some (False, s1)
      | Some (True, s1) \<Rightarrow> update_bookings upd fids s1)"

definition doBookingTransaction ::
  "('s, 'a) Tribserver \<Rightarrow> bool \<Rightarrow> string \<Rightarrow> string list \<Rightarrow> 's \<times> 'a \<Rightarrow>
     ((trib_error + trib_status) \<times> 's \<times> 'a) option" where
  "doBookingTransaction ts isRemove userid flightIds w =
     (case w of (s, a) \<Rightarrow>
        (case doesUserExist ts userid s of
           None \<Rightarrow> None
         | Some (False, s1) \<Rightarrow> Some (Inr ENOSUCHUSER, s1, a)
         | Some (True, s1) \<Rightarrow>
             (case doGetFlightsFromIds (ac_flight (lib_airline ts)) flightIds a of
                None \<Rightarrow> None
              | Some (None, a1) \<Rightarrow> Some (Inr EBOOKINGFAILED, s1, a1)
              | Some (Some _, a1) \<Rightarrow>
                  (case sc_get_list (lib_store ts) (getUserBookingsKey userid) s1 of
                     None \<Rightarrow> None
                   | Some (None, s2) \<Rightarrow> Some (Inr EBOOKINGFAILED, s2, a1)
                   | Some (Some flights, s2) \<Rightarrow>
                       (let exist = list_ex (\<lambda>fid1. list_ex (\<lambda>fid2. fid1 = fid2) flights) flightIds in
                        if \<not> isRemove \<and> exist then Some (Inr EEXISTS, s2, a1)
                        else if isRemove \<and> \<not> exist then Some (Inr ENOTBOOKED, s2, a1)
                        else
                          (case ac_book (lib_airline ts) flightIds isRemove a1 of
                             None \<Rightarrow> None
                           | Some (False, a2) \<Rightarrow> Some (Inr EBOOKINGFAILED, s2, a2)
                           | Some (True, a2) \<Rightarrow>
                               map_option (\<lambda>(done1, s3). (if done1 then Inr T_OK else Inl StoreError, s3, a2))
                                 (update_bookings
                                   ((if isRemove then sc_remove (lib_store ts) else sc_append (lib_store ts))
                                      (getUserBookingsKey userid)) flightIds s2)))))))"

text \<open>Both read \<open>args.FlightIds[0]\<close> first, for the log.\<close>

definition AddBooking where
  "AddBooking ts userid flightIds w =
     (if flightIds = [] then None else doBookingTransaction ts False userid flightIds w)"

definition RemoveBooking where
  "RemoveBooking ts userid flightIds w =
     (if flightIds = [] then None else doBookingTransaction ts True userid flightIds w)"

definition GetBookings ::
  "('s, 'a) Tribserver \<Rightarrow> string \<Rightarrow> 's \<times> 'a \<Rightarrow> ((trib_error + trib_status \<times> FlightInfo list) \<times> 's \<times> 'a) option" where
  "GetBookings ts userid w =
     (case w of (s, a) \<Rightarrow>
        (case sc_get_list (lib_store ts) (getUserBookingsKey userid) s of
           None \<Rightarrow> None
         | Some (None, s1) \<Rightarrow> Some (Inr (ENOSUCHUSER, []), s1, a)
         | Some (Some flightids, s1) \<Rightarrow>
             map_option
               (\<lambda>(fs, a1). (case fs of None \<Rightarrow> Inl FetchingFlight | Some flightsInfo \<Rightarrow> Inr (T_OK, flightsInfo), s1, a1))
               (doGetFlightsFromIds (ac_flight (lib_airline ts)) flightids a)))"

definition AddFlight ::
  "('s, 'a) Tribserver \<Rightarrow> FlightInfo \<Rightarrow> 's \<times> 'a \<Rightarrow> (trib_status \<times> 's \<times> 'a) option" where
  "AddFlight ts flight w =
     (case w of (s, a) \<Rightarrow>
        map_option
          (\<lambda>(err, a1). (case err of
              Some AirlineDoesNotExist \<Rightarrow> ENOAIRLINE
            | Some FlightAlreadyExist \<Rightarrow> EEXISTS
            | None \<Rightarrow> T_OK, s, a1))
          (ac_create (lib_airline ts) flight a))"

end
