(* ===== verification/Agency_Spec.thy ===== *)
theory Agency_Spec
  imports Tribserver
begin

section \<open>The agency as a directory of bookings\<close>

text \<open>
  \<open>spec_agency\<close> is the agency with a plain directory, a map from the users to the lists of
  their flights. \<open>abs_agency\<close> reads the directory off the keys of the store, and
  \<open>agency_ok\<close> says that the keys are used as the server uses them. In the locale \<open>kv_store\<close>
  every operation of the server is shown to do to the directory, to the airlines and in its
  reply what the specification says.
\<close>

subsection \<open>Specification\<close>

datatype agency_event =
    NewUser string | AddFlights string "string list" | RemoveFlights string "string list"
  | Bookings string | Search string string string | NewFlight FlightInfo

datatype agency_reply = Failed trib_error | Status trib_status | Flights trib_status "FlightInfo list"

fun reply_status :: "trib_error + trib_status \<Rightarrow> agency_reply" where
  "reply_status (Inl e) = Failed e"
| "reply_status (Inr x) = Status x"

fun reply_flights :: "trib_error + trib_status \<times> FlightInfo list \<Rightarrow> agency_reply" where
  "reply_flights (Inl e) = Failed e"
| "reply_flights (Inr (x, fs)) = Flights x fs"

fun agency_exec ::
  "('s, 'a) Tribserver \<Rightarrow> agency_event \<Rightarrow> 's \<times> 'a \<Rightarrow> (agency_reply \<times> 's \<times> 'a) option" where
  "agency_exec ts (NewUser u) w = map_option (\<lambda>(r, w1). (reply_status r, w1)) (CreateUser ts u w)"
| "agency_exec ts (AddFlights u fids) w = map_option (\<lambda>(r, w1). (reply_status r, w1)) (AddBooking ts u fids w)"
| "agency_exec ts (RemoveFlights u fids) w = map_option (\<lambda>(r, w1). (reply_status r, w1)) (RemoveBooking ts u fids w)"
| "agency_exec ts (Bookings u) w = map_option (\<lambda>(r, w1). (reply_flights r, w1)) (GetBookings ts u w)"
| "agency_exec ts (Search x y d) w = map_option (\<lambda>(r, w1). (reply_flights r, w1)) (ViewFlights ts x y d w)"
| "agency_exec ts (NewFlight f) w = map_option (\<lambda>(r, w1). (Status r, w1)) (AddFlight ts f w)"

text \<open>One flight after the other, up to the first that is there already (or is not).\<close>

fun add_all :: "string list \<Rightarrow> string list \<Rightarrow> bool \<times> string list" where
  "add_all [] bs = (True, bs)"
| "add_all (f # fs) bs = (if f \<in> set bs then (False, bs) else add_all fs (bs @ [f]))"

fun remove_all :: "string list \<Rightarrow> string list \<Rightarrow> bool \<times> string list" where
  "remove_all [] bs = (True, bs)"
| "remove_all (f # fs) bs = (if f \<in> set bs then remove_all fs (remove1 f bs) else (False, bs))"

definition spec_booking ::
  "'a airline_client \<Rightarrow> bool \<Rightarrow> string \<Rightarrow> string list \<Rightarrow> (string \<rightharpoonup> string list) \<Rightarrow> 'a \<Rightarrow>
     (agency_reply \<times> (string \<rightharpoonup> string list) \<times> 'a) option" where
  "spec_booking la isRemove u fids d a =
     (case d u of
        None \<Rightarrow> Some (Status ENOSUCHUSER, d, a)
      | Some bs \<Rightarrow>
          (case doGetFlightsFromIds (ac_flight la) fids a of
             None \<Rightarrow> None
           | Some (None, a1) \<Rightarrow> Some (Status EBOOKINGFAILED, d, a1)
           | Some (Some _, a1) \<Rightarrow>
               if \<not> isRemove \<and> set fids \<inter> set bs \<noteq> {} then Some (Status EEXISTS, d, a1)
               else if isRemove \<and> set fids \<inter> set bs = {} then Some (Status ENOTBOOKED, d, a1)
               else
                 (case ac_book la fids isRemove a1 of
                    None \<Rightarrow> None
                  | Some (False, a2) \<Rightarrow> Some (Status EBOOKINGFAILED, d, a2)
                  | Some (True, a2) \<Rightarrow>
                      (case (if isRemove then remove_all else add_all) fids bs of (ok, bs1) \<Rightarrow>
                         Some (if ok then Status T_OK else Failed StoreError, d(u \<mapsto> bs1), a2)))))"

definition flights_reply :: "FlightInfo list option \<Rightarrow> agency_reply" where
  "flights_reply fs = (case fs of None \<Rightarrow> Failed FetchingFlight | Some xs \<Rightarrow> Flights T_OK xs)"

fun spec_agency ::
  "'a airline_client \<Rightarrow> agency_event \<Rightarrow> (string \<rightharpoonup> string list) \<Rightarrow> 'a \<Rightarrow>
     (agency_reply \<times> (string \<rightharpoonup> string list) \<times> 'a) option" where
  "spec_agency la (NewUser u) d a =
     Some (case d u of Some _ \<Rightarrow> (Status EEXISTS, d, a) | None \<Rightarrow> (Status T_OK, d(u \<mapsto> []), a))"
| "spec_agency la (AddFlights u fids) d a = (if fids = [] then None else spec_booking la False u fids d a)"
| "spec_agency la (RemoveFlights u fids) d a = (if fids = [] then None else spec_booking la True u fids d a)"
| "spec_agency la (Bookings u) d a =
     (case d u of
        None \<Rightarrow> Some (Flights ENOSUCHUSER [], d, a)
      | Some bs \<Rightarrow> map_option (\<lambda>(fs, a1). (flights_reply fs, d, a1)) (doGetFlightsFromIds (ac_flight la) bs a))"
| "spec_agency la (Search x y dep) d a =
     (case ac_all_flights la x y dep a of
        None \<Rightarrow> None
      | Some (None, a1) \<Rightarrow> Some (Failed FetchingIds, d, a1)
      | Some (Some fids, a1) \<Rightarrow>
          map_option (\<lambda>(fs, a2). (flights_reply fs, d, a2)) (doGetFlightsFromIds (ac_flight la) fids a1))"
| "spec_agency la (NewFlight f) d a =
     map_option
       (\<lambda>(err, a1). (Status (case err of Some AirlineDoesNotExist \<Rightarrow> ENOAIRLINE
          | Some FlightAlreadyExist \<Rightarrow> EEXISTS | None \<Rightarrow> T_OK), d, a1))
       (ac_create la f a)"

subsection \<open>The directory in the store\<close>

definition user_ok :: "(string \<Rightarrow> aval option) \<Rightarrow> string \<Rightarrow> bool" where
  "user_ok v u \<longleftrightarrow>
     (case v (getNewUserKey u) of
        None \<Rightarrow> v (getUserBookingsKey u) = None
      | Some (AStr _) \<Rightarrow> (\<exists>bs. list_at (v (getUserBookingsKey u)) = Some bs \<and> distinct bs)
      | Some (AList _) \<Rightarrow> False)"

definition agency_ok :: "(string \<Rightarrow> aval option) \<Rightarrow> bool" where
  "agency_ok v \<longleftrightarrow> (\<forall>u. user_ok v u)"

definition abs_agency :: "(string \<Rightarrow> aval option) \<Rightarrow> (string \<rightharpoonup> string list)" where
  "abs_agency v u = list_at (v (getUserBookingsKey u))"

definition store_client_of where
  "store_client_of g gl p a r =
     \<lparr>sc_get = g, sc_get_list = gl, sc_put = p, sc_append = a, sc_remove = r\<rparr>"

lemma store_client_of_sel [simp]:
  "sc_get (store_client_of g gl p a r) = g" "sc_get_list (store_client_of g gl p a r) = gl"
  "sc_put (store_client_of g gl p a r) = p" "sc_append (store_client_of g gl p a r) = a"
  "sc_remove (store_client_of g gl p a r) = r"
  by (simp_all add: store_client_of_def)

lemma agency_user:
  assumes "agency_ok v"
  shows "string_at (v (getNewUserKey u)) \<noteq> None \<longleftrightarrow> abs_agency v u \<noteq> None"
    and "abs_agency v u = Some bs \<Longrightarrow> distinct bs"
proof -
  have "user_ok v u" using assms by (simp add: agency_ok_def)
  then show "string_at (v (getNewUserKey u)) \<noteq> None \<longleftrightarrow> abs_agency v u \<noteq> None"
    "abs_agency v u = Some bs \<Longrightarrow> distinct bs"
    by (auto simp: user_ok_def string_at_def abs_agency_def list_at_def split: option.splits aval.splits)
qed

lemma agency_ok_change:
  assumes "agency_ok v" and "user_ok v' u"
    and "\<And>w. w \<noteq> u \<Longrightarrow> v' (getNewUserKey w) = v (getNewUserKey w) \<and> v' (getUserBookingsKey w) = v (getUserBookingsKey w)"
  shows "agency_ok v'"
  unfolding agency_ok_def
proof
  fix w
  show "user_ok v' w"
  proof (cases "w = u")
    case False
    have "user_ok v w" using assms(1) by (simp add: agency_ok_def)
    then show ?thesis using assms(3) [OF False] by (auto simp: user_ok_def split: option.splits aval.splits)
  qed (simp add: assms(2))
qed

lemma agency_new_user:
  assumes "agency_ok v"
  shows "agency_ok (v(getNewUserKey u := Some (AStr x), getUserBookingsKey u := Some (AStr y)))"
    "abs_agency (v(getNewUserKey u := Some (AStr x), getUserBookingsKey u := Some (AStr y))) = (abs_agency v)(u \<mapsto> [])"
proof -
  show "agency_ok (v(getNewUserKey u := Some (AStr x), getUserBookingsKey u := Some (AStr y)))"
    by (rule agency_ok_change [OF assms, of _ u]) (simp_all add: user_ok_def list_at_def)
qed (simp add: abs_agency_def list_at_def fun_eq_iff)

lemma agency_update:
  assumes "agency_ok v" and "abs_agency v u = Some bs" and "distinct bs'" and "list_at m = Some bs'"
  shows "agency_ok (v(getUserBookingsKey u := m))"
    "abs_agency (v(getUserBookingsKey u := m)) = (abs_agency v)(u \<mapsto> bs')"
proof -
  have "user_ok v u" using assms(1) by (simp add: agency_ok_def)
  then have "user_ok (v(getUserBookingsKey u := m)) u"
    using assms(2-4) by (auto simp: user_ok_def abs_agency_def list_at_def split: option.splits aval.splits)
  then show "agency_ok (v(getUserBookingsKey u := m))"
    by (rule agency_ok_change [OF assms(1)]) simp
qed (simp add: abs_agency_def fun_eq_iff assms(4))

lemma append_result_list: "list_at m = Some bs \<Longrightarrow> append_result m f \<longleftrightarrow> f \<notin> set bs"
  and append_val_list: "list_at m = Some bs \<Longrightarrow> list_at (append_val m f) = Some (if f \<in> set bs then bs else bs @ [f])"
  and remove_result_list: "list_at m = Some bs \<Longrightarrow> remove_result m f \<longleftrightarrow> f \<in> set bs"
  and remove_val_list: "list_at m = Some bs \<Longrightarrow> list_at (remove_val m f) = Some (remove1 f bs)"
  by (auto simp: append_result_def append_val_def remove_result_def remove_val_def list_at_def
      split: option.splits aval.splits)

text \<open>
  What one operation does, on the store and in the specification: the same reply, the same
  effect on the airlines, and a store that is good and holds the specified directory.
\<close>

definition agency_inv :: "('s \<Rightarrow> bool) \<Rightarrow> ('s \<Rightarrow> string \<Rightarrow> aval option) \<Rightarrow> 's \<times> 'a \<Rightarrow> bool" where
  "agency_inv ok view w \<longleftrightarrow> ok (fst w) \<and> agency_ok (view (fst w))"

definition agency_abs :: "('s \<Rightarrow> string \<Rightarrow> aval option) \<Rightarrow> 's \<times> 'a \<Rightarrow> (string \<rightharpoonup> string list) \<times> 'a" where
  "agency_abs view w = (abs_agency (view (fst w)), snd w)"

abbreviation refines_spec ::
  "('s \<Rightarrow> bool) \<Rightarrow> ('s \<Rightarrow> string \<Rightarrow> aval option) \<Rightarrow> (agency_reply \<times> 's \<times> 'a) option \<Rightarrow>
     (agency_reply \<times> (string \<rightharpoonup> string list) \<times> 'a) option \<Rightarrow> bool" where
  "refines_spec ok view \<equiv> implements (agency_inv ok view) (agency_abs view)"

lemmas refines_spec_def = implements_def agency_inv_def agency_abs_def

subsection \<open>The server refines the specification\<close>

context kv_store
begin

lemma add_loop:
  assumes "ok s" and "agency_ok (view s)" and "abs_agency (view s) u = Some bs"
  shows "\<exists>s1. update_bookings (append (getUserBookingsKey u)) fids s = Some (fst (add_all fids bs), s1) \<and> ok s1 \<and>
    agency_ok (view s1) \<and> abs_agency (view s1) = (abs_agency (view s))(u \<mapsto> snd (add_all fids bs))"
  using assms
proof (induction fids arbitrary: s bs)
  case Nil
  then show ?case by (auto simp: fun_upd_idem)
next
  case (Cons f fids)
  let ?k = "getUserBookingsKey u"
  have l: "list_at (view s ?k) = Some bs" using Cons.prems(3) by (simp add: abs_agency_def)
  let ?bs = "if f \<in> set bs then bs else bs @ [f]"
  from append_law [OF Cons.prems(1), of ?k f] obtain s1 where
    s1: "append ?k f s = Some (f \<notin> set bs, s1)" "ok s1" "view s1 = (view s)(?k := append_val (view s ?k) f)"
    by (auto simp: append_result_list [OF l])
  have "distinct ?bs" using agency_user(2) [OF Cons.prems(2,3)] by simp
  from agency_update [OF Cons.prems(2,3) this append_val_list [OF l]] s1(3)
  have v1: "agency_ok (view s1)" "abs_agency (view s1) = (abs_agency (view s))(u \<mapsto> ?bs)" by simp_all
  show ?case
  proof (cases "f \<in> set bs")
    case True
    then show ?thesis using s1(1,2) v1 by (simp add: fun_eq_iff)
  next
    case False
    then have "abs_agency (view s1) u = Some (bs @ [f])" using v1(2) by simp
    from Cons.IH [OF s1(2) v1(1) this] False s1(1) v1(2) show ?thesis by (auto simp: fun_eq_iff)
  qed
qed

lemma remove_loop:
  assumes "ok s" and "agency_ok (view s)" and "abs_agency (view s) u = Some bs"
  shows "\<exists>s1. update_bookings (remove (getUserBookingsKey u)) fids s = Some (fst (remove_all fids bs), s1) \<and> ok s1 \<and>
    agency_ok (view s1) \<and> abs_agency (view s1) = (abs_agency (view s))(u \<mapsto> snd (remove_all fids bs))"
  using assms
proof (induction fids arbitrary: s bs)
  case Nil
  then show ?case by (auto simp: fun_upd_idem)
next
  case (Cons f fids)
  let ?k = "getUserBookingsKey u"
  have l: "list_at (view s ?k) = Some bs" using Cons.prems(3) by (simp add: abs_agency_def)
  from remove_law [OF Cons.prems(1), of ?k f] obtain s1 where
    s1: "remove ?k f s = Some (f \<in> set bs, s1)" "ok s1" "view s1 = (view s)(?k := remove_val (view s ?k) f)"
    by (auto simp: remove_result_list [OF l])
  have "distinct (remove1 f bs)" using agency_user(2) [OF Cons.prems(2,3)] by simp
  from agency_update [OF Cons.prems(2,3) this remove_val_list [OF l]] s1(3)
  have v1: "agency_ok (view s1)" "abs_agency (view s1) = (abs_agency (view s))(u \<mapsto> remove1 f bs)" by simp_all
  show ?case
  proof (cases "f \<in> set bs")
    case False
    then show ?thesis using s1(1,2) v1 by (simp add: remove1_idem fun_eq_iff)
  next
    case True
    have "abs_agency (view s1) u = Some (remove1 f bs)" using v1(2) by simp
    from Cons.IH [OF s1(2) v1(1) this] True s1(1) v1(2) show ?thesis by (auto simp: fun_eq_iff)
  qed
qed

lemma user_exists:
  assumes "ok s" and "agency_ok (view s)" and "lib_store ts = store_client_of get get_list put append remove"
  shows "\<exists>s1. doesUserExist ts u s = Some (abs_agency (view s) u \<noteq> None, s1) \<and> ok s1 \<and> view s1 = view s"
  using get_law [OF assms(1), of "getNewUserKey u"] agency_user(1) [OF assms(2), of u]
  by (auto simp: doesUserExist_def assms(3))

lemma bookings_read:
  assumes "ok s" and "lib_store ts = store_client_of get get_list put append remove"
  shows "\<exists>s1. sc_get_list (lib_store ts) (getUserBookingsKey u) s = Some (abs_agency (view s) u, s1) \<and> ok s1 \<and>
    view s1 = view s"
  using get_list_law [OF assms(1), of "getUserBookingsKey u"] by (simp add: abs_agency_def assms(2))

lemma create_refines:
  assumes "ok s" and "agency_ok (view s)" and "lib_store ts = store_client_of get get_list put append remove"
  shows "refines_spec ok view (agency_exec ts (NewUser u) (s, a)) (spec_agency la (NewUser u) (abs_agency (view s)) a)"
proof -
  let ?n = "getNewUserKey u" and ?b = "getUserBookingsKey u"
  from user_exists [OF assms] obtain s1 where
    s1: "doesUserExist ts u s = Some (abs_agency (view s) u \<noteq> None, s1)" "ok s1" "view s1 = view s" by blast
  from put_law [OF s1(2), of ?n "''new_user''"] s1(3) obtain s2 where
    s2: "put ?n ''new_user'' s1 = Some (True, s2)" "ok s2" "view s2 = (view s)(?n := Some (AStr ''new_user''))" by auto
  from put_law [OF s2(2), of ?b "''''"] s2(3) obtain s3 where
    s3: "put ?b '''' s2 = Some (True, s3)" "ok s3"
      "view s3 = (view s)(?n := Some (AStr ''new_user''), ?b := Some (AStr ''''))" by auto
  note v3 = agency_new_user [OF assms(2), of u "''new_user''" "''''", folded s3(3)]
  show ?thesis
    using s1 s2(1) s3(1,2) v3 assms(2)
    by (cases "abs_agency (view s) u") (simp_all add: CreateUser_def refines_spec_def assms(3))
qed

lemma booking_refines:
  assumes "ok s" and "agency_ok (view s)" and "lib_store ts = store_client_of get get_list put append remove"
  shows "refines_spec ok view
     (map_option (\<lambda>(r, w1). (reply_status r, w1)) (doBookingTransaction ts isRemove u fids (s, a)))
     (spec_booking (lib_airline ts) isRemove u fids (abs_agency (view s)) a)"
proof -
  let ?la = "lib_airline ts" and ?d = "abs_agency (view s)"
  let ?upd = "(if isRemove then sc_remove (lib_store ts) else sc_append (lib_store ts)) (getUserBookingsKey u)"
  from user_exists [OF assms] obtain s1 where
    s1: "doesUserExist ts u s = Some (?d u \<noteq> None, s1)" "ok s1" "view s1 = view s" by blast
  show ?thesis
  proof (cases "?d u")
    case None
    then show ?thesis
      using s1 assms(2) by (simp add: doBookingTransaction_def spec_booking_def refines_spec_def)
  next
    case (Some bs)
    from bookings_read [OF s1(2) assms(3), of u] Some s1(3) obtain s2 where
      s2: "sc_get_list (lib_store ts) (getUserBookingsKey u) s1 = Some (Some bs, s2)" "ok s2" "view s2 = view s" by auto
    let ?all = "(if isRemove then remove_all else add_all) fids bs"
    have "\<exists>s3. update_bookings ?upd fids s2 = Some (fst ?all, s3) \<and> ok s3 \<and> agency_ok (view s3) \<and>
        abs_agency (view s3) = ?d(u \<mapsto> snd ?all)"
      using add_loop [OF s2(2), of u bs fids] remove_loop [OF s2(2), of u bs fids] s2(3) assms(2,3) Some by simp
    then obtain s3 where s3: "update_bookings ?upd fids s2 = Some (fst ?all, s3)" "ok s3" "agency_ok (view s3)"
      "abs_agency (view s3) = ?d(u \<mapsto> snd ?all)" by blast
    have e: "list_ex (\<lambda>x. list_ex ((=) x) bs) fids \<longleftrightarrow> set fids \<inter> set bs \<noteq> {}" by (auto simp: list_ex_iff)
    show ?thesis
    proof (cases "doGetFlightsFromIds (ac_flight ?la) fids a")
      case None
      then show ?thesis using s1(1) Some by (simp add: doBookingTransaction_def spec_booking_def refines_spec_def)
    next
      case known: (Some p)
      show ?thesis
        using s1 s2 s3 Some known assms(2) e
        by (cases p; cases "fst p"; cases "ac_book ?la fids isRemove (snd p)"; cases ?all)
           (auto simp: doBookingTransaction_def spec_booking_def refines_spec_def Let_def split: if_splits bool.splits)
    qed
  qed
qed

lemma agency_exec_refines:
  assumes "ok s" and "agency_ok (view s)" and "lib_store ts = store_client_of get get_list put append remove"
  shows "refines_spec ok view (agency_exec ts e (s, a)) (spec_agency (lib_airline ts) e (abs_agency (view s)) a)"
proof (cases e)
  case (NewUser u)
  with create_refines [OF assms] show ?thesis by simp
next
  case (AddFlights u fids)
  with booking_refines [OF assms, of False u fids a] show ?thesis
    by (simp add: AddBooking_def refines_spec_def)
next
  case (RemoveFlights u fids)
  with booking_refines [OF assms, of True u fids a] show ?thesis
    by (simp add: RemoveBooking_def refines_spec_def)
next
  case (Bookings u)
  from bookings_read [OF assms(1,3), of u] obtain s1 where
    "sc_get_list (lib_store ts) (getUserBookingsKey u) s = Some (abs_agency (view s) u, s1)" "ok s1" "view s1 = view s"
    by blast
  with Bookings assms(2) show ?thesis
    by (auto simp: GetBookings_def refines_spec_def flights_reply_def split: option.splits)
next
  case (Search x y d)
  with assms(1,2) show ?thesis
    by (auto simp: ViewFlights_def refines_spec_def flights_reply_def split: option.splits)
next
  case (NewFlight f)
  with assms(1,2) show ?thesis
    by (auto simp: AddFlight_def refines_spec_def split: option.splits)
qed

end

end
