(* ===== verification/Read_Steps.thy ===== *)
theory Read_Steps
  imports Lease_Net
begin

section \<open>A read in its steps, interleaved with everything else\<close>

text \<open>
  In theory Lease_Net a read and a revocation are one event each. Here they are what the code
  makes of them. A read of a client is a look-up in its cache, a query at the server
  (\<open>GET_VALUE\<close>), a request for the lease at the server (\<open>PUT_LEASE\<close>) and the arrival of the
  reply, which creates the cache entry; any number of reads are under way at once, also of one
  client and one key. A revocation is a call at the client, which marks its entry, and later a
  request at the server, which takes the lease. Writes, timers, the clock and the garbage
  collector go on in between, in any order.

  A read can then be overtaken: the value is changed between the query and the grant of the
  lease, or the lease is revoked while the reply is under way, or the reply takes as long as
  the server waits beyond the time the client knows of. Such a reply, taken into the cache,
  makes later reads stale (\<open>overtaken_reads_stale\<close> in theory Store_Properties shows runs of the
  first two kinds). \<open>undisturbed\<close> says of a run that no
  reply with a lease was taken into a cache after this had happened to its read; then every
  cache is coherent with the servers at every moment.
\<close>

subsection \<open>The two halves of a read at the client\<close>

text \<open>Up to the remote call: what the cache has, or the server to call and whether a lease is wanted.\<close>

definition lib_begin ::
  "(string \<Rightarrow> bool) \<Rightarrow> int \<Rightarrow> bool \<Rightarrow> Libstore \<Rightarrow> string \<Rightarrow> ((cache_reply + nat option \<times> bool) \<times> Libstore) option" where
  "lib_begin dial now is_list ls key =
     (let (ls1, wantlease) = want_lease now ls key;
          (ls2, cacheValue) = (if ls_myhostport ls = '''' then (ls1, CRNil)
            else to_cache now ls1 (cache_req (if is_list then FETCH_CACHE_LIST else FETCH_CACHE) 0 key (CStr ''''))) in
      if cacheValue \<noteq> CRNil then Some (Inl cacheValue, ls2)
      else map_option (\<lambda>(cli, ls3). (Inr (cli, wantlease), ls3)) (getServer dial ls2 key))"

text \<open>From the reply on.\<close>

definition lib_end ::
  "('v \<Rightarrow> cache_value) \<Rightarrow> int \<Rightarrow> Libstore \<Rightarrow> storage_GetArgs \<Rightarrow> 'v storage_GetReply option \<Rightarrow> 'v option \<times> Libstore" where
  "lib_end mk now ls args reply =
     (case reply of
        None \<Rightarrow> (None, ls)
      | Some reply \<Rightarrow>
          if sg_Status reply \<noteq> S_OK then (None, ls)
          else if WantLease args \<and> Granted (sg_Lease reply)
          then (Some (sg_Value reply),
                fst (to_cache now ls
                  (cache_req CREATE_CACHE (ValidSeconds (sg_Lease reply)) (ga_Key args) (mk (sg_Value reply)))))
          else (Some (sg_Value reply), ls))"

text \<open>The two halves make up \<open>iGet\<close> and \<open>iGetList\<close>.\<close>

lemma iGet_halves:
  "iGet dial call clk ls key w =
     (case lib_begin dial (fst clk) False ls key of
        None \<Rightarrow> None
      | Some (Inl (CRStr v), ls2) \<Rightarrow> Some (Some v, ls2, w)
      | Some (Inl _, ls2) \<Rightarrow> None
      | Some (Inr (None, wl), ls3) \<Rightarrow> Some (None, ls3, w)
      | Some (Inr (Some cli, wl), ls3) \<Rightarrow>
          (let args = \<lparr>ga_Key = key, WantLease = wl, LeaseClient = ls_myhostport ls\<rparr>;
               (reply, w1) = call cli args w; (v, ls4) = lib_end CStr (snd clk) ls3 args reply in
           Some (v, ls4, w1)))"
  by (auto simp: iGet_def lib_begin_def lib_end_def Let_def split: prod.splits option.splits cache_reply.splits)

lemma iGetList_halves:
  "iGetList dial call clk ls key w =
     (case lib_begin dial (fst clk) True ls key of
        None \<Rightarrow> None
      | Some (Inl (CRList xs), ls2) \<Rightarrow> Some (Some xs, ls2, w)
      | Some (Inl _, ls2) \<Rightarrow> None
      | Some (Inr (None, wl), ls3) \<Rightarrow> Some (None, ls3, w)
      | Some (Inr (Some cli, wl), ls3) \<Rightarrow>
          (let args = \<lparr>ga_Key = key, WantLease = wl, LeaseClient = ls_myhostport ls\<rparr>;
               (reply, w1) = call cli args w; (v, ls4) = lib_end CList (snd clk) ls3 args reply in
           Some (v, ls4, w1)))"
  by (auto simp: iGetList_def lib_begin_def lib_end_def Let_def split: prod.splits option.splits cache_reply.splits)

subsection \<open>The two requests of a read at the server\<close>

datatype read_reply = StrReply "string storage_GetReply" | ListReply "string list storage_GetReply"

fun reply_lease :: "read_reply \<Rightarrow> LeaseStruct" where
  "reply_lease (StrReply r) = sg_Lease r"
| "reply_lease (ListReply r) = sg_Lease r"

fun reply_value :: "read_reply \<Rightarrow> cache_value" where
  "reply_value (StrReply r) = CStr (sg_Value r)"
| "reply_value (ListReply r) = CList (sg_Value r)"

text \<open>
  A read is on its way to the server; or the server has the value, and the request for the
  lease is the next; or the reply is on its way to the client (\<open>None\<close>: the call failed).
\<close>

datatype phase = Asked nat | Valued nat read_reply cacheReq | Replied "read_reply option"

fun value_phase ::
  "('v storage_GetReply \<Rightarrow> read_reply) \<Rightarrow> nat \<Rightarrow> ('v storage_GetReply + 'v storage_GetReply \<times> cacheReq) option \<Rightarrow> phase" where
  "value_phase mk i None = Replied None"
| "value_phase mk i (Some (Inl reply)) = Replied (Some (mk reply))"
| "value_phase mk i (Some (Inr (reply, r))) = Valued i (mk reply) r"

definition ask_value ::
  "('v storage_GetReply \<Rightarrow> read_reply) \<Rightarrow> nat \<Rightarrow> ('v storage_GetReply + cacheReq) option \<Rightarrow>
   (storage_reply \<Rightarrow> ('v storage_GetReply + 'v storage_GetReply \<times> cacheReq) option) \<Rightarrow> app_state \<Rightarrow> phase \<times> app_state" where
  "ask_value mk i start finish a =
     (case start of
        None \<Rightarrow> (Replied None, a)
      | Some (Inl reply) \<Rightarrow> (Replied (Some (mk reply)), a)
      | Some (Inr r) \<Rightarrow>
          (case serve a r of None \<Rightarrow> (Replied None, a) | Some (a1, v) \<Rightarrow> (value_phase mk i (finish v), a1)))"

fun with_lease :: "read_reply \<Rightarrow> storage_reply \<Rightarrow> read_reply option" where
  "with_lease (StrReply r) v = map_option StrReply (Get_lease r v)"
| "with_lease (ListReply r) v = map_option ListReply (Get_lease r v)"

definition ask_lease :: "read_reply \<Rightarrow> cacheReq \<Rightarrow> app_state \<Rightarrow> phase \<times> app_state" where
  "ask_lease reply r a =
     (case serve a r of None \<Rightarrow> (Replied None, a) | Some (a1, v) \<Rightarrow> (Replied (with_lease reply v), a1))"

subsection \<open>The system\<close>

text \<open>A read under way. \<open>fl_time\<close> is when its lease was granted; \<open>fl_disturbed\<close> records that it was overtaken.\<close>

record flight =
  fl_client :: string
  fl_args :: storage_GetArgs
  fl_list :: bool
  fl_phase :: phase
  fl_time :: int
  fl_disturbed :: bool

text \<open>\<open>rn_marks\<close> are the revocations the client has seen and the server has not yet.\<close>

record read_net =
  rn_net :: lease_net
  rn_reads :: "nat \<rightharpoonup> flight"
  rn_marks :: "(nat \<times> string \<times> string) list"

datatype read_event =
    Begin nat string string bool | Query nat | Grant nat | Arrive nat
  | Mark nat string string | Drop nat string string | Other lease_event

abbreviation fl_key :: "flight \<Rightarrow> string" where
  "fl_key f \<equiv> ga_Key (fl_args f)"

definition triple :: "read_net \<Rightarrow> flight \<Rightarrow> nat \<times> string \<times> string" where
  "triple s f = (owner (ln_nodes (rn_net s)) (fl_key f), fl_key f, fl_client f)"

text \<open>A step of the servers: a read between its two requests is disturbed when its value changes.\<close>

definition overtake :: "lease_net \<Rightarrow> lease_net \<Rightarrow> flight \<Rightarrow> flight" where
  "overtake n n' f =
     (case fl_phase f of
        Valued i reply r \<Rightarrow> f\<lparr>fl_disturbed := (fl_disturbed f \<or> stored_at n' (fl_key f) \<noteq> stored_at n (fl_key f))\<rparr>
      | _ \<Rightarrow> f)"

definition advance :: "read_net \<Rightarrow> lease_net \<Rightarrow> read_net" where
  "advance s n = s\<lparr>rn_net := n, rn_reads := (\<lambda>fid. map_option (overtake (rn_net s) n) (rn_reads s fid))\<rparr>"

definition begin_read :: "read_net \<Rightarrow> nat \<Rightarrow> string \<Rightarrow> string \<Rightarrow> bool \<Rightarrow> read_net option" where
  "begin_read s fid c key is_list =
     (case (rn_reads s fid, ln_libs (rn_net s) c) of
        (None, Some ls) \<Rightarrow>
          map_option (\<lambda>(res, ls1).
              s\<lparr>rn_net := (rn_net s)\<lparr>ln_libs := (ln_libs (rn_net s))(c \<mapsto> ls1)\<rparr>,
                rn_reads := (rn_reads s)(fid := (case res of
                    Inr (Some cli, wantlease) \<Rightarrow>
                      Some \<lparr>fl_client = c,
                        fl_args = \<lparr>ga_Key = key, WantLease = wantlease, LeaseClient = ls_myhostport ls\<rparr>,
                        fl_list = is_list, fl_phase = Asked cli, fl_time = 0, fl_disturbed = False\<rparr>
                  | _ \<Rightarrow> None))\<rparr>)
            (lib_begin (\<lambda>_. True) (ln_now (rn_net s)) is_list ls key)
      | _ \<Rightarrow> None)"

definition query_read :: "read_net \<Rightarrow> nat \<Rightarrow> read_net option" where
  "query_read s fid =
     (case rn_reads s fid of
        Some f \<Rightarrow>
          (case fl_phase f of
             Asked i \<Rightarrow>
               (let n = rn_net s; ss = server_at (ln_nodes n) i;
                    (p, a) = (if fl_list f
                      then ask_value ListReply i (GetList_begin ss (fl_args f) 0) (GetList_value (fl_args f) 1) (ln_apps n i)
                      else ask_value StrReply i (Get_begin ss (fl_args f) 0) (Get_value (fl_args f) 1) (ln_apps n i)) in
                Some (s\<lparr>rn_net := set_app n i a, rn_reads := (rn_reads s)(fid \<mapsto> f\<lparr>fl_phase := p\<rparr>)\<rparr>))
           | _ \<Rightarrow> None)
      | None \<Rightarrow> None)"

text \<open>A lease granted while a revocation of the client's lease on the key is half done is disturbed.\<close>

definition grant_read :: "read_net \<Rightarrow> nat \<Rightarrow> read_net option" where
  "grant_read s fid =
     (case rn_reads s fid of
        Some f \<Rightarrow>
          (case fl_phase f of
             Valued i reply r \<Rightarrow>
               (let n = rn_net s; (p, a) = ask_lease reply r (ln_apps n i); w = (ln_apps n)(i := a) in
                Some (s\<lparr>rn_net := n\<lparr>ln_apps := w, ln_due := new_due n w\<rparr>,
                        rn_reads := (rn_reads s)(fid \<mapsto> f\<lparr>fl_phase := p, fl_time := ln_now n,
                          fl_disturbed := (fl_disturbed f \<or> triple s f \<in> set (rn_marks s))\<rparr>)\<rparr>))
           | _ \<Rightarrow> None)
      | None \<Rightarrow> None)"

fun take_reply :: "int \<Rightarrow> Libstore \<Rightarrow> storage_GetArgs \<Rightarrow> read_reply option \<Rightarrow> Libstore" where
  "take_reply now ls args None = ls"
| "take_reply now ls args (Some (StrReply r)) = snd (lib_end CStr now ls args (Some r))"
| "take_reply now ls args (Some (ListReply r)) = snd (lib_end CList now ls args (Some r))"

definition arrive_read :: "read_net \<Rightarrow> nat \<Rightarrow> read_net option" where
  "arrive_read s fid =
     (case rn_reads s fid of
        Some f \<Rightarrow>
          (case (fl_phase f, ln_libs (rn_net s) (fl_client f)) of
             (Replied reply, Some ls) \<Rightarrow>
               Some (s\<lparr>rn_net := (rn_net s)\<lparr>ln_libs := (ln_libs (rn_net s))(fl_client f \<mapsto>
                         take_reply (ln_now (rn_net s)) ls (fl_args f) reply)\<rparr>,
                       rn_reads := (rn_reads s)(fid := None)\<rparr>)
           | _ \<Rightarrow> None)
      | None \<Rightarrow> None)"

text \<open>A revocation at the client; a reply with a lease that is under way to it is disturbed.\<close>

definition cross :: "string \<Rightarrow> string \<Rightarrow> flight \<Rightarrow> flight" where
  "cross key c f =
     (case fl_phase f of
        Replied reply \<Rightarrow> f\<lparr>fl_disturbed := (fl_disturbed f \<or> fl_client f = c \<and> fl_key f = key)\<rparr>
      | _ \<Rightarrow> f)"

definition mark_lease :: "read_net \<Rightarrow> nat \<Rightarrow> string \<Rightarrow> string \<Rightarrow> read_net option" where
  "mark_lease s i key c =
     map_option (\<lambda>ls.
         s\<lparr>rn_net := (rn_net s)\<lparr>ln_libs := (ln_libs (rn_net s))(c \<mapsto> fst (RevokeLease ls key))\<rparr>,
           rn_reads := (\<lambda>fid. map_option (cross key c) (rn_reads s fid)),
           rn_marks := (i, key, c) # rn_marks s\<rparr>)
       (ln_libs (rn_net s) c)"

text \<open>The same revocation at the server.\<close>

definition drop_lease :: "read_net \<Rightarrow> nat \<Rightarrow> string \<Rightarrow> string \<Rightarrow> read_net option" where
  "drop_lease s i key c =
     (if (i, key, c) \<notin> set (rn_marks s) then None
      else (case snd (callCacheRPC {} key c True (Some S_OK) 0) of
              None \<Rightarrow> None
            | Some r \<Rightarrow>
                map_option (\<lambda>(a, es). (advance s (set_app (rn_net s) i a))\<lparr>rn_marks := remove1 (i, key, c) (rn_marks s)\<rparr>)
                  (appHandler (ln_apps (rn_net s) i) r)))"

fun is_other :: "lease_event \<Rightarrow> bool" where
  "is_other (Write r) = True"
| "is_other (Fire i ch) = True"
| "is_other (Tick d) = True"
| "is_other (Collect c) = True"
| "is_other _ = False"

fun read_step :: "read_net \<Rightarrow> read_event \<Rightarrow> read_net option" where
  "read_step s (Begin fid c key is_list) = begin_read s fid c key is_list"
| "read_step s (Query fid) = query_read s fid"
| "read_step s (Grant fid) = grant_read s fid"
| "read_step s (Arrive fid) = arrive_read s fid"
| "read_step s (Mark i key c) = mark_lease s i key c"
| "read_step s (Drop i key c) = drop_lease s i key c"
| "read_step s (Other e) = (if is_other e then map_option (advance s) (lease_step (rn_net s) e) else None)"

text \<open>
  The runs in which no read is overtaken: a reply with a lease that arrives is not disturbed
  and has taken less than the guard time since the lease was granted.
\<close>

definition leased :: "flight \<Rightarrow> bool" where
  "leased f = (case fl_phase f of Replied (Some reply) \<Rightarrow> Granted (reply_lease reply) | _ \<Rightarrow> False)"

fun in_time :: "read_net \<Rightarrow> read_event \<Rightarrow> bool" where
  "in_time s (Arrive fid) =
     (case rn_reads s fid of
        Some f \<Rightarrow> leased f \<longrightarrow> \<not> fl_disturbed f \<and> ln_now (rn_net s) < fl_time f + GUARD
      | None \<Rightarrow> True)"
| "in_time s _ = True"

fun undisturbed :: "read_net \<Rightarrow> read_event list \<Rightarrow> bool" where
  "undisturbed s [] = True"
| "undisturbed s (e # es) =
     (in_time s e \<and> (case read_step s e of None \<Rightarrow> True | Some s' \<Rightarrow> undisturbed s' es))"


subsection \<open>What keeps an entry covered\<close>

lemma covered_earlier:
  "covered s c k (new_entry v t) \<Longrightarrow> t' \<le> t \<Longrightarrow> covered s c k (new_entry v t')"
  by (auto simp: covered_def new_entry_def)

lemma covered_net:
  "ln_nodes n' = ln_nodes n \<Longrightarrow> ln_apps n' = ln_apps n \<Longrightarrow> ln_due n' = ln_due n \<Longrightarrow> covered n' c k e = covered n c k e"
  by (simp add: covered_def stored_at_def)

text \<open>A step of a server that does not take the lease.\<close>

lemma covered_server:
  assumes g: "good_step (ln_apps s i) rs a es" and cov: "covered s c k e"
    and same: "i = owner (ln_nodes s) k \<Longrightarrow> lease_of a k c = lease_of (ln_apps s i) k c"
  shows "covered (set_app s i a) c k e"
proof -
  let ?o = "owner (ln_nodes s) k"
  have L: "lease_of (ln_apps (set_app s i a) ?o) k c = lease_of (ln_apps s ?o) k c"
    using same by (auto simp: set_app_def)
  have st: "stored_at (set_app s i a) k = stored_at s k"
  proof (cases "?o = i")
    case True
    obtain ch where "lease_of (ln_apps s ?o) k c = Some ch" using cov by (auto simp: covered_def)
    with same True have "leaseMap a k \<noteq> None" by (auto simp: lease_of_def split: option.splits)
    with g True show ?thesis by (simp add: good_step_def stored_at_def set_app_def)
  qed (simp add: stored_at_def set_app_def)
  show ?thesis by (rule covered_keep [OF cov _ L st]) (simp_all add: set_app_def)
qed

text \<open>The events besides reads and revocations.\<close>

lemma covered_step:
  assumes coh: "coherent s" and st: "lease_step s ev = Some s'" and ev: "is_other ev"
    and cov: "covered s c k e" and t: "ln_now s' \<le> expiryTime e"
  shows "covered s' c k e"
proof (cases ev)
  case (Write r)
  let ?i = "owner (ln_nodes s) (cr_key r)"
  from Write st obtain a es where m: "is_modify (cr_typ r)" and h: "appHandler (ln_apps s ?i) r = Some (a, es)"
    and s': "s' = set_app s ?i a" by (auto simp: Let_def split: if_splits)
  have "storage_exec (ln_apps s ?i) (Ask r) = Some (a, es)" using h m by (auto simp: is_modify_def)
  from storage_exec_good [OF coherentD(3) [OF coh] this] cov
  show ?thesis unfolding s'
    by (rule covered_server) (use modify_moves(1) [OF h] m in \<open>simp add: lease_of_def is_data_def\<close>)
next
  case (Fire i ch)
  with st obtain a es where due: "ln_due s i ch \<le> ln_now s"
    and h: "storage_exec (ln_apps s i) (TimerFires ch 0) = Some (a, es)" and s': "s' = set_app s i a"
    by (auto simp del: storage_exec.simps split: if_splits)
  obtain k' c' where kc: "lease_of (ln_apps s i) k' c' = Some ch" "lease_moves (ln_apps s i) a k' c' None"
    using timer_moves [OF coherentD(3) [OF coh] h] by blast
  have "ln_now s \<le> expiryTime e" using t by (simp add: s' set_app_def)
  then have "i = owner (ln_nodes s) k \<Longrightarrow> (k', c') \<noteq> (k, c)" using cov kc(1) due by (auto simp: covered_def)
  with kc(2) have "i = owner (ln_nodes s) k \<Longrightarrow> lease_of a k c = lease_of (ln_apps s i) k c"
    by (auto simp: lease_moves_def)
  with storage_exec_good [OF coherentD(3) [OF coh] h] cov show ?thesis unfolding s' by (rule covered_server)
next
  case (Tick d)
  with st cov show ?thesis by (auto simp: covered_def stored_at_def)
next
  case (Collect x)
  with st cov show ?thesis by (auto simp: covered_def stored_at_def split: option.splits)
qed (use ev in simp_all)

text \<open>The grant of a lease: who has it already has a longer one now.\<close>

lemma covered_grant:
  assumes inv: "storage_inv (ln_apps s i)" and mv: "read_moves (ln_apps s i) a key c0 granted"
    and due: "\<And>ch. ln_due s i ch \<le> lease_end (ln_now s)" and cov: "covered s c k e"
    and s': "s' = s\<lparr>ln_apps := (ln_apps s)(i := a), ln_due := new_due s ((ln_apps s)(i := a))\<rparr>"
  shows "covered s' c k e"
proof -
  let ?o = "owner (ln_nodes s) k"
  from cov obtain ch where ch: "lease_of (ln_apps s ?o) k c = Some ch" "expiryTime e < ln_due s ?o ch"
    by (auto simp: covered_def)
  have st: "stored_at s' k = stored_at s k" using mv by (auto simp: stored_at_def s' read_moves_def)
  show ?thesis
  proof (cases "granted \<and> i = ?o \<and> k = key \<and> c = c0")
    case True
    with mv have "lease_of a k c = Some (next_timer (ln_apps s i))" "next_timer a = next_timer (ln_apps s i) + 1"
      by (auto simp: read_moves_def lease_moves_def)
    moreover have "expiryTime e < lease_end (ln_now s)" using ch(2) due [of ch] True by simp
    ultimately show ?thesis using cov st True by (auto simp: covered_def s' new_due_def)
  next
    case False
    have "ch < next_timer (ln_apps s i)" if "i = ?o" using lease_timer_old [OF inv] ch(1) that by blast
    then have "ln_due s' ?o ch = ln_due s ?o ch" by (auto simp: s' new_due_def)
    moreover have "lease_of (ln_apps s' ?o) k c = lease_of (ln_apps s ?o) k c"
      using mv False by (cases granted) (auto simp: s' read_moves_def lease_moves_def)
    ultimately show ?thesis using cov st ch by (auto simp: covered_def s')
  qed
qed

subsection \<open>The invariant\<close>

definition phase_ok :: "read_net \<Rightarrow> flight \<Rightarrow> bool" where
  "phase_ok s f =
     (case fl_phase f of
        Asked i \<Rightarrow> i = owner (ln_nodes (rn_net s)) (fl_key f)
      | Valued i reply r \<Rightarrow>
          i = owner (ln_nodes (rn_net s)) (fl_key f) \<and> r = ask S_PUT_LEASE (fl_key f) (fl_client f) 1 \<and>
          \<not> Granted (reply_lease reply) \<and>
          (fl_disturbed f \<or> matches (reply_value reply) (stored_at (rn_net s) (fl_key f)))
      | Replied None \<Rightarrow> True
      | Replied (Some reply) \<Rightarrow>
          Granted (reply_lease reply) \<longrightarrow> ValidSeconds (reply_lease reply) = LEASE_SECONDS \<and>
            (fl_disturbed f \<or> triple s f \<notin> set (rn_marks s) \<and>
               (ln_now (rn_net s) < fl_time f + GUARD \<longrightarrow>
                  covered (rn_net s) (fl_client f) (fl_key f) (new_entry (reply_value reply) (fl_time f + GUARD - 1)))))"

definition flight_ok :: "read_net \<Rightarrow> flight \<Rightarrow> bool" where
  "flight_ok s f \<longleftrightarrow> LeaseClient (fl_args f) = fl_client f \<and> ln_libs (rn_net s) (fl_client f) \<noteq> None \<and> phase_ok s f"

text \<open>What a half done revocation says: the client has no entry that could be used.\<close>

definition marks_ok :: "read_net \<Rightarrow> bool" where
  "marks_ok s \<longleftrightarrow>
     (\<forall>c ls key e. ln_libs (rn_net s) c = Some ls \<longrightarrow> gget (lc_cacheMap (ls_cache ls)) key = Some e \<longrightarrow>
        fresh (ln_now (rn_net s)) e \<longrightarrow> (owner (ln_nodes (rn_net s)) key, key, c) \<notin> set (rn_marks s))"

definition reads_inv :: "read_net \<Rightarrow> bool" where
  "reads_inv s \<longleftrightarrow> coherent (rn_net s) \<and>
     (\<forall>i ch. ln_due (rn_net s) i ch \<le> lease_end (ln_now (rn_net s))) \<and>
     (\<forall>fid f. rn_reads s fid = Some f \<longrightarrow> flight_ok s f) \<and> marks_ok s"

lemma reads_invD:
  assumes "reads_inv s"
  shows "coherent (rn_net s)" "ln_due (rn_net s) i ch \<le> lease_end (ln_now (rn_net s))"
    "rn_reads s fid = Some f \<Longrightarrow> flight_ok s f" "marks_ok s"
  using assms by (simp_all add: reads_inv_def)


subsection \<open>The invariant is kept\<close>

lemma marks_fewer:
  assumes "marks_ok s" and "ln_nodes (rn_net s') = ln_nodes (rn_net s)" and "ln_now (rn_net s) \<le> ln_now (rn_net s')"
    and libs: "\<And>c l. ln_libs (rn_net s') c = Some l \<Longrightarrow> \<exists>l0. ln_libs (rn_net s) c = Some l0 \<and> same_lib l0 l"
    and "set (rn_marks s') \<subseteq> set (rn_marks s)"
  shows "marks_ok s'"
  unfolding marks_ok_def
proof (intro allI impI)
  fix c l key e
  assume l: "ln_libs (rn_net s') c = Some l" and e: "gget (lc_cacheMap (ls_cache l)) key = Some e"
    and f: "fresh (ln_now (rn_net s')) e"
  obtain l0 where l0: "ln_libs (rn_net s) c = Some l0" "same_lib l0 l" using libs [OF l] by blast
  with e f have "gget (lc_cacheMap (ls_cache l0)) key = Some e" by (simp add: same_lib_def fewer_def fresh_def)
  moreover have "fresh (ln_now (rn_net s)) e" using f assms(3) by (simp add: fresh_def)
  ultimately show "(owner (ln_nodes (rn_net s')) key, key, c) \<notin> set (rn_marks s')"
    using assms(1,2,5) l0(1) by (auto simp: marks_ok_def)
qed

lemma overtake_simps [simp]:
  "fl_client (overtake n n' f) = fl_client f" "fl_args (overtake n n' f) = fl_args f"
  "fl_phase (overtake n n' f) = fl_phase f" "fl_time (overtake n n' f) = fl_time f"
  by (simp_all add: overtake_def split: phase.split)

text \<open>A step of the servers or the clock.\<close>

lemma advance_flight:
  assumes ok: "flight_ok s f" and n: "ln_nodes n' = ln_nodes (rn_net s)"
    and libs: "\<And>c. ln_libs (rn_net s) c \<noteq> None \<Longrightarrow> ln_libs n' c \<noteq> None"
    and t: "ln_now (rn_net s) \<le> ln_now n'" and ms: "set ms \<subseteq> set (rn_marks s)"
    and cov: "\<And>c k e. covered (rn_net s) c k e \<Longrightarrow> ln_now n' \<le> expiryTime e \<Longrightarrow>
      (owner (ln_nodes (rn_net s)) k, k, c) \<notin> set (rn_marks s) \<Longrightarrow> covered n' c k e"
  shows "flight_ok ((advance s n')\<lparr>rn_marks := ms\<rparr>) (overtake (rn_net s) n' f)"
proof -
  let ?f = "overtake (rn_net s) n' f" and ?s = "(advance s n')\<lparr>rn_marks := ms\<rparr>"
  have net: "rn_net ?s = n'" "rn_marks ?s = ms" by (simp_all add: advance_def)
  have tr: "triple ?s ?f = triple s f" using n by (simp add: triple_def net)
  have phase: "phase_ok s f" using ok by (simp add: flight_ok_def)
  have "phase_ok ?s ?f"
  proof (cases "fl_phase f")
    case (Asked i)
    with phase n show ?thesis by (simp add: phase_ok_def net)
  next
    case (Valued i reply r)
    with phase n show ?thesis by (auto simp: phase_ok_def net overtake_def)
  next
    case (Replied reply)
    have d: "fl_disturbed ?f = fl_disturbed f" using Replied by (simp add: overtake_def)
    have "covered n' (fl_client f) (fl_key f) (new_entry v (fl_time f + GUARD - 1))"
      if "covered (rn_net s) (fl_client f) (fl_key f) (new_entry v (fl_time f + GUARD - 1))"
        "triple s f \<notin> set (rn_marks s)" "ln_now n' < fl_time f + GUARD" for v
      using that(2,3) by (intro cov [OF that(1)])
        (simp_all add: triple_def new_entry_def LEASE_SECONDS_def SECOND_def)
    with phase Replied t ms show ?thesis
      by (cases reply) (auto simp: phase_ok_def net tr d)
  qed
  with ok libs show ?thesis by (simp add: flight_ok_def net)
qed

lemma advance_inv:
  assumes inv: "reads_inv s" and coh: "coherent n'" and n: "ln_nodes n' = ln_nodes (rn_net s)"
    and dom: "\<And>c. ln_libs (rn_net s) c \<noteq> None \<Longrightarrow> ln_libs n' c \<noteq> None"
    and libs: "\<And>c l. ln_libs n' c = Some l \<Longrightarrow> \<exists>l0. ln_libs (rn_net s) c = Some l0 \<and> same_lib l0 l"
    and t: "ln_now (rn_net s) \<le> ln_now n'" and ms: "set ms \<subseteq> set (rn_marks s)" and due: "ln_due n' = ln_due (rn_net s)"
    and cov: "\<And>c k e. covered (rn_net s) c k e \<Longrightarrow> ln_now n' \<le> expiryTime e \<Longrightarrow>
      (owner (ln_nodes (rn_net s)) k, k, c) \<notin> set (rn_marks s) \<Longrightarrow> covered n' c k e"
  shows "reads_inv ((advance s n')\<lparr>rn_marks := ms\<rparr>)"
proof -
  let ?s = "(advance s n')\<lparr>rn_marks := ms\<rparr>"
  note I = reads_invD [OF inv]
  have net: "rn_net ?s = n'" "rn_marks ?s = ms" by (simp_all add: advance_def)
  have "ln_due n' i ch \<le> lease_end (ln_now n')" for i ch
    using I(2) [of i ch] t due by (simp add: lease_end_def)
  moreover have "flight_ok ?s f'" if "rn_reads ?s fid = Some f'" for fid f'
  proof -
    from that obtain f where "rn_reads s fid = Some f" "f' = overtake (rn_net s) n' f" by (auto simp: advance_def)
    with advance_flight [OF I(3) n dom t ms cov] show ?thesis by blast
  qed
  moreover have "marks_ok ?s" by (rule marks_fewer [OF I(4)]) (use n t libs ms in \<open>simp_all add: net\<close>)
  ultimately show ?thesis using coh by (simp add: reads_inv_def net)
qed

lemma same_lib_refl [simp]: "same_lib l l"
  by (simp add: same_lib_def)

lemma other_step:
  assumes st: "lease_step s e = Some s'" and e: "is_other e" and coh: "coherent s"
  shows "ln_nodes s' = ln_nodes s" "ln_libs s c \<noteq> None \<Longrightarrow> ln_libs s' c \<noteq> None"
    "ln_libs s' c = Some l \<Longrightarrow> \<exists>l0. ln_libs s c = Some l0 \<and> same_lib l0 l" "ln_now s \<le> ln_now s'"
    "ln_due s' = ln_due s"
proof -
  have "ln_nodes s' = ln_nodes s \<and> (ln_libs s c \<noteq> None \<longrightarrow> ln_libs s' c \<noteq> None) \<and>
    (ln_libs s' c = Some l \<longrightarrow> (\<exists>l0. ln_libs s c = Some l0 \<and> same_lib l0 l)) \<and> ln_now s \<le> ln_now s' \<and> ln_due s' = ln_due s"
  proof (cases e)
    case (Collect x)
    with st obtain ls where ls: "ln_libs s x = Some ls" by (auto split: option.splits)
    have "gmap_ok (lc_cacheMap (ls_cache ls))" using coherentD(4) [OF coh ls] by (simp add: lib_ok_def)
    from collect_same [OF this, of "ln_now s"] Collect st ls show ?thesis by (auto split: if_splits)
  qed (use st e in \<open>auto simp: set_app_def Let_def simp del: storage_exec.simps split: if_splits\<close>)
  then show "ln_nodes s' = ln_nodes s" "ln_libs s c \<noteq> None \<Longrightarrow> ln_libs s' c \<noteq> None"
    "ln_libs s' c = Some l \<Longrightarrow> \<exists>l0. ln_libs s c = Some l0 \<and> same_lib l0 l" "ln_now s \<le> ln_now s'"
    "ln_due s' = ln_due s" by blast+
qed

lemma advance_marks: "(advance s n)\<lparr>rn_marks := rn_marks s\<rparr> = advance s n"
  by (simp add: advance_def)

lemma other_inv:
  assumes inv: "reads_inv s" and e: "is_other e" and st: "lease_step (rn_net s) e = Some n"
  shows "reads_inv (advance s n)"
proof -
  note coh = reads_invD(1) [OF inv]
  note O = other_step [OF st e coh]
  from advance_inv [OF inv coherent_step [OF coh st] O(1-4) subset_refl O(5)] covered_step [OF coh st e]
  show ?thesis by (simp add: advance_marks)
qed

lemma drop_inv:
  assumes inv: "reads_inv s" and st: "drop_lease s i key c = Some s'"
  shows "reads_inv s'"
proof -
  let ?n = "rn_net s" and ?r = "ask REVOKE_LEASE key c 0"
  note I = reads_invD [OF inv]
  from st obtain a es where m: "(i, key, c) \<in> set (rn_marks s)" and h: "appHandler (ln_apps ?n i) ?r = Some (a, es)"
    and s': "s' = (advance s (set_app ?n i a))\<lparr>rn_marks := remove1 (i, key, c) (rn_marks s)\<rparr>"
    by (auto simp: drop_lease_def callCacheRPC_def split: if_splits)
  have "storage_exec (ln_apps ?n i) (Ask ?r) = Some (a, es)" using h by simp
  from storage_exec_good [OF coherentD(3) [OF I(1)] this]
  have g: "good_step (ln_apps ?n i) (asked (Ask ?r)) a es" .
  have mv: "lease_moves (ln_apps ?n i) a key c None" using revoke_moves [OF h] by simp
  have "\<not> fresh (ln_now ?n) e" if "ln_libs ?n c = Some l" "gget (lc_cacheMap (ls_cache l)) key = Some e"
    "i = owner (ln_nodes ?n) key" for l e
    using I(4) m that by (auto simp: marks_ok_def)
  with mv have coh: "coherent (set_app ?n i a)"
    by (intro coherent_server [OF I(1) g _ libs_same set_app_libs [symmetric]]) blast+
  have cov: "covered (set_app ?n i a) c' k e"
    if "covered ?n c' k e" "(owner (ln_nodes ?n) k, k, c') \<notin> set (rn_marks s)" for c' k e
    using mv m that(2) by (intro covered_server [OF g that(1)]) (auto simp: lease_moves_def)
  show ?thesis unfolding s'
    by (rule advance_inv [OF inv coh]) (use cov in \<open>auto simp: set_app_def dest: notin_set_remove1 set_remove1_subset [THEN subsetD]\<close>)
qed


text \<open>Steps of a client alone.\<close>

lemma flight_libs:
  assumes "flight_ok s f" and "L (fl_client f) \<noteq> None"
  shows "flight_ok (s\<lparr>rn_net := (rn_net s)\<lparr>ln_libs := L\<rparr>, rn_reads := R\<rparr>) f"
  using assms by (auto simp: flight_ok_def phase_ok_def triple_def covered_def stored_at_def split: phase.splits option.splits)

lemma coherent_lookup:
  assumes coh: "coherent s" and ls: "ln_libs s c = Some ls" and lib: "same_lib ls ls3"
    and cm: "ls_connMap ls3 \<subseteq> {..< length (ln_nodes s)}"
  shows "coherent (s\<lparr>ln_libs := (ln_libs s)(c \<mapsto> ls3)\<rparr>)"
proof -
  let ?i = "owner (ln_nodes s) []"
  have rm: "read_moves (ln_apps s ?i) (ln_apps s ?i) [] c False" using coherentD(3) [OF coh] by (simp add: read_moves_def)
  have due: "new_due s (ln_apps s) = ln_due s" by (intro ext) (simp add: new_due_def)
  have s': "s\<lparr>ln_libs := (ln_libs s)(c \<mapsto> ls3)\<rparr> = s\<lparr>ln_libs := (ln_libs s)(c \<mapsto> ls3), ln_apps := (ln_apps s)(?i := ln_apps s ?i),
      ln_due := new_due s ((ln_apps s)(?i := ln_apps s ?i)), ln_now := ln_now s + int 0\<rparr>"
    by (simp add: due)
  have d: "int 0 < GUARD" by (simp add: GUARD_def LEASE_GUARD_SECONDS_def SECOND_def)
  show ?thesis using read_end [OF coh ls refl lib cm d rm _ _ s'] by simp
qed

lemma lib_begin_result:
  assumes ok: "lib_ok s c ls" and ne: "ln_nodes s \<noteq> []"
    and b: "lib_begin (\<lambda>_. True) (ln_now s) is_list ls key = Some (res, ls3)"
  shows "same_lib ls ls3" "ls_connMap ls3 \<subseteq> {..< length (ln_nodes s)}"
    "res = Inr (Some cli, wl) \<Longrightarrow> cli = owner (ln_nodes s) key"
proof -
  have L: "nodelist ls = ln_nodes s" "ls_myhostport ls = c" "c \<noteq> ''''" "ls_connMap ls \<subseteq> {..< length (ln_nodes s)}"
    using ok by (auto simp: lib_ok_def)
  obtain ls1 w where w: "want_lease (ln_now s) ls key = (ls1, w)" by fastforce
  have s1: "same_lib ls ls1" "ls_connMap ls1 = ls_connMap ls" using want_lease_same [OF w] by simp_all
  let ?q = "cache_req (if is_list then FETCH_CACHE_LIST else FETCH_CACHE) 0 key (CStr '''')"
  obtain lc v where v: "cacheHandler (ln_now s) (ls_cache ls1) ?q = (lc, v)" by fastforce
  have few: "fewer (lc_cacheMap (ls_cache ls1)) (lc_cacheMap lc)"
  proof (cases is_list)
    case True
    with v have "fetch_cache_list (ln_now s) (ls_cache ls1) key = (lc, v)" by (simp add: cacheHandler_def cache_req_def)
    then show ?thesis by (rule fetch_cache_list_result(1))
  next
    case False
    with v have "fetch_cache (ln_now s) (ls_cache ls1) key = (lc, v)" by (simp add: cacheHandler_def cache_req_def)
    then show ?thesis by (rule fetch_cache_result(1))
  qed
  let ?ls2 = "ls1\<lparr>ls_cache := lc\<rparr>"
  have s2: "same_lib ls ?ls2" using s1(1) few by (auto simp: same_lib_def intro: fewer_trans)
  have n2: "nodelist ?ls2 = ln_nodes s" using s1(1) L(1) by (simp add: same_lib_def)
  then obtain ls4 where g: "getServer (\<lambda>_. True) ?ls2 key = Some (Some (owner (ln_nodes s) key), ls4)" "same_lib ?ls2 ls4"
    "ls_connMap ls4 \<subseteq> insert (owner (ln_nodes s) key) (ls_connMap ?ls2)"
    using getServer_ok [of ?ls2 key] ne by auto
  have s4: "same_lib ls ls4" using s2 g(2) by (auto simp: same_lib_def intro: fewer_trans)
  have c4: "ls_connMap ls4 \<subseteq> {..< length (ln_nodes s)}" using g(3) s1(2) L(4) owner_bound [OF ne, of key] by auto
  have "ls3 = ?ls2 \<and> (\<exists>x. res = Inl x) \<or> ls3 = ls4 \<and> (\<exists>wl. res = Inr (Some (owner (ln_nodes s) key), wl))"
    using b g(1) by (auto simp: lib_begin_def w L(2,3) to_cache_def v split: if_splits)
  with s2 s4 c4 s1(2) L(4) show "same_lib ls ls3" "ls_connMap ls3 \<subseteq> {..< length (ln_nodes s)}"
    "res = Inr (Some cli, wl) \<Longrightarrow> cli = owner (ln_nodes s) key" by auto
qed

lemma begin_inv:
  assumes inv: "reads_inv s" and st: "begin_read s fid c key is_list = Some s'"
  shows "reads_inv s'"
proof -
  let ?n = "rn_net s"
  note I = reads_invD [OF inv]
  note C = coherentD [OF I(1)]
  from st obtain ls res ls1 where ls: "ln_libs ?n c = Some ls" and b: "lib_begin (\<lambda>_. True) (ln_now ?n) is_list ls key = Some (res, ls1)"
    and s': "s' = s\<lparr>rn_net := ?n\<lparr>ln_libs := (ln_libs ?n)(c \<mapsto> ls1)\<rparr>,
      rn_reads := (rn_reads s)(fid := (case res of
        Inr (Some cli, wantlease) \<Rightarrow> Some \<lparr>fl_client = c, fl_args = \<lparr>ga_Key = key, WantLease = wantlease, LeaseClient = ls_myhostport ls\<rparr>,
          fl_list = is_list, fl_phase = Asked cli, fl_time = 0, fl_disturbed = False\<rparr>
      | _ \<Rightarrow> None))\<rparr>"
    by (auto simp: begin_read_def split: option.splits)
  note B = lib_begin_result [OF C(4) [OF ls] C(1) b]
  have coh: "coherent (rn_net s')" using coherent_lookup [OF I(1) ls B(1,2)] by (simp add: s')
  have old: "flight_ok s' f" if "rn_reads s g = Some f" for g f
    using I(3) [OF that] unfolding s' by (intro flight_libs) (auto simp: flight_ok_def)
  have "ls_myhostport ls = c" using C(4) [OF ls] by (simp add: lib_ok_def)
  then have new: "flight_ok s' f" if "rn_reads s' fid = Some f" for f
    using that B(3) by (auto simp: s' flight_ok_def phase_ok_def split: sum.splits option.splits)
  have "flight_ok s' f" if "rn_reads s' g = Some f" for g f
    using that old [of g f] new [of f] by (cases "g = fid") (auto simp: s')
  moreover have "marks_ok s'" by (rule marks_fewer [OF I(4)]) (use ls B(1) in \<open>auto simp: s' split: if_splits\<close>)
  ultimately show ?thesis using coh I(2) by (simp add: reads_inv_def s')
qed

lemma mark_inv:
  assumes inv: "reads_inv s" and st: "mark_lease s i key c = Some s'"
  shows "reads_inv s'"
proof -
  let ?n = "rn_net s"
  note I = reads_invD [OF inv]
  from st obtain ls where ls: "ln_libs ?n c = Some ls" and
    s': "s' = s\<lparr>rn_net := ?n\<lparr>ln_libs := (ln_libs ?n)(c \<mapsto> fst (RevokeLease ls key))\<rparr>,
      rn_reads := (\<lambda>fid. map_option (cross key c) (rn_reads s fid)), rn_marks := (i, key, c) # rn_marks s\<rparr>"
    by (auto simp: mark_lease_def)
  let ?libs = "(ln_libs ?n)(c \<mapsto> fst (RevokeLease ls key))"
  have lib: "\<exists>l0. ln_libs ?n c' = Some l0 \<and> same_lib l0 l \<and> ls_connMap l = ls_connMap l0" if "?libs c' = Some l" for c' l
    using that ls libs_same [of ?n c' l] RevokeLease_same(1,2) [of ls key] by (auto split: if_splits)
  have coh: "coherent (rn_net s')" using coherent_libs [where libs = ?libs, OF I(1) lib order_refl] by (simp add: s')
  have "flight_ok s' f'" if "rn_reads s' fid = Some f'" for fid f'
  proof -
    from that obtain f where f: "rn_reads s fid = Some f" "f' = cross key c f" by (auto simp: s')
    have "?libs (fl_client f) \<noteq> None" using I(3) [OF f(1)] by (simp add: flight_ok_def)
    with I(3) [OF f(1)] show ?thesis
      by (auto simp: f(2) s' cross_def flight_ok_def phase_ok_def triple_def covered_def stored_at_def
          split: phase.splits option.splits)
  qed
  moreover have "marks_ok s'"
    unfolding marks_ok_def
  proof (intro allI impI)
    fix c' l k e
    assume l: "ln_libs (rn_net s') c' = Some l" and e: "gget (lc_cacheMap (ls_cache l)) k = Some e"
      and f: "fresh (ln_now (rn_net s')) e"
    from lib [of c' l] l obtain l0 where l0: "ln_libs ?n c' = Some l0" "same_lib l0 l" by (auto simp: s')
    with e f have "gget (lc_cacheMap (ls_cache l0)) k = Some e" "fresh (ln_now ?n) e"
      by (simp_all add: same_lib_def fewer_def fresh_def s')
    with I(4) l0(1) have "(owner (ln_nodes ?n) k, k, c') \<notin> set (rn_marks s)" by (simp add: marks_ok_def)
    moreover have "(k, c') \<noteq> (key, c)"
      using RevokeLease_same(3) [of ls key e] l e f by (auto simp: s' fresh_def)
    ultimately show "(owner (ln_nodes (rn_net s')) k, k, c') \<notin> set (rn_marks s')" by (auto simp: s')
  qed
  ultimately show ?thesis using coh I(2) by (simp add: reads_inv_def s')
qed


text \<open>The two requests of a read.\<close>

lemma query_value:
  assumes ne: "nodes \<noteq> []" and i: "i = owner nodes (ga_Key args)" and inv: "storage_inv a"
    and p: "(p, a') = (if is_list
      then ask_value ListReply i (GetList_begin (server_at nodes i) args 0) (GetList_value args 1) a
      else ask_value StrReply i (Get_begin (server_at nodes i) args 0) (Get_value args 1) a)"
  shows "a' = a \<and>
    ((\<exists>reply. p = Replied (Some reply) \<and> \<not> Granted (reply_lease reply)) \<or>
     (\<exists>reply. p = Valued i reply (ask S_PUT_LEASE (ga_Key args) (LeaseClient args) 1) \<and>
        \<not> Granted (reply_lease reply) \<and> matches (reply_value reply) (abs_cache (cacheMap a) (ga_Key args))))"
proof (cases is_list)
  case True
  have "GetList_begin (server_at nodes i) args 0 = Some (Inr (ask GET_LIST_VALUE (ga_Key args) '''' 0))"
    using isKeyInRange_owner [OF ne] by (simp add: GetList_begin_def i)
  moreover obtain v where "serve a (ask GET_LIST_VALUE (ga_Key args) '''' 0) = Some (a, v)"
    "get_list_value (cacheMap a) (ga_Key args) = Some v"
    using serve_get(2) [OF storage_invD(1) [OF inv]] by blast
  ultimately show ?thesis using p True
    by (auto simp: ask_value_def GetList_value_def get_list_value_def matches_def abs_cache_def no_lease_def Let_def
        split: option.splits stored.splits if_splits)
next
  case False
  have "Get_begin (server_at nodes i) args 0 = Some (Inr (ask GET_VALUE (ga_Key args) '''' 0))"
    using isKeyInRange_owner [OF ne] by (simp add: Get_begin_def i)
  with serve_get(1) [of a "ga_Key args" "''''" 0] p False show ?thesis
    by (auto simp: ask_value_def Get_value_def get_value_def matches_def abs_cache_def no_lease_def Let_def
        split: option.splits stored.splits if_splits)
qed

lemma query_inv:
  assumes inv: "reads_inv s" and st: "query_read s fid = Some s'"
  shows "reads_inv s'"
proof -
  let ?n = "rn_net s"
  note I = reads_invD [OF inv]
  from st obtain f i where f: "rn_reads s fid = Some f" "fl_phase f = Asked i"
    by (auto simp: query_read_def split: option.splits phase.splits)
  obtain p a where pa: "(p, a) = (if fl_list f
      then ask_value ListReply i (GetList_begin (server_at (ln_nodes ?n) i) (fl_args f) 0) (GetList_value (fl_args f) 1) (ln_apps ?n i)
      else ask_value StrReply i (Get_begin (server_at (ln_nodes ?n) i) (fl_args f) 0) (Get_value (fl_args f) 1) (ln_apps ?n i))"
    by (metis surj_pair)
  have ok: "flight_ok s f" by (rule I(3) [OF f(1)])
  then have i: "i = owner (ln_nodes ?n) (fl_key f)" using f(2) by (simp add: flight_ok_def phase_ok_def)
  note C = coherentD [OF I(1)]
  note Q = query_value [OF C(1) i C(3) pa]
  have "set_app ?n i a = ?n" using Q by (auto simp: set_app_def intro: lease_net.equality)
  then have s': "s' = s\<lparr>rn_reads := (rn_reads s)(fid \<mapsto> f\<lparr>fl_phase := p\<rparr>)\<rparr>"
    using st f pa [symmetric] by (auto simp: query_read_def Let_def)
  have "flight_ok s' (f\<lparr>fl_phase := p\<rparr>)"
    using ok Q i by (auto simp: s' flight_ok_def phase_ok_def stored_at_def)
  moreover have "flight_ok s' g" if "flight_ok s g" for g
    using that by (auto simp: s' flight_ok_def phase_ok_def triple_def split: phase.splits option.splits)
  ultimately show ?thesis using I by (auto simp: reads_inv_def s' marks_ok_def split: if_splits)
qed

lemma ask_lease_result:
  assumes inv: "storage_inv a" and nl: "\<not> Granted (reply_lease reply)"
  obtains a' reply' where "ask_lease reply (ask S_PUT_LEASE k c n) a = (Replied (Some reply'), a')"
    "read_moves a a' k c (Granted (reply_lease reply'))" "reply_value reply' = reply_value reply"
    "Granted (reply_lease reply') \<Longrightarrow> ValidSeconds (reply_lease reply') = LEASE_SECONDS"
proof -
  obtain a' b where p: "serve a (ask S_PUT_LEASE k c n) = Some (a', SBool b)" "read_moves a a' k c b"
    using serve_put_lease [OF inv] unfolding read_moves_def by (metis (full_types))
  obtain reply' where r: "with_lease reply (SBool b) = Some reply'" "Granted (reply_lease reply') = b"
    "reply_value reply' = reply_value reply" "b \<Longrightarrow> ValidSeconds (reply_lease reply') = LEASE_SECONDS"
    by (cases reply; cases b) (auto simp: Get_lease_def)
  show thesis by (rule that [of reply' a']) (use p r in \<open>simp_all add: ask_lease_def\<close>)
qed

lemma grant_inv:
  assumes inv: "reads_inv s" and st: "grant_read s fid = Some s'"
  shows "reads_inv s'"
proof -
  let ?n = "rn_net s"
  note I = reads_invD [OF inv]
  note C = coherentD [OF I(1)]
  from st obtain f i reply r where f: "rn_reads s fid = Some f" "fl_phase f = Valued i reply r"
    by (auto simp: grant_read_def split: option.splits phase.splits)
  have ok: "flight_ok s f" by (rule I(3) [OF f(1)])
  then have V: "i = owner (ln_nodes ?n) (fl_key f)" "r = ask S_PUT_LEASE (fl_key f) (fl_client f) 1"
    "\<not> Granted (reply_lease reply)" "fl_disturbed f \<or> matches (reply_value reply) (stored_at ?n (fl_key f))"
    using f(2) by (simp_all add: flight_ok_def phase_ok_def)
  obtain a reply' where A: "ask_lease reply r (ln_apps ?n i) = (Replied (Some reply'), a)"
    "read_moves (ln_apps ?n i) a (fl_key f) (fl_client f) (Granted (reply_lease reply'))" "reply_value reply' = reply_value reply"
    "Granted (reply_lease reply') \<Longrightarrow> ValidSeconds (reply_lease reply') = LEASE_SECONDS"
    using ask_lease_result [OF C(3) V(3)] unfolding V(2) by metis
  let ?w = "(ln_apps ?n)(i := a)"
  let ?n' = "?n\<lparr>ln_apps := ?w, ln_due := new_due ?n ?w\<rparr>"
  let ?f = "f\<lparr>fl_phase := Replied (Some reply'), fl_time := ln_now ?n,
    fl_disturbed := (fl_disturbed f \<or> triple s f \<in> set (rn_marks s))\<rparr>"
  have s': "s' = s\<lparr>rn_net := ?n', rn_reads := (rn_reads s)(fid \<mapsto> ?f)\<rparr>"
    using st f A(1) by (simp add: grant_read_def Let_def)
  have cov: "covered ?n c k e \<Longrightarrow> covered ?n' c k e" for c k e
    by (rule covered_grant [OF C(3) A(2) I(2) _ refl])
  have st: "stored_at ?n' k = stored_at ?n k" for k using A(2) by (auto simp: stored_at_def read_moves_def)
  have inv_a: "storage_inv (ln_apps ?n' j)" for j using C(3) A(2) by (simp add: read_moves_def)
  have coh: "coherent ?n'"
    unfolding coherent_def
  proof (intro conjI allI impI)
    show "ln_libs ?n' c = Some l \<Longrightarrow> lib_ok ?n' c l" for c l using C(4) [of c l] by (simp add: lib_ok_def)
    show "covered ?n' c k e" if "ln_libs ?n' c = Some l" "gget (lc_cacheMap (ls_cache l)) k = Some e"
      "fresh (ln_now ?n') e" for c l k e using that by (intro cov C(5)) auto
  qed (use C(1,2) inv_a in simp_all)
  have new: "covered ?n' (fl_client f) (fl_key f) (new_entry (reply_value reply') (ln_now ?n + GUARD - 1))"
    if "Granted (reply_lease reply')" "\<not> fl_disturbed ?f"
  proof -
    have "lease_of a (fl_key f) (fl_client f) = Some (next_timer (ln_apps ?n i))"
      "next_timer a = next_timer (ln_apps ?n i) + 1" using A(2) that(1) by (auto simp: read_moves_def lease_moves_def)
    moreover have "matches (reply_value reply') (stored_at ?n' (fl_key f))" using V(4) A(3) that(2) st by simp
    ultimately show ?thesis using V(1)
      by (simp add: covered_def new_entry_def new_due_def lease_end_def GUARD_def algebra_simps)
  qed
  have "flight_ok s' ?f"
    using ok A(4) new by (auto simp: s' flight_ok_def phase_ok_def triple_def)
  moreover have "flight_ok s' g" if "flight_ok s g" for g
    using that cov st by (auto simp: s' flight_ok_def phase_ok_def triple_def split: phase.splits option.splits)
  moreover have "ln_due ?n' j ch \<le> lease_end (ln_now ?n')" for j ch using I(2) by (simp add: new_due_def)
  moreover have "marks_ok s'" using I(4) by (simp add: marks_ok_def s')
  ultimately show ?thesis using coh I(3) by (auto simp: reads_inv_def s' split: if_splits)
qed


text \<open>The reply arrives.\<close>

lemma take_reply_result:
  assumes "ls' = take_reply now ls args reply"
  shows "ls' = ls \<or> (\<exists>rep. reply = Some rep \<and> Granted (reply_lease rep) \<and>
    ls' = fst (to_cache now ls (cache_req CREATE_CACHE (ValidSeconds (reply_lease rep)) (ga_Key args) (reply_value rep))))"
  unfolding assms
  by (cases "(now, ls, args, reply)" rule: take_reply.cases) (auto simp: lib_end_def)

lemma coherent_insert:
  assumes coh: "coherent s" and ls: "ln_libs s c = Some ls" and cov: "covered s c key (new_entry v (ln_now s))"
  shows "coherent (s\<lparr>ln_libs := (ln_libs s)(c \<mapsto>
      fst (to_cache (ln_now s) ls (cache_req CREATE_CACHE LEASE_SECONDS key v)))\<rparr>)" (is "coherent ?s")
  unfolding coherent_def
proof (intro conjI allI impI)
  note C = coherentD [OF coh]
  show "ln_nodes ?s \<noteq> []" "distinct (map NodeID (ln_nodes ?s))" using C(1,2) by simp_all
  show "storage_inv (ln_apps ?s j)" for j using C(3) by simp
  show "lib_ok ?s c' l" if "ln_libs ?s c' = Some l" for c' l
  proof -
    have "lib_ok s c' l" using that C(4) [of c' l] lib_ok_create [OF C(4) [OF ls]] by (cases "c' = c") auto
    then show ?thesis by (simp add: lib_ok_def)
  qed
  show "covered ?s c' k e" if "ln_libs ?s c' = Some l" "gget (lc_cacheMap (ls_cache l)) k = Some e"
    "fresh (ln_now ?s) e" for c' l k e
  proof (cases "c' = c \<and> k = key")
    case True
    with that have "e = new_entry v (ln_now s)" by (auto simp: create_entries)
    with cov True show ?thesis by (simp add: covered_def stored_at_def)
  next
    case False
    with that ls obtain l0 where "ln_libs s c' = Some l0" "gget (lc_cacheMap (ls_cache l0)) k = Some e"
      by (auto simp: create_entries split: if_splits)
    from C(5) [OF this] that(3) show ?thesis by (simp add: covered_def stored_at_def)
  qed
qed

lemma arrive_inv:
  assumes inv: "reads_inv s" and st: "arrive_read s fid = Some s'" and time: "in_time s (Arrive fid)"
  shows "reads_inv s'"
proof -
  let ?n = "rn_net s"
  note I = reads_invD [OF inv]
  from st obtain f reply ls where f: "rn_reads s fid = Some f" "fl_phase f = Replied reply"
    and ls: "ln_libs ?n (fl_client f) = Some ls"
    and s': "s' = s\<lparr>rn_net := ?n\<lparr>ln_libs := (ln_libs ?n)(fl_client f \<mapsto> take_reply (ln_now ?n) ls (fl_args f) reply)\<rparr>,
      rn_reads := (rn_reads s)(fid := None)\<rparr>"
    by (auto simp: arrive_read_def split: option.splits phase.splits)
  let ?ls = "take_reply (ln_now ?n) ls (fl_args f) reply"
  have flights: "flight_ok s' g" if "rn_reads s' gid = Some g" for gid g
  proof -
    have g: "flight_ok s g" using that I(3) by (auto simp: s' split: if_splits)
    show ?thesis unfolding s' by (rule flight_libs [OF g]) (use g in \<open>auto simp: flight_ok_def\<close>)
  qed
  have "coherent (rn_net s') \<and> marks_ok s'"
    using take_reply_result [OF refl, of "ln_now ?n" ls "fl_args f" reply]
  proof (elim disjE exE conjE)
    assume "?ls = ls"
    then have "rn_net s' = ?n" using ls by (simp add: s' fun_upd_idem)
    with I(1,4) show ?thesis by (simp add: marks_ok_def s')
  next
    fix rep assume r: "reply = Some rep" "Granted (reply_lease rep)" and
      new: "?ls = fst (to_cache (ln_now ?n) ls (cache_req CREATE_CACHE (ValidSeconds (reply_lease rep)) (fl_key f) (reply_value rep)))"
    have "\<not> fl_disturbed f" "ln_now ?n < fl_time f + GUARD" using time f r by (simp_all add: leased_def)
    with I(3) [OF f(1)] f(2) r have P: "ValidSeconds (reply_lease rep) = LEASE_SECONDS" "triple s f \<notin> set (rn_marks s)"
      "covered ?n (fl_client f) (fl_key f) (new_entry (reply_value rep) (fl_time f + GUARD - 1))"
      by (auto simp: flight_ok_def phase_ok_def)
    have "covered ?n (fl_client f) (fl_key f) (new_entry (reply_value rep) (ln_now ?n))"
      using P(3) \<open>ln_now ?n < fl_time f + GUARD\<close> by (intro covered_earlier [OF P(3)]) simp
    from coherent_insert [OF I(1) ls this] have "coherent (rn_net s')" by (simp add: s' new P(1))
    moreover have "marks_ok s'"
      unfolding marks_ok_def
    proof (intro allI impI)
      fix c l k e
      assume l: "ln_libs (rn_net s') c = Some l" and e: "gget (lc_cacheMap (ls_cache l)) k = Some e"
        and fr: "fresh (ln_now (rn_net s')) e"
      show "(owner (ln_nodes (rn_net s')) k, k, c) \<notin> set (rn_marks s')"
      proof (cases "c = fl_client f \<and> k = fl_key f")
        case True
        with P(2) show ?thesis by (simp add: triple_def s')
      next
        case False
        with l e ls obtain l0 where "ln_libs ?n c = Some l0" "gget (lc_cacheMap (ls_cache l0)) k = Some e"
          by (auto simp: s' new P(1) create_entries split: if_splits)
        with I(4) fr show ?thesis by (simp add: marks_ok_def s')
      qed
    qed
    ultimately show ?thesis by blast
  qed
  with flights I(2) show ?thesis by (simp add: reads_inv_def s')
qed

lemma read_step_inv:
  assumes "reads_inv s" and "read_step s e = Some s'" and "in_time s e"
  shows "reads_inv s'"
proof (cases e)
  case (Begin fid c key is_list)
  with assms(2) show ?thesis by (intro begin_inv [OF assms(1)]) simp
next
  case (Query fid)
  with assms(2) show ?thesis by (intro query_inv [OF assms(1)]) simp
next
  case (Grant fid)
  with assms(2) show ?thesis by (intro grant_inv [OF assms(1)]) simp
next
  case (Arrive fid)
  with assms(2,3) show ?thesis by (intro arrive_inv [OF assms(1)]) simp_all
next
  case (Mark i key c)
  with assms(2) show ?thesis by (intro mark_inv [OF assms(1)]) simp
next
  case (Drop i key c)
  with assms(2) show ?thesis by (intro drop_inv [OF assms(1)]) simp
next
  case (Other ev)
  with assms(2) obtain n where "is_other ev" "lease_step (rn_net s) ev = Some n" "s' = advance s n"
    by (auto simp del: lease_step.simps split: if_splits)
  with other_inv [OF assms(1)] show ?thesis by blast
qed

lemma undisturbed_inv:
  "reads_inv s \<Longrightarrow> run read_step s es = Some s' \<Longrightarrow> undisturbed s es \<Longrightarrow> reads_inv s'"
proof (induction es arbitrary: s)
  case (Cons e es)
  from Cons.prems(2) obtain s1 where s1: "read_step s e = Some s1" "run read_step s1 es = Some s'"
    by (auto split: option.splits)
  from Cons.prems(3) s1(1) have "in_time s e" "undisturbed s1 es" by simp_all
  with Cons.IH s1 read_step_inv [OF Cons.prems(1) s1(1)] show ?case by blast
qed simp

text \<open>The start: nothing under way. No timer runs yet, so its time is only an initial value.\<close>

definition reads_start :: "read_net \<Rightarrow> bool" where
  "reads_start s \<longleftrightarrow> lease_start (rn_net s) \<and> ln_due (rn_net s) = (\<lambda>_ _. ln_now (rn_net s)) \<and>
     rn_reads s = Map.empty \<and> rn_marks s = []"

lemma reads_start_inv: "reads_start s \<Longrightarrow> reads_inv s"
  by (simp add: reads_start_def reads_inv_def lease_start_coherent marks_ok_def lease_end_def
      LEASE_SECONDS_def LEASE_GUARD_SECONDS_def SECOND_def)

end
