(* ===== verification/Store_Properties.thy ===== *)
theory Store_Properties
  imports Kv_Store Read_Steps
begin

section \<open>The store as its clients see it\<close>

text \<open>
  The properties of the storage ring, its caches and its leases taken together: client and
  server route a key to the same node, a read that is answered from a cache is as good as a
  read of the server, and a write of one client is what every client reads next.
\<close>

definition ring_of_two :: "Node list" where
  "ring_of_two = [slave ''localhost:1'' 100, slave ''localhost:2'' 3000000000]"

definition fresh_client :: "Node list \<Rightarrow> string \<Rightarrow> Libstore" where
  "fresh_client nodes c = \<lparr>nodelist = nodes, always_lease = True, ls_myhostport = c, ls_cache = empty_cache, ls_connMap = {}\<rparr>"

definition two_clients :: lease_net where
  "two_clients = \<lparr>ln_nodes = ring_of_two, ln_apps = \<lambda>_. app_init, ln_due = \<lambda>_ _. 0,
     ln_libs = [''c'' \<mapsto> fresh_client ring_of_two ''c'', ''d'' \<mapsto> fresh_client ring_of_two ''d''], ln_now = 0\<rparr>"

lemma two_clients_start: "lease_start two_clients"
  by (auto simp: lease_start_def two_clients_def ring_of_two_def slave_def fresh_client_def split: if_splits)

lemma two_clients_ok: "store_ok ''c'' two_clients" "store_ok ''d'' two_clients"
  using lease_start_coherent [OF two_clients_start]
  by (auto simp: store_ok_def idle_def two_clients_def app_init_def pending_def lease_of_def)

text \<open>C24: A client library and the servers, each with its own loops over the nodes, agree on who has a
  key, and it is the node that consistent hashing gives it to: the library contacts the server
  with the least identifier not below the hash of the key, or with the least identifier if none is;
  that server takes the key for its own, and no other server of the ring does, so no
  read is refused with \<open>EWRONGSERVER\<close>. Identifiers have to be distinct.\<close>

theorem routing_agrees:
  assumes "nodelist ls \<noteq> []" and "distinct (map NodeID (nodelist ls))"
  shows "\<exists>i ls'. getServer (\<lambda>_. True) ls key = Some (Some i, ls') \<and>
    owns (nodelist ls) (Storehash (hd (strings_Split key '':''))) i \<and>
    (\<forall>j < length (nodelist ls). isKeyInRange (server_at (nodelist ls) j) key = Some (j = i))"
proof -
  let ?n = "nodelist ls" and ?i = "owner (nodelist ls) key"
  have b: "?i < length ?n" by (rule owner_bound [OF assms(1)])
  have own: "owns ?n (Storehash (hd (strings_Split key '':''))) ?i"
    using ring_machine_owns [OF assms(1)] by (simp add: owner_def key_hash_def)
  have "isKeyInRange (server_at ?n j) key = Some (j = ?i)" if "j < length ?n" for j
    using b nth_eq_iff_index_eq [OF assms(2), of ?i j] that
    by (auto simp: isKeyInRange_def server_at_def owner_def Let_def)
  with getServer_ok [OF assms(1), of key] own show ?thesis by blast
qed

theorem routing_agrees_witness:
  "\<exists>i ls'. getServer (\<lambda>_. True) (fresh_client ring_of_two ''c'') ''A::TRANS'' = Some (Some i, ls') \<and>
     owns ring_of_two (Storehash ''A'') i"
proof -
  have "hd (strings_Split ''A::TRANS'' '':'') = ''A''" by code_simp
  with routing_agrees [of "fresh_client ring_of_two ''c''" "''A::TRANS''"] show ?thesis
    by (auto simp: fresh_client_def ring_of_two_def slave_def)
qed

definition reading :: "lease_net \<Rightarrow> read_net" where
  "reading n = \<lparr>rn_net = n, rn_reads = Map.empty, rn_marks = []\<rparr>"

lemma reading_start: "reads_start (reading two_clients)"
  using two_clients_start by (simp add: reads_start_def reading_def) (simp add: two_clients_def)

text \<open>C12: A read is not stale as long as no reply with a lease was taken into a cache after its read
  had been overtaken. A read is a look-up in the cache, a query at the server, a request for the
  lease and the arrival of the reply; a revocation is a call at the client and a request at the
  server; reads (any number, also of one client and one key), writes, revocations, expiring leases,
  the clock and the garbage collectors interleave in any order. The condition \<open>undisturbed\<close> is that
  whenever a reply with a lease arrives, the value has not changed between its query and its lease,
  no revocation of this client's lease on the key was half done at the grant or has reached the client
  since, and less than the guard time has passed since the grant. After every such run, a client
  that reads a string or a list gets what the server of the key has at that moment, whether the
  answer comes from its cache or from the server. Without the condition reads can be stale
  (\<open>overtaken_reads_stale\<close> below, and \<open>lease_on_old_value\<close> in theory Storage_Server).\<close>

theorem cached_reads_current:
  assumes "reads_start s0" and "run read_step s0 evs = Some s" and "undisturbed s0 evs"
    and "ln_libs (rn_net s) c = Some ls" and "int delay < GUARD"
  shows "(\<exists>n. read_string (rn_net s) c key delay = Some (string_at (stored_at (rn_net s) key), n)) \<and>
    (\<exists>n. read_list (rn_net s) c key delay = Some (list_at (stored_at (rn_net s) key), n))"
proof -
  have coh: "coherent (rn_net s)"
    by (rule reads_invD(1) [OF undisturbed_inv [OF reads_start_inv [OF assms(1)] assms(2,3)]])
  from read_string_result [OF coh assms(4,5)] read_list_result [OF coh assms(4,5)] show ?thesis by blast
qed

text \<open>Two clients read at once; a write waits, one lease is called back, the other client's reply is
  still under way when the write is asked for.\<close>

definition interleaved_reads :: "read_event list" where
  "interleaved_reads =
     [Other (Write (Put_begin ''k'' ''v'' 0)), Begin 0 ''c'' ''k'' False, Begin 1 ''d'' ''k'' False, Query 0,
      Other (Tick 5), Grant 0, Query 1, Arrive 0, Grant 1, Other (Write (Put_begin ''k'' ''w'' 0)),
      Mark (owner ring_of_two ''k'') ''k'' ''c'', Other (Tick 1000), Arrive 1, Drop (owner ring_of_two ''k'') ''k'' ''c'']"

theorem cached_reads_current_witness:
  "\<exists>s ls e n. run read_step (reading two_clients) interleaved_reads = Some s \<and> ln_libs (rn_net s) ''d'' = Some ls \<and>
     gget (lc_cacheMap (ls_cache ls)) ''k'' = Some e \<and> read_string (rn_net s) ''d'' ''k'' 0 = Some (Some ''v'', n)"
proof -
  have "map_option (\<lambda>s. (case ln_libs (rn_net s) ''d'' of None \<Rightarrow> False
        | Some ls \<Rightarrow> gget (lc_cacheMap (ls_cache ls)) ''k'' \<noteq> None, stored_at (rn_net s) ''k''))
      (run read_step (reading two_clients) interleaved_reads) = Some (True, Some (AStr ''v''))"
    by code_simp
  then obtain s ls e where s: "run read_step (reading two_clients) interleaved_reads = Some s"
    "ln_libs (rn_net s) ''d'' = Some ls" "gget (lc_cacheMap (ls_cache ls)) ''k'' = Some e"
    "stored_at (rn_net s) ''k'' = Some (AStr ''v'')"
    by (auto split: option.splits)
  have u: "undisturbed (reading two_clients) interleaved_reads" by code_simp
  have "int 0 < GUARD" by (simp add: GUARD_def LEASE_GUARD_SECONDS_def SECOND_def)
  from cached_reads_current [OF reading_start s(1) u s(2) this, of "''k''"] s(4)
  have "\<exists>n. read_string (rn_net s) ''d'' ''k'' 0 = Some (Some ''v'', n)" by (simp add: string_at_def)
  with s show ?thesis by blast
qed

text \<open>Two ways to overtake a read: a write between the query and the grant; a write and the
  revocation it causes, while the reply is under way. Each time the client then reads the old
  value from its cache.\<close>

definition overtaken_runs :: "read_event list list" where
  "overtaken_runs =
     (let old = Other (Write (Put_begin ''k'' ''old'' 0)); new = Other (Write (Put_begin ''k'' ''new'' 0));
          i = owner ring_of_two ''k'' in
      [[old, Begin 0 ''c'' ''k'' False, Query 0, new, Grant 0, Arrive 0],
       [old, Begin 0 ''c'' ''k'' False, Query 0, Grant 0, new, Mark i ''k'' ''c'', Drop i ''k'' ''c'', Arrive 0]])"

theorem overtaken_reads_stale:
  "list_all (\<lambda>evs. \<exists>s n. run read_step (reading two_clients) evs = Some s \<and> \<not> undisturbed (reading two_clients) evs \<and>
     stored_at (rn_net s) ''k'' = Some (AStr ''new'') \<and> read_string (rn_net s) ''c'' ''k'' 0 = Some (Some ''old'', n))
   overtaken_runs"
proof -
  have *: "\<exists>s n. run read_step (reading two_clients) evs = Some s \<and> \<not> undisturbed (reading two_clients) evs \<and>
     stored_at (rn_net s) ''k'' = Some (AStr ''new'') \<and> read_string (rn_net s) ''c'' ''k'' 0 = Some (Some ''old'', n)"
    if "map_option (\<lambda>s. (stored_at (rn_net s) ''k'', map_option fst (read_string (rn_net s) ''c'' ''k'' 0),
        undisturbed (reading two_clients) evs)) (run read_step (reading two_clients) evs) =
      Some (Some (AStr ''new''), Some (Some ''old''), False)" for evs
    using that by auto
  have "list_all (\<lambda>evs. map_option (\<lambda>s. (stored_at (rn_net s) ''k'', map_option fst (read_string (rn_net s) ''c'' ''k'' 0),
        undisturbed (reading two_clients) evs)) (run read_step (reading two_clients) evs) =
      Some (Some (AStr ''new''), Some (Some ''old''), False)) overtaken_runs"
    by code_simp
  then show ?thesis unfolding list_all_iff by (intro ballI *) blast
qed

text \<open>C23: What one client writes is what every client reads next, at this key and at no other:
  a put is accepted, waits for the leases that other clients hold, and its value is then read by
  any of them.\<close>

theorem read_after_write:
  assumes "store_ok c s" and "ln_libs s d \<noteq> None"
  shows "\<exists>s1 s2 s3. store_put c key v s = Some (True, s1) \<and> store_get d key s1 = Some (Some v, s2) \<and>
    (k \<noteq> key \<longrightarrow> store_get d k s1 = Some (string_at (stored_at s k), s3))"
proof -
  from client_write_ok [OF assms(1), of Put_begin key v _ "\<lambda>v. Some (Put_reply v)", OF _ _ refl]
  obtain s1 where s1: "store_put c key v s = Some (True, s1)" "store_ok c s1"
    "stored_at s1 = (stored_at s)(key := Some (AStr v))" "dom (ln_libs s1) = dom (ln_libs s)"
    by (auto simp: store_put_def lib_write_eta Put_begin_def Put_reply_def is_modify_def spec_req_def)
  have "store_ok d s1" using s1(2,4) assms(2) by (auto simp: store_ok_def dom_def)
  from ring.get_law [OF this, of key] ring.get_law [OF this, of k] s1 show ?thesis
    by (auto simp: string_at_def)
qed

theorem read_after_write_witness:
  "\<exists>s1 s2. store_put ''c'' ''k'' ''v'' two_clients = Some (True, s1) \<and> store_get ''d'' ''k'' s1 = Some (Some ''v'', s2)"
  using read_after_write [OF two_clients_ok(1), of "''d''" "''k''" "''v''" "''k''"] by (auto simp: two_clients_def)

end
