(* ===== verification/Two_Phase.thy ===== *)
theory Two_Phase
  imports Tran_Layer Airline_Paxos
begin

section \<open>Two-phase commit across the airlines\<close>

text \<open>
  One transaction manager and the airlines it books at, each airline the store handler of
  its (one) acting replica. The remote calls between them are messages: \<open>to_air\<close> holds the
  calls of the manager, \<open>to_tm\<close> the votes of the airlines; they arrive in any order, at most
  once, or are lost. \<open>parts\<close> remembers the participants of each booking and \<open>told\<close> the
  answers given to clients.

  \<open>two_phase_inv\<close> is the invariant of the protocol as long as no booking expires before its
  decision (\<open>quiet_step\<close>): every airline that has a decision has the manager's, the manager
  decides commit only if all participants promised, and a promise is kept in the log until
  the decision arrives. If a booking may expire, atomicity is lost: \<open>expiry_run\<close>.
\<close>

subsection \<open>The system\<close>

record booking_net =
  tm :: TranLayer
  airs :: "string \<rightharpoonup> AirlineServer"
  to_tm :: "TranArgs list"
  to_air :: "(string \<times> TranArgs) list"
  told :: "(nat \<times> bool) list"
  parts :: "string \<rightharpoonup> string set"

datatype booking_event =
    Book string "tranOrder list" nat
  | SendOrder
  | VoteArrives nat bool
  | CallArrives nat bool
  | VoteLost nat
  | CallLost nat
  | LocalRequest string Request
  | Expire string

definition init_booking :: "string \<Rightarrow> (string \<rightharpoonup> AirlineServer) \<Rightarrow> booking_net" where
  "init_booking host as =
     \<lparr>tm = NewTranLayer host, airs = as, to_tm = [], to_air = [], told = [], parts = Map.empty\<rparr>"

definition tm_done :: "booking_net \<Rightarrow> (TranLayer \<times> tl_effect list) option \<Rightarrow> booking_net option" where
  "tm_done s result =
     map_option (\<lambda>(ly, es). s\<lparr>tm := ly, to_air := to_air s @ calls_of es, told := told s @ answers_of es\<rparr>) result"

text \<open>The votes among the effects of an airline, addressed to the manager.\<close>

fun votes_of :: "string \<Rightarrow> air_effect list \<Rightarrow> TranArgs list" where
  "votes_of host [] = []"
| "votes_of host (CallTM a m # es) = (if a = host then m # votes_of host es else votes_of host es)"
| "votes_of host (_ # es) = votes_of host es"

definition air_done ::
  "booking_net \<Rightarrow> string \<Rightarrow> (AirlineServer \<times> air_effect list) option \<Rightarrow> booking_net option" where
  "air_done s h result =
     map_option (\<lambda>(a, es). s\<lparr>airs := (airs s)(h \<mapsto> a), to_tm := to_tm s @ votes_of (tl_myhostport (tm s)) es\<rparr>)
       result"

definition list_without :: "nat \<Rightarrow> 'a list \<Rightarrow> 'a list" where
  "list_without i xs = take i xs @ drop (Suc i) xs"

fun tp_step :: "booking_net \<Rightarrow> booking_event \<Rightarrow> booking_net option" where
  "tp_step s (Book t orders c) =
     (if parts s t = None \<and> tl_oldLog (tm s) t = None \<and> activeTransMap (tm s) t = None \<and>
         oldTransactionMap (tm s) = [] \<and> list_all (\<lambda>order. to_conn order = to_pptID order) orders
      then tm_done (s\<lparr>parts := (parts s)(t \<mapsto> to_pptID ` set orders)\<rparr>)
             (requestHandler (\<lambda>_. True) (tm s) (Some (mk_tl_request TL_INIT_TRANS t (OrdersV orders) (Some c))))
      else None)"
| "tp_step s SendOrder =
     (if oldTransactionMap (tm s) \<noteq> [] then tm_done s (requestHandler (\<lambda>_. True) (tm s) None) else None)"
| "tp_step s (VoteArrives i dial) =
     (if i < length (to_tm s) \<and> oldTransactionMap (tm s) = []
      then (case TransResponse_request (to_tm s ! i) 0 of
              None \<Rightarrow> None
            | Some r \<Rightarrow> tm_done (s\<lparr>to_tm := list_without i (to_tm s)\<rparr>)
                          (requestHandler (\<lambda>_. dial) (tm s) (Some r)))
      else None)"
| "tp_step s (CallArrives i dial) =
     (if i < length (to_air s)
      then (case to_air s ! i of (h, m) \<Rightarrow>
              (case airs s h of
                 None \<Rightarrow> None
               | Some a \<Rightarrow> air_done (s\<lparr>to_air := list_without i (to_air s)\<rparr>) h
                   (PaxosTransaction (\<lambda>_. dial) (\<lambda>_. NoConn) a m None True)))
      else None)"
| "tp_step s (VoteLost i) =
     (if i < length (to_tm s) then Some (s\<lparr>to_tm := list_without i (to_tm s)\<rparr>) else None)"
| "tp_step s (CallLost i) =
     (if i < length (to_air s) then Some (s\<lparr>to_air := list_without i (to_air s)\<rparr>) else None)"
| "tp_step s (LocalRequest h r) =
     (case airs s h of
        None \<Rightarrow> None
      | Some a \<Rightarrow>
          if reqType r = INIT_TRANS \<or> reqType r = REQ_TRANS_RESPONSE then None
          else air_done s h (storeHandler (\<lambda>_. True) (\<lambda>_. NoConn) a r))"
| "tp_step s (Expire t) =
     (if oldTransactionMap (tm s) = []
      then tm_done s (requestHandler (\<lambda>_. True) (tm s) (Some (mk_tl_request TL_TRANS_EXPIRED t NilV None)))
      else None)"

text \<open>Steps in which no undecided booking expires.\<close>

definition quiet_step :: "booking_net \<Rightarrow> booking_event \<Rightarrow> booking_net option" where
  "quiet_step s e =
     (case e of
        Expire t \<Rightarrow> if activeTransMap (tm s) t \<noteq> None then None else tp_step s e
      | _ \<Rightarrow> tp_step s e)"

subsection \<open>What an airline does to its decisions and promises\<close>

definition promised :: "AirlineServer \<Rightarrow> string \<Rightarrow> bool" where
  "promised a t \<longleftrightarrow> logBuf a t \<noteq> None \<or> oldLog a t \<noteq> None"

lemma storeHandler_promised:
  "storeHandler dial poll a r = Some (a', es) \<Longrightarrow> air_inv a \<Longrightarrow> promised a t \<Longrightarrow> promised a' t"
  by (cases rule: storeHandler_cases) (auto simp: promised_def)

lemma storeHandler_host:
  "storeHandler dial poll a r = Some (a', es) \<Longrightarrow> air_inv a \<Longrightarrow> myhostport a' = myhostport a"
  by (cases rule: storeHandler_cases) auto

lemma storeHandler_oldLog:
  assumes "storeHandler dial poll a r = Some (a', es)" and "air_inv a" and "oldLog a' t = Some d"
  shows "oldLog a t = Some d \<or>
    (reqType r = REQ_TRANS_RESPONSE \<and>
     (\<exists>args. req_val r = VArgs args \<and> ta_TranID args = t \<and> ta_Vote args = d))"
  using assms(1,2)
proof (cases rule: storeHandler_cases)
  case (decided ls args)
  with assms(3) show ?thesis by (auto split: if_splits)
qed (use assms(3) in simp_all)

text \<open>Votes: only a prepare votes, once, for its transaction, and a vote for commit is kept.\<close>

lemma storeHandler_votes_other:
  "storeHandler dial poll a r = Some (a', es) \<Longrightarrow> reqType r \<noteq> INIT_TRANS \<Longrightarrow> votes_of host es = []"
  by (cases "reqType r")
     (auto simp: storeHandler_def transactionHandler_def responseTrans_def expireTrans_def
       send_on_own_channel_def createFlight_def send_def Let_def
       split: req_value.splits option.splits if_splits list.splits)

lemma initTrans_votes:
  assumes "initTrans dial a r = Some (a', es)" and "req_val r = VArgs args" and "m \<in> set (votes_of host es)"
  shows "ta_TranType m = TRANS_RESPONSE" and "ta_TranID m = ta_TranID args"
    and "ta_TM m = myhostport a" and "ta_Vote m = T_COMMIT \<or> ta_Vote m = T_ABORT"
    and "ta_Vote m = T_COMMIT \<Longrightarrow> promised a' (ta_TranID args)"
proof -
  from initTrans_result [OF assms(2), of a dial] obtain ds where
    "initTrans dial a r =
       (let s1 = a\<lparr>lockBuf := add_locks ds (lockBuf a)\<rparr>;
            d = (if ds = strings_Split (ta_FlightID args) '':'' then T_COMMIT else T_ABORT);
            vote = (if own r
                    then [CallTM (ta_TM args)
                           \<lparr>ta_TranType = TRANS_RESPONSE, ta_TranID = ta_TranID args,
                            ta_FlightID = ta_FlightID args, ta_Amount = 0, ta_PptList = [],
                            ta_Vote = d, ta_TM = myhostport a\<rparr>]
                    else []) in
        if \<not> dial (ta_TM args) then Some (s1, [])
        else if d = T_COMMIT
        then Some (s1\<lparr>logBuf := (logBuf a)(ta_TranID args \<mapsto> map (log_entry args a) ds)\<rparr>,
                   vote @ [Timer (ta_TranID args)])
        else Some (s1, vote))" by metis
  with assms(1,3) have "ta_TranType m = TRANS_RESPONSE \<and> ta_TranID m = ta_TranID args \<and>
      ta_TM m = myhostport a \<and> (ta_Vote m = T_COMMIT \<or> ta_Vote m = T_ABORT) \<and>
      (ta_Vote m = T_COMMIT \<longrightarrow> promised a' (ta_TranID args))"
    by (auto simp: Let_def promised_def split: if_splits)
  then show "ta_TranType m = TRANS_RESPONSE" "ta_TranID m = ta_TranID args" "ta_TM m = myhostport a"
    "ta_Vote m = T_COMMIT \<or> ta_Vote m = T_ABORT"
    "ta_Vote m = T_COMMIT \<Longrightarrow> promised a' (ta_TranID args)" by simp_all
qed

subsection \<open>The invariant\<close>

text \<open>Who has promised to commit, as far as the manager and the votes on their way say.\<close>

definition commits :: "booking_net \<Rightarrow> string \<Rightarrow> string \<Rightarrow> bool" where
  "commits s t h \<longleftrightarrow>
     (\<exists>m \<in> set (to_tm s). ta_TranID m = t \<and> ta_TM m = h \<and> ta_Vote m = T_COMMIT) \<or>
     (\<exists>a. activeTransMap (tm s) t = Some a \<and> gget (at_commitGrp a) h = Some T_COMMIT) \<or>
     (tl_oldLog (tm s) t = Some T_COMMIT \<and> (\<exists>P. parts s t = Some P \<and> h \<in> P))"

definition call_fits :: "TranLayer \<Rightarrow> TranArgs \<Rightarrow> bool" where
  "call_fits ly m \<longleftrightarrow> ta_TranType m = TRANS_INIT \<or>
     ta_TranType m = TRANS_RESPONSE \<and> tl_oldLog ly (ta_TranID m) = Some (ta_Vote m)"

definition answer_fits :: "TranLayer \<Rightarrow> nat \<Rightarrow> bool \<Rightarrow> bool" where
  "answer_fits ly c b \<longleftrightarrow>
     (\<exists>t d. deferTransMap ly t = Some c \<and> tl_oldLog ly t = Some d \<and> b = (d = T_COMMIT))"

definition airs_inv :: "booking_net \<Rightarrow> bool" where
  "airs_inv s \<longleftrightarrow>
     (\<forall>h a. airs s h = Some a \<longrightarrow> air_inv a \<and> myhostport a = h \<and>
        (\<forall>t d. oldLog a t = Some d \<longrightarrow> tl_oldLog (tm s) t = Some d))"

definition tm_inv :: "booking_net \<Rightarrow> bool" where
  "tm_inv s \<longleftrightarrow> tl_inv (tm s) \<and>
     (\<forall>t a. activeTransMap (tm s) t = Some a \<longrightarrow> parts s t = Some (set (gkeys (at_commitGrp a)))) \<and>
     (\<forall>t d. tl_oldLog (tm s) t = Some d \<longrightarrow> d \<in> {T_COMMIT, T_ABORT} \<and> parts s t \<noteq> None)"

definition mail_inv :: "booking_net \<Rightarrow> bool" where
  "mail_inv s \<longleftrightarrow>
     (\<forall>m \<in> set (to_tm s). ta_TranType m = TRANS_RESPONSE \<and> ta_Vote m \<in> {T_COMMIT, T_ABORT}) \<and>
     (\<forall>(h, m) \<in> set (to_air s). call_fits (tm s) m) \<and>
     (\<forall>(c, b) \<in> set (told s). answer_fits (tm s) c b)"

definition promise_inv :: "booking_net \<Rightarrow> bool" where
  "promise_inv s \<longleftrightarrow> (\<forall>t h. commits s t h \<longrightarrow> (\<exists>a. airs s h = Some a \<and> promised a t))"

definition two_phase_inv :: "booking_net \<Rightarrow> bool" where
  "two_phase_inv s \<longleftrightarrow> airs_inv s \<and> tm_inv s \<and> mail_inv s \<and> promise_inv s"


subsection \<open>The invariant is kept\<close>

lemma two_phase_invI:
  "airs_inv s \<Longrightarrow> tm_inv s \<Longrightarrow> mail_inv s \<Longrightarrow> promise_inv s \<Longrightarrow> two_phase_inv s"
  by (simp add: two_phase_inv_def)

lemma two_phase_invD:
  assumes "two_phase_inv s"
  shows "airs_inv s" "tm_inv s" "mail_inv s" "promise_inv s"
  using assms by (simp_all add: two_phase_inv_def)

lemma two_phase_air:
  assumes "two_phase_inv s" and "airs s h = Some a"
  shows "air_inv a" "myhostport a = h" "oldLog a t = Some d \<Longrightarrow> tl_oldLog (tm s) t = Some d"
  using assms by (auto simp: two_phase_inv_def airs_inv_def)

lemma two_phase_tl: "two_phase_inv s \<Longrightarrow> tl_inv (tm s)"
  by (simp add: two_phase_inv_def tm_inv_def)

lemma two_phase_mail:
  assumes "two_phase_inv s"
  shows "m \<in> set (to_tm s) \<Longrightarrow> ta_TranType m = TRANS_RESPONSE"
    and "m \<in> set (to_tm s) \<Longrightarrow> ta_Vote m = T_COMMIT \<or> ta_Vote m = T_ABORT"
    and "(h, m) \<in> set (to_air s) \<Longrightarrow> call_fits (tm s) m"
  using assms by (auto simp: two_phase_inv_def mail_inv_def)

lemma two_phase_promise:
  "two_phase_inv s \<Longrightarrow> commits s t h \<Longrightarrow> \<exists>a. airs s h = Some a \<and> promised a t"
  by (simp add: two_phase_inv_def promise_inv_def)

text \<open>Losing messages keeps it.\<close>

lemma two_phase_shrink:
  assumes inv: "two_phase_inv s" and sub: "set ms \<subseteq> set (to_tm s)" "set cs \<subseteq> set (to_air s)"
  shows "two_phase_inv (s\<lparr>to_tm := ms, to_air := cs\<rparr>)"
proof -
  have "commits s t h" if "commits (s\<lparr>to_tm := ms, to_air := cs\<rparr>) t h" for t h
    using that sub(1) by (auto simp: commits_def)
  with two_phase_promise [OF inv] have "promise_inv (s\<lparr>to_tm := ms, to_air := cs\<rparr>)"
    by (auto simp: promise_inv_def)
  then show ?thesis using two_phase_invD [OF inv] sub
    by (intro two_phase_invI) (auto simp: airs_inv_def tm_inv_def mail_inv_def)
qed

text \<open>The manager: nothing new, a vote counted, or a decision.\<close>

abbreviation tm_to :: "booking_net \<Rightarrow> TranLayer \<Rightarrow> tl_effect list \<Rightarrow> booking_net" where
  "tm_to s ly es \<equiv> s\<lparr>tm := ly, to_air := to_air s @ calls_of es, told := told s @ answers_of es\<rparr>"

lemma two_phase_same_tm:
  assumes inv: "two_phase_inv s" and same: "same_tm (tm s) ly" "tl_inv ly" and "answers_of es = []"
    and calls: "\<And>c m. (c, m) \<in> set (calls_of es) \<Longrightarrow> ta_TranType m = TRANS_INIT \<or>
       ta_TranType m = TRANS_RESPONSE \<and> tl_oldLog (tm s) (ta_TranID m) = Some (ta_Vote m)"
  shows "two_phase_inv (tm_to s ly es)"
proof -
  have "call_fits (tm s) m" if "(c, m) \<in> set (calls_of es)" for c m
    using calls [OF that] by (auto simp: call_fits_def)
  moreover have "commits (tm_to s ly es) t h = commits s t h" for t h
    using same(1) by (simp add: commits_def same_tm_def)
  ultimately show ?thesis using two_phase_invD [OF inv] same assms(4)
    by (intro two_phase_invI)
       (auto simp: airs_inv_def tm_inv_def mail_inv_def promise_inv_def same_tm_def call_fits_def
         answer_fits_def)
qed

lemma gkeys_vote [simp]:
  "gget (at_commitGrp a) p = Some w \<Longrightarrow> fst ` set (at_commitGrp (vote_active a p v)) = fst ` set (at_commitGrp a)"
proof -
  assume "gget (at_commitGrp a) p = Some w"
  then have "p \<in> fst ` set (at_commitGrp a)" by (metis image_eqI fst_conv map_of_SomeD)
  then show ?thesis by (simp add: vote_active_def insert_absorb)
qed

lemma gget_vote [simp]:
  "gget (at_commitGrp (vote_active a p v)) h = (if h = p then Some v else gget (at_commitGrp a) h)"
  by (simp add: vote_active_def)

lemma two_phase_counted:
  assumes inv: "two_phase_inv s" and act: "activeTransMap (tm s) (ta_TranID m) = Some a"
    and nd: "gget (at_commitGrp a) (ta_TM m) = Some NOT_DECIDED" and m: "m \<in> set (to_tm s)"
    and ly: "ly = (tm s)\<lparr>activeTransMap := (activeTransMap (tm s))(ta_TranID m \<mapsto> vote_active a (ta_TM m) (ta_Vote m))\<rparr>"
    and tl: "tl_inv ly"
  shows "two_phase_inv (tm_to s ly [])"
proof -
  have "commits s t h" if "commits (tm_to s ly []) t h" for t h
    using that act m by (auto simp: commits_def ly split: if_splits)
  with two_phase_promise [OF inv] have "promise_inv (tm_to s ly [])"
    by (auto simp: promise_inv_def)
  moreover have "tm_inv (tm_to s ly [])"
    using two_phase_invD(2) [OF inv] act nd tl by (auto simp: tm_inv_def ly)
  ultimately show ?thesis using two_phase_invD [OF inv]
    by (intro two_phase_invI) (auto simp: airs_inv_def mail_inv_def call_fits_def answer_fits_def ly)
qed

text \<open>A decision: for commit every participant has voted commit, so it has promised.\<close>

lemma two_phase_decided:
  assumes inv: "two_phase_inv s" and act: "activeTransMap (tm s) (ta_TranID m) = Some a"
    and nd: "gget (at_commitGrp a) (ta_TM m) = Some NOT_DECIDED" and m: "m \<in> set (to_tm s)"
    and a1: "a1 = vote_active a (ta_TM m) (ta_Vote m)" and dec: "deciding a1"
    and c: "deferTransMap (tm s) (ta_TranID m) = Some c"
    and ly: "ly = (tm s)\<lparr>activeTransMap := (activeTransMap (tm s))(ta_TranID m := None),
       tl_oldLog := (tl_oldLog (tm s))(ta_TranID m \<mapsto> at_decision a1),
       answered := insert c (answered (tm s))\<rparr>"
    and tl: "tl_inv ly" and ans: "answers_of es = [(c, at_decision a1 = T_COMMIT)]"
    and calls: "\<And>d k. (d, k) \<in> set (calls_of es) \<Longrightarrow> ta_TranType k = TRANS_RESPONSE \<and>
       ta_TranID k = ta_TranID m \<and> ta_Vote k = at_decision a1"
  shows "two_phase_inv (tm_to s ly es)"
proof -
  let ?t = "ta_TranID m" and ?s' = "tm_to s ly es"
  have tli: "active_ok a" "tl_oldLog (tm s) ?t = None"
    using two_phase_tl [OF inv] act by (auto simp: tl_inv_def)
  have parts: "parts s ?t = Some (set (gkeys (at_commitGrp a)))"
    using two_phase_invD(2) [OF inv] act by (simp add: tm_inv_def)
  have ok1: "active_ok a1" unfolding a1
    by (rule active_ok_vote [OF tli(1) nd two_phase_mail(2) [OF inv m]])
  from dec have fin: "\<not> at_finished (vote_active a (ta_TM m) (ta_Vote m)) <
      int (length (at_commitGrp (vote_active a (ta_TM m) (ta_Vote m))))"
    by (simp add: deciding_def a1)
  note complete = vote_active_complete [OF ok1 [unfolded a1] fin, folded a1]
  have old: "commits s ?t h" if cm: "at_decision a1 = T_COMMIT" and h: "h \<in> set (gkeys (at_commitGrp a))" for h
  proof -
    note all = complete(1) [THEN iffD1, OF cm]
    show ?thesis
  proof (cases "h = ta_TM m")
    case True
    have "(h, ta_Vote m) \<in> set (at_commitGrp a1)"
      using map_of_SomeD [of "at_commitGrp a1" h "ta_Vote m"] True by (simp add: a1)
    then have "ta_Vote m \<in> snd ` set (at_commitGrp a1)" by (metis image_eqI snd_conv)
    with all have "ta_Vote m = T_COMMIT" by blast
    with True m show ?thesis by (auto simp: commits_def)
  next
    case False
    from h obtain w where w: "gget (at_commitGrp a) h = Some w" by (metis gget_None_iff option.exhaust)
    with False have "gget (at_commitGrp a1) h = Some w" by (simp add: a1)
    then have "(h, w) \<in> set (at_commitGrp a1)" by (rule map_of_SomeD)
    then have "w \<in> snd ` set (at_commitGrp a1)" by (metis image_eqI snd_conv)
    with all have "w = T_COMMIT" by blast
    with w act show ?thesis by (auto simp: commits_def)
  qed
  qed
  have "commits s t h" if "commits ?s' t h" for t h
    using that old parts by (cases "t = ?t") (auto simp: commits_def ly)
  with two_phase_promise [OF inv] have "promise_inv ?s'" by (auto simp: promise_inv_def)
  moreover have "airs_inv ?s'"
    unfolding airs_inv_def
  proof (intro allI impI conjI)
    fix h b t d assume b: "airs ?s' h = Some b"
    then have b: "airs s h = Some b" by simp
    show "air_inv b" "myhostport b = h" using two_phase_air [OF inv b] by simp_all
    assume "oldLog b t = Some d"
    from two_phase_air(3) [OF inv b this] tli(2) show "tl_oldLog (tm ?s') t = Some d" by (auto simp: ly)
  qed
  moreover have "tm_inv ?s'"
    using two_phase_invD(2) [OF inv] complete(2) parts tl by (auto simp: tm_inv_def ly)
  moreover have "mail_inv ?s'"
  proof -
    have "call_fits ly k" if "call_fits (tm s) k" for k
      using that tli(2) by (auto simp: call_fits_def ly)
    moreover have "call_fits ly k" if "(d, k) \<in> set (calls_of es)" for d k
      using calls [OF that] by (simp add: call_fits_def ly)
    moreover have "answer_fits ly k b" if "answer_fits (tm s) k b" for k b
    proof -
      from that obtain t d where "deferTransMap (tm s) t = Some k" "tl_oldLog (tm s) t = Some d" "b = (d = T_COMMIT)"
        by (auto simp: answer_fits_def)
      with tli(2) show ?thesis unfolding answer_fits_def by (intro exI [of _ t] exI [of _ d]) (auto simp: ly)
    qed
    moreover have "answer_fits ly c (at_decision a1 = T_COMMIT)"
      unfolding answer_fits_def using c by (intro exI [of _ ?t]) (simp add: ly)
    ultimately show ?thesis
      using two_phase_invD(3) [OF inv] ans unfolding mail_inv_def by auto
  qed
  ultimately show ?thesis by (intro two_phase_invI)
qed

text \<open>The three together: a round of the manager that does not start or expire a booking.\<close>

lemma two_phase_tm:
  assumes inv: "two_phase_inv s" and h: "requestHandler dial (tm s) req = Some (ly, es)"
    and req: "req = None \<or> (\<exists>m \<in> set (to_tm s). TransResponse_request m c0 = req) \<or>
      (\<exists>t. req = Some (mk_tl_request TL_TRANS_EXPIRED t NilV None) \<and> activeTransMap (tm s) t = None)"
  shows "two_phase_inv (tm_to s ly es)"
proof -
  have mail: "\<exists>m \<in> set (to_tm s). r = mk_tl_request TL_TRANS_RESPONSE '''' (ArgsV m) None"
    if "req = Some r" "tr_type r \<noteq> TL_TRANS_EXPIRED" for r
    using req that two_phase_mail(1) [OF inv] by (auto simp: TransResponse_request_def)
  have args: "\<exists>m \<in> set (to_tm s). args = m \<and> r = mk_tl_request TL_TRANS_RESPONSE '''' (ArgsV m) None"
    if "req = Some r" "tr_value r = ArgsV args" for r args
    using req that two_phase_mail(1) [OF inv] by (auto simp: TransResponse_request_def)
  have fit: "request_fits (tm s) r" if "req = Some r" for r
  proof -
    have "tr_type r \<noteq> TL_INIT_TRANS"
      using req that two_phase_mail(1) [OF inv] by (auto simp: TransResponse_request_def)
    moreover have "ta_Vote ar = T_COMMIT \<or> ta_Vote ar = T_ABORT" if "tr_value r = ArgsV ar" for ar
      using args [OF \<open>req = Some r\<close> that] two_phase_mail(2) [OF inv] by blast
    ultimately show ?thesis by (simp add: request_fits_def)
  qed
  have tl: "tl_inv ly" using requestHandler_inv [OF h two_phase_tl [OF inv] fit] .
  have votes: "\<forall>r ar. req = Some r \<longrightarrow> tr_value r = ArgsV ar \<longrightarrow>
      ta_Vote ar = T_COMMIT \<or> ta_Vote ar = T_ABORT"
    using args two_phase_mail(2) [OF inv] by blast
  from h two_phase_tl [OF inv] votes show ?thesis
  proof (cases rule: requestHandler_cases)
    case quiet
    with two_phase_same_tm [OF inv quiet(1) tl quiet(2)] show ?thesis by blast
  next
    case (booked r orders c)
    with mail [OF booked(1)] show ?thesis by auto
  next
    case (counted r ar a)
    with args [OF counted(1,2)] have "ar \<in> set (to_tm s)" by blast
    with two_phase_counted [OF inv counted(4,5) _ counted(7) tl] counted(6) show ?thesis by simp
  next
    case (decided r ar a c)
    with args [OF decided(1,2)] have "ar \<in> set (to_tm s)" by blast
    from two_phase_decided [OF inv decided(4,5) this refl decided(6,7,8) tl decided(9)] decided(10)
    show ?thesis by blast
  next
    case (expired r a)
    with req two_phase_mail(1) [OF inv] show ?thesis by (auto simp: TransResponse_request_def)
  qed
qed

text \<open>A new booking.\<close>

lemma two_phase_book:
  assumes inv: "two_phase_inv s" and new: "parts s t = None" "tl_oldLog (tm s) t = None"
    and h: "requestHandler dial (tm s) (Some (mk_tl_request TL_INIT_TRANS t (OrdersV orders) (Some c))) = Some (ly, es)"
    and free: "oldTransactionMap (tm s) = []"
  shows "two_phase_inv (tm_to (s\<lparr>parts := (parts s)(t \<mapsto> to_pptID ` set orders)\<rparr>) ly es)"
    (is "two_phase_inv ?s'")
proof -
  have tli: "tl_inv ly" using h two_phase_tl [OF inv]
    by (rule requestHandler_inv) (use new in \<open>simp add: request_fits_def\<close>)
  from h free have "tl_initTrans (tm s) (mk_tl_request TL_INIT_TRANS t (OrdersV orders) (Some c)) = Some (ly, es)"
    by (simp add: requestHandler_def tl_transactionHandler_def)
  from tl_initTrans_result [OF this] have ly: "es = []"
    "activeTransMap ly = (activeTransMap (tm s))(t \<mapsto> new_active orders)"
    "tl_oldLog ly = tl_oldLog (tm s)" "deferTransMap ly = (deferTransMap (tm s))(t \<mapsto> c)"
    by auto
  have nc: "gget (at_commitGrp (new_active orders)) k \<noteq> Some T_COMMIT" for k
  proof
    assume "gget (at_commitGrp (new_active orders)) k = Some T_COMMIT"
    then have "(k, T_COMMIT) \<in> set (new_group orders)" by (simp add: new_active_def map_of_SomeD)
    with new_group_ok(2) [of orders] show False by force
  qed
  have "commits s t' h" if "commits ?s' t' h" for t' h
    using that ly nc new by (auto simp: commits_def split: if_splits)
  with two_phase_promise [OF inv] have "promise_inv ?s'" by (auto simp: promise_inv_def)
  moreover have "tm_inv ?s'"
    using two_phase_invD(2) [OF inv] ly tli new new_group_ok(3) [of orders]
    by (auto simp: tm_inv_def new_active_def)
  moreover have "mail_inv ?s'"
  proof -
    have "answer_fits ly k b" if af: "answer_fits (tm s) k b" for k b
    proof -
      from af obtain t' d where a: "deferTransMap (tm s) t' = Some k" "tl_oldLog (tm s) t' = Some d"
        "b = (d = T_COMMIT)" by (auto simp: answer_fits_def)
      with new(2) have "t' \<noteq> t" by auto
      with a show ?thesis unfolding answer_fits_def by (intro exI [of _ t'] exI [of _ d]) (auto simp: ly)
    qed
    then show ?thesis using two_phase_invD(3) [OF inv] by (auto simp: mail_inv_def ly call_fits_def)
  qed
  moreover have "airs_inv ?s'" using two_phase_invD(1) [OF inv] by (simp add: airs_inv_def ly)
  ultimately show ?thesis by (intro two_phase_invI)
qed

text \<open>The airlines.\<close>

lemma votes_of_append [simp]: "votes_of h (es @ fs) = votes_of h es @ votes_of h fs"
  by (induction h es rule: votes_of.induct) auto

lemma two_phase_airline:
  assumes inv: "two_phase_inv s" and a: "airs s h = Some a"
    and st: "storeHandler dial poll a r = Some (a', es)"
    and old: "\<And>args. reqType r = REQ_TRANS_RESPONSE \<Longrightarrow> req_val r = VArgs args \<Longrightarrow>
      tl_oldLog (tm s) (ta_TranID args) = Some (ta_Vote args)"
  shows "two_phase_inv (s\<lparr>airs := (airs s)(h \<mapsto> a'), to_tm := to_tm s @ votes_of host es\<rparr>)"
    (is "two_phase_inv ?s'")
proof -
  have ai: "air_inv a" "myhostport a = h" using two_phase_air [OF inv a] by simp_all
  have votes: "ta_TranType m = TRANS_RESPONSE \<and> ta_TM m = h \<and> (ta_Vote m = T_COMMIT \<or> ta_Vote m = T_ABORT) \<and>
      (ta_Vote m = T_COMMIT \<longrightarrow> promised a' (ta_TranID m))" if m: "m \<in> set (votes_of host es)" for m
  proof -
    have it: "reqType r = INIT_TRANS" using storeHandler_votes_other [OF st] m by force
    with st have i: "initTrans dial a r = Some (a', es)"
      by (simp add: storeHandler_def transactionHandler_def)
    then obtain args where args: "req_val r = VArgs args"
      by (auto simp: initTrans_def split: req_value.splits)
    show ?thesis using initTrans_votes [OF i args m] ai(2) by auto
  qed
  have prom: "promised a t \<Longrightarrow> promised a' t" for t by (rule storeHandler_promised [OF st ai(1)])
  have "\<exists>b. airs ?s' k = Some b \<and> promised b t" if c: "commits ?s' t k" for t k
  proof -
    from c have "commits s t k \<or> (k = h \<and> promised a' t)"
      using votes by (auto simp: commits_def)
    then show ?thesis using two_phase_promise [OF inv, of t k] prom a by (auto split: if_splits)
  qed
  then have "promise_inv ?s'" by (simp add: promise_inv_def)
  moreover have "mail_inv ?s'" using two_phase_invD(3) [OF inv] votes by (auto simp: mail_inv_def)
  moreover have "tm_inv ?s'" using two_phase_invD(2) [OF inv] by (simp add: tm_inv_def)
  moreover have "airs_inv ?s'" unfolding airs_inv_def
  proof (intro allI impI conjI)
    fix k b t d assume b: "airs ?s' k = Some b"
    show "air_inv b" "myhostport b = k"
      using b ai two_phase_air [OF inv, of k b] storeHandler_inv [OF st ai(1)] storeHandler_host [OF st ai(1)]
      by (auto split: if_splits)
    assume d: "oldLog b t = Some d"
    show "tl_oldLog (tm ?s') t = Some d"
    proof (cases "k = h")
      case True
      with b d have "oldLog a' t = Some d" by simp
      from storeHandler_oldLog [OF st ai(1) this] show ?thesis
        using two_phase_air(3) [OF inv a] old by auto
    next
      case False
      with b d two_phase_air(3) [OF inv] show ?thesis by simp
    qed
  qed
  ultimately show ?thesis by (intro two_phase_invI)
qed

text \<open>Every step.\<close>

lemma set_list_without: "set (list_without i xs) \<subseteq> set xs"
  unfolding list_without_def by (auto dest: in_set_takeD in_set_dropD)

lemma quiet_tm:
  assumes inv: "two_phase_inv s" and h: "requestHandler dial (tm s) req = Some (ly, es)"
    and req: "req = None \<or> (\<exists>m \<in> set (to_tm s). TransResponse_request m c0 = req) \<or>
      (\<exists>t. req = Some (mk_tl_request TL_TRANS_EXPIRED t NilV None) \<and> activeTransMap (tm s) t = None)"
    and t: "tm_done (s\<lparr>to_tm := ms\<rparr>) (Some (ly, es)) = Some s'" and sub: "set ms \<subseteq> set (to_tm s)"
  shows "two_phase_inv s'"
proof -
  let ?x = "tm_to s ly es"
  have "s' = ?x\<lparr>to_tm := ms, to_air := to_air ?x\<rparr>"
    using t by (auto simp: tm_done_def intro!: booking_net.equality)
  moreover have "two_phase_inv (?x\<lparr>to_tm := ms, to_air := to_air ?x\<rparr>)"
    by (rule two_phase_shrink [OF two_phase_tm [OF inv h req]]) (use sub in simp_all)
  ultimately show ?thesis by simp
qed

lemma quiet_air:
  assumes inv: "two_phase_inv s" and a: "airs s h = Some a"
    and st: "storeHandler dial poll a r = Some (a', es)"
    and old: "\<And>args. reqType r = REQ_TRANS_RESPONSE \<Longrightarrow> req_val r = VArgs args \<Longrightarrow>
      tl_oldLog (tm s) (ta_TranID args) = Some (ta_Vote args)"
    and t: "air_done (s\<lparr>to_air := cs\<rparr>) h (Some (a', es)) = Some s'" and sub: "set cs \<subseteq> set (to_air s)"
  shows "two_phase_inv s'"
proof -
  let ?x = "s\<lparr>airs := (airs s)(h \<mapsto> a'), to_tm := to_tm s @ votes_of (tl_myhostport (tm s)) es\<rparr>"
  have "s' = ?x\<lparr>to_tm := to_tm ?x, to_air := cs\<rparr>"
    using t by (auto simp: air_done_def intro!: booking_net.equality)
  moreover have "two_phase_inv (?x\<lparr>to_tm := to_tm ?x, to_air := cs\<rparr>)"
    by (rule two_phase_shrink [OF two_phase_airline [OF inv a st old]]) (use sub in simp_all)
  ultimately show ?thesis by simp
qed

lemma quiet_step_inv:
  assumes inv: "two_phase_inv s" and st: "quiet_step s e = Some s'"
  shows "two_phase_inv s'"
proof (cases e)
  case (Book t orders c)
  with st obtain ly es where h:
    "requestHandler (\<lambda>_. True) (tm s) (Some (mk_tl_request TL_INIT_TRANS t (OrdersV orders) (Some c))) = Some (ly, es)"
    and new: "parts s t = None" "tl_oldLog (tm s) t = None" "oldTransactionMap (tm s) = []"
    and s': "s' = tm_to (s\<lparr>parts := (parts s)(t \<mapsto> to_pptID ` set orders)\<rparr>) ly es"
    by (auto simp: quiet_step_def tm_done_def split: if_splits)
  from two_phase_book [OF inv new(1,2) h new(3)] s' show ?thesis by simp
next
  case SendOrder
  with st obtain ly es where h: "requestHandler (\<lambda>_. True) (tm s) None = Some (ly, es)"
    and s': "tm_done (s\<lparr>to_tm := to_tm s\<rparr>) (Some (ly, es)) = Some s'"
    by (auto simp: quiet_step_def tm_done_def split: if_splits)
  from quiet_tm [OF inv h _ s'] show ?thesis by simp
next
  case (VoteArrives i dial)
  with st obtain r ly es where i: "i < length (to_tm s)" "TransResponse_request (to_tm s ! i) 0 = Some r"
    and h: "requestHandler (\<lambda>_. dial) (tm s) (Some r) = Some (ly, es)"
    and s': "tm_done (s\<lparr>to_tm := list_without i (to_tm s)\<rparr>) (Some (ly, es)) = Some s'"
    by (auto simp: quiet_step_def tm_done_def split: if_splits option.splits)
  have "\<exists>m \<in> set (to_tm s). TransResponse_request m 0 = Some r" using i by auto
  with quiet_tm [OF inv h _ s' set_list_without] show ?thesis by blast
next
  case (CallArrives i dial)
  obtain h m where hm: "to_air s ! i = (h, m)" by fastforce
  with st CallArrives obtain a where i: "i < length (to_air s)" and a: "airs s h = Some a"
    and s: "air_done (s\<lparr>to_air := list_without i (to_air s)\<rparr>) h
      (PaxosTransaction (\<lambda>_. dial) (\<lambda>_. NoConn) a m None True) = Some s'"
    by (auto simp: quiet_step_def split: if_splits option.splits)
  from s obtain a' es where p: "PaxosTransaction (\<lambda>_. dial) (\<lambda>_. NoConn) a m None True = Some (a', es)"
    and s': "air_done (s\<lparr>to_air := list_without i (to_air s)\<rparr>) h (Some (a', es)) = Some s'"
    by (auto simp: air_done_def)
  have "call_fits (tm s) m" using two_phase_mail(3) [OF inv, of h m] i hm nth_mem by metis
  then consider "storeHandler (\<lambda>_. dial) (\<lambda>_. NoConn) a (mk_request INIT_TRANS '''' (VArgs m) None True) = Some (a', es)"
    | "storeHandler (\<lambda>_. dial) (\<lambda>_. NoConn) a (mk_request REQ_TRANS_RESPONSE '''' (VArgs m) None True) = Some (a', es)"
      "tl_oldLog (tm s) (ta_TranID m) = Some (ta_Vote m)"
    using p by (auto simp: call_fits_def PaxosTransaction_def)
  then show ?thesis
  proof cases
    case 1
    from quiet_air [OF inv a 1 _ s' set_list_without] show ?thesis by simp
  next
    case 2
    from quiet_air [OF inv a 2(1) _ s' set_list_without] 2(2) show ?thesis by simp
  qed
next
  case (VoteLost i)
  with st have "s' = s\<lparr>to_tm := list_without i (to_tm s), to_air := to_air s\<rparr>"
    by (auto simp: quiet_step_def split: if_splits)
  then show ?thesis using two_phase_shrink [OF inv set_list_without [of i] subset_refl] by simp
next
  case (CallLost i)
  with st have "s' = s\<lparr>to_tm := to_tm s, to_air := list_without i (to_air s)\<rparr>"
    by (auto simp: quiet_step_def split: if_splits)
  then show ?thesis using two_phase_shrink [OF inv subset_refl set_list_without [of i]] by simp
next
  case (LocalRequest h r)
  with st obtain a a' es where a: "airs s h = Some a" and t: "reqType r \<noteq> REQ_TRANS_RESPONSE"
    and h: "storeHandler (\<lambda>_. True) (\<lambda>_. NoConn) a r = Some (a', es)"
    and s': "air_done (s\<lparr>to_air := to_air s\<rparr>) h (Some (a', es)) = Some s'"
    by (auto simp: quiet_step_def air_done_def split: if_splits option.splits)
  from quiet_air [OF inv a h _ s'] t show ?thesis by simp
next
  case (Expire t)
  with st obtain ly es where none: "activeTransMap (tm s) t = None"
    and h: "requestHandler (\<lambda>_. True) (tm s) (Some (mk_tl_request TL_TRANS_EXPIRED t NilV None)) = Some (ly, es)"
    and s': "tm_done (s\<lparr>to_tm := to_tm s\<rparr>) (Some (ly, es)) = Some s'"
    by (auto simp: quiet_step_def tm_done_def split: if_splits)
  from quiet_tm [OF inv h _ s'] none show ?thesis by blast
qed

text \<open>The start: airlines with flights but no decision yet.\<close>

definition booking_start :: "booking_net \<Rightarrow> bool" where
  "booking_start s \<longleftrightarrow>
     (\<exists>host as. s = init_booking host as \<and>
        (\<forall>h a. as h = Some a \<longrightarrow> air_inv a \<and> myhostport a = h \<and> oldLog a = Map.empty))"

lemma booking_start_inv: "booking_start s \<Longrightarrow> two_phase_inv s"
  by (auto simp: booking_start_def two_phase_inv_def airs_inv_def tm_inv_def mail_inv_def
      promise_inv_def commits_def init_booking_def NewTranLayer_def tl_inv_def)

interpretation tpc: invariant_machine booking_start quiet_step two_phase_inv
  by unfold_locales (blast intro: booking_start_inv quiet_step_inv)+

end
