(* ===== verification/Booking.thy ===== *)
theory Booking
  imports Two_Phase Airline_Properties
begin

section \<open>Properties of a booking\<close>

text \<open>
  The properties of two-phase commit as the code does it: atomicity and truthful answers as
  long as no booking expires undecided, a booking that succeeds end to end, and the runs in
  which the expiry timer or an empty booking break it.
\<close>

subsection \<open>Example bookings\<close>

text \<open>An airline with one flight; its address is also its name.\<close>

definition one_flight :: "string \<Rightarrow> string \<Rightarrow> int \<Rightarrow> AirlineServer" where
  "one_flight h f n = (NewAirlineServer h h)\<lparr>flightBuf := Map.empty(f \<mapsto> flight f n)\<rparr>"

definition seat_order :: "string \<Rightarrow> string \<Rightarrow> int \<Rightarrow> tranOrder" where
  "seat_order h f n = \<lparr>to_flightID = f, to_pptID = h, to_amount = n, to_conn = h\<rparr>"

definition two_airlines :: booking_net where
  "two_airlines = init_booking ''tm''
     (Map.empty(''A'' \<mapsto> one_flight ''A'' ''A-1'' 1, ''B'' \<mapsto> one_flight ''B'' ''B-1'' 1))"

text \<open>Both airlines are asked for one seat, both vote, both get the decision.\<close>

definition joint_booking :: "booking_event list" where
  "joint_booking =
     [Book ''t'' [seat_order ''A'' ''A-1'' 1, seat_order ''B'' ''B-1'' 1] 7, SendOrder, SendOrder,
      CallArrives 0 True, CallArrives 0 True, VoteArrives 0 True, VoteArrives 0 True,
      CallArrives 0 True, CallArrives 0 True]"

definition decision_at :: "booking_net \<Rightarrow> string \<Rightarrow> string \<Rightarrow> int option" where
  "decision_at s h t = (case airs s h of None \<Rightarrow> None | Some a \<Rightarrow> oldLog a t)"

definition slots_at :: "booking_net \<Rightarrow> string \<Rightarrow> string \<Rightarrow> int" where
  "slots_at s h f = (case airs s h of None \<Rightarrow> 0 | Some a \<Rightarrow> slot_of a f)"

lemma joint_booking_result:
  "map_option (\<lambda>s. (told s, decision_at s ''A'' ''t'', decision_at s ''B'' ''t'', tl_oldLog (tm s) ''t'',
       slots_at s ''A'' ''A-1'', slots_at s ''B'' ''B-1''))
     (run quiet_step two_airlines joint_booking) =
   Some ([(7, True)], Some T_COMMIT, Some T_COMMIT, Some T_COMMIT, 0, 0)"
  by code_simp

text \<open>
  The second airline has no seat left. Airline \<open>A\<close> has voted when the timer fires: the
  manager sends its provisional decision.
\<close>

definition half_sold :: booking_net where
  "half_sold = init_booking ''tm''
     (Map.empty(''A'' \<mapsto> one_flight ''A'' ''A-1'' 1, ''B'' \<mapsto> one_flight ''B'' ''B-1'' 0))"

definition expiry_run :: "booking_event list" where
  "expiry_run =
     [Book ''t'' [seat_order ''A'' ''A-1'' 1, seat_order ''B'' ''B-1'' 1] 7, SendOrder, SendOrder,
      CallArrives 0 True, CallArrives 0 True, VoteArrives 0 True, Expire ''t'', CallArrives 0 True]"

lemma expiry_run_result:
  "map_option (\<lambda>s. (told s, decision_at s ''A'' ''t'', slots_at s ''A'' ''A-1'', slots_at s ''B'' ''B-1'',
       case airs s ''B'' of None \<Rightarrow> False | Some b \<Rightarrow> logBuf b ''t'' = None,
       tp_step s (VoteArrives 0 True) = None, length (to_tm s)))
     (run tp_step half_sold expiry_run) =
   Some ([(7, True)], Some T_COMMIT, 0, 0, True, True, 1)"
  by code_simp

subsection \<open>Properties\<close>

lemma init_booking_start:
  "(\<And>h a. as h = Some a \<Longrightarrow> air_inv a \<and> myhostport a = h \<and> oldLog a = Map.empty) \<Longrightarrow>
     booking_start (init_booking host as)"
  unfolding booking_start_def by blast

lemma air_inv_one_flight: "air_inv (one_flight h f n)"
  by (simp add: air_inv_def one_flight_def NewAirlineServer_def)

lemma two_airlines_start: "booking_start two_airlines"
  unfolding two_airlines_def
  by (rule init_booking_start)
     (auto simp: air_inv_one_flight split: if_splits, simp_all add: one_flight_def NewAirlineServer_def)

text \<open>C1: Two-phase commit is atomic while no undecided booking expires: when an airline has
  committed a booking, every participant of it has committed it too or still holds the
  promised seats in its log; none has aborted it.\<close>

theorem two_phase_atomic:
  assumes "booking_start s0" and "run quiet_step s0 es = Some s"
    and "airs s h = Some a" and "oldLog a t = Some T_COMMIT"
    and "parts s t = Some P" and "p \<in> P"
  shows "\<exists>b. airs s p = Some b \<and>
    (oldLog b t = Some T_COMMIT \<or> oldLog b t = None \<and> logBuf b t \<noteq> None)"
proof -
  have inv: "two_phase_inv s" by (rule tpc.inv_run [OF assms(1,2)])
  have tm: "tl_oldLog (tm s) t = Some T_COMMIT" by (rule two_phase_air(3) [OF inv assms(3,4)])
  with assms(5,6) have "commits s t p" by (auto simp: commits_def)
  from two_phase_promise [OF inv this] obtain b where b: "airs s p = Some b" "promised b t" by blast
  then have "oldLog b t = None \<or> oldLog b t = Some T_COMMIT"
    using two_phase_air(3) [OF inv b(1)] tm by (cases "oldLog b t") auto
  with b show ?thesis by (auto simp: promised_def)
qed

theorem two_phase_atomic_witness:
  "\<exists>s a b. run quiet_step two_airlines joint_booking = Some s \<and> airs s ''A'' = Some a \<and>
     oldLog a ''t'' = Some T_COMMIT \<and> airs s ''B'' = Some b \<and>
     (oldLog b ''t'' = Some T_COMMIT \<or> oldLog b ''t'' = None \<and> logBuf b ''t'' \<noteq> None)"
proof -
  obtain s where s: "run quiet_step two_airlines joint_booking = Some s" "decision_at s ''A'' ''t'' = Some T_COMMIT"
    using joint_booking_result by auto
  then obtain a where a: "airs s ''A'' = Some a" "oldLog a ''t'' = Some T_COMMIT"
    by (auto simp: decision_at_def split: option.splits)
  have "map_option (\<lambda>s. map_option (\<lambda>P. ''B'' \<in> P) (parts s ''t''))
      (run quiet_step two_airlines joint_booking) = Some (Some True)" by code_simp
  then obtain P where "parts s ''t'' = Some P" "''B'' \<in> P" using s(1) by auto
  from two_phase_atomic [OF two_airlines_start s(1) a this] s(1) a show ?thesis by blast
qed

text \<open>C16: While no undecided booking expires, the client is told the truth: an answer belongs to a
  booking that is decided; if it is yes every participant has committed or still holds the seats,
  if it is no then no airline has committed. Messages may be reordered and lost, other bookings
  may go on, and bookings that are decided may expire. \<open>expiry_breaks_atomicity\<close> shows
  that the condition is needed.\<close>

theorem client_told_truth:
  assumes "booking_start s0" and "run quiet_step s0 es = Some s" and "(c, b) \<in> set (told s)"
  shows "\<exists>t P. deferTransMap (tm s) t = Some c \<and> parts s t = Some P \<and>
    (if b then \<forall>p \<in> P. \<exists>a. airs s p = Some a \<and> (oldLog a t = Some T_COMMIT \<or> oldLog a t = None \<and> logBuf a t \<noteq> None)
     else \<forall>p a. airs s p = Some a \<longrightarrow> oldLog a t = Some T_ABORT \<or> oldLog a t = None)"
proof -
  have inv: "two_phase_inv s" by (rule tpc.inv_run [OF assms(1,2)])
  with assms(3) have "answer_fits (tm s) c b" by (auto simp: two_phase_inv_def mail_inv_def)
  then obtain t d where t: "deferTransMap (tm s) t = Some c" "tl_oldLog (tm s) t = Some d" "b = (d = T_COMMIT)"
    by (auto simp: answer_fits_def)
  with two_phase_invD(2) [OF inv] have "(d = T_COMMIT \<or> d = T_ABORT) \<and> parts s t \<noteq> None"
    unfolding tm_inv_def by blast
  then obtain P where P: "parts s t = Some P" "d = T_COMMIT \<or> d = T_ABORT" by blast
  have dec: "oldLog a t = Some d \<or> oldLog a t = None" if "airs s p = Some a" for p a
    using two_phase_air(3) [OF inv that, of t] t(2) by (cases "oldLog a t") auto
  have prom: "\<exists>a. airs s p = Some a \<and> (logBuf a t \<noteq> None \<or> oldLog a t \<noteq> None)" if "b" "p \<in> P" for p
  proof -
    from that t P have "commits s t p" by (auto simp: commits_def)
    from two_phase_promise [OF inv this] show ?thesis by (simp add: promised_def)
  qed
  have "if b then \<forall>p \<in> P. \<exists>a. airs s p = Some a \<and> (oldLog a t = Some T_COMMIT \<or> oldLog a t = None \<and> logBuf a t \<noteq> None)
     else \<forall>p a. airs s p = Some a \<longrightarrow> oldLog a t = Some T_ABORT \<or> oldLog a t = None"
    using prom dec t(3) P(2) by (cases b) (metis, metis)
  with t(1) P(1) show ?thesis by blast
qed

theorem client_told_truth_witness:
  "\<exists>s t. run quiet_step two_airlines joint_booking = Some s \<and> (7, True) \<in> set (told s) \<and>
     deferTransMap (tm s) t = Some 7"
proof -
  obtain s where s: "run quiet_step two_airlines joint_booking = Some s" "(7, True) \<in> set (told s)"
    using joint_booking_result by auto
  from client_told_truth [OF two_airlines_start s] s show ?thesis by blast
qed

text \<open>C20: The expiry timer breaks atomicity: in a run in which the timer of a booking fires after
  the first vote, airline A commits, the client is told that the booking succeeded although
  airline B has refused it, and the transaction manager blocks for ever on B's vote.\<close>

theorem expiry_breaks_atomicity:
  "\<exists>s a b. run tp_step half_sold expiry_run = Some s \<and> told s = [(7, True)] \<and>
     airs s ''A'' = Some a \<and> oldLog a ''t'' = Some T_COMMIT \<and>
     airs s ''B'' = Some b \<and> oldLog b ''t'' = None \<and> logBuf b ''t'' = None \<and>
     length (to_tm s) = 1 \<and> tp_step s (VoteArrives 0 True) = None"
proof -
  have "map_option (\<lambda>s. (told s, length (to_tm s), tp_step s (VoteArrives 0 True) = None,
       map_option (\<lambda>a. oldLog a ''t'') (airs s ''A''),
       map_option (\<lambda>b. (oldLog b ''t'', logBuf b ''t'' = None)) (airs s ''B'')))
     (run tp_step half_sold expiry_run) =
   Some ([(7, True)], 1, True, Some (Some T_COMMIT), Some (None, True))"
    by code_simp
  then show ?thesis by auto
qed

text \<open>A booking without flights is accepted and then stops the transaction manager: the next
  round takes the head of an empty list of orders.\<close>

theorem empty_booking_panics:
  assumes "oldTransactionMap ly = []"
  shows "\<exists>ly'. requestHandler dial ly (Some (mk_tl_request TL_INIT_TRANS t (OrdersV []) (Some c))) = Some (ly', []) \<and>
    requestHandler dial ly' req = None"
  using assms by (simp add: requestHandler_def tl_transactionHandler_def tl_initTrans_def send_order_def)

theorem empty_booking_panics_witness:
  "\<exists>r ly'. BookingFlights (\<lambda>_. None) ''t'' [] 7 = Some r \<and>
     requestHandler (\<lambda>_. True) (NewTranLayer ''tm'') (Some r) = Some (ly', []) \<and>
     requestHandler (\<lambda>_. True) ly' None = None"
  using empty_booking_panics [of "NewTranLayer ''tm''" "\<lambda>_. True" "''t''" 7 None]
  by (simp add: BookingFlights_def NewTranLayer_def)


definition single_booking :: "string \<Rightarrow> string \<Rightarrow> string \<Rightarrow> int \<Rightarrow> nat \<Rightarrow> booking_event list" where
  "single_booking t h f n c =
     [Book t [seat_order h f n] c, SendOrder, CallArrives 0 True, VoteArrives 0 True, CallArrives 0 True]"

text \<open>A booking succeeds: when an airline has an unlocked flight with enough free slots and
  the calls get through, the client is told yes, the airline has committed, the seats are
  taken and the flight is free for the next booking.\<close>

theorem booking_succeeds:
  assumes "as h = Some a" and "myhostport a = h"
    and "flightBuf a f = Some i" and "n \<le> fi_Slot i" and "lockBuf a f = None" and "CHR '':'' \<notin> set f"
  shows "\<exists>s b. run quiet_step (init_booking host as) (single_booking t h f n c) = Some s \<and>
    told s = [(c, True)] \<and> airs s h = Some b \<and> oldLog b t = Some T_COMMIT \<and>
    slot_of b f = go_int (fi_Slot i - n) \<and> lockBuf b f = None"
proof -
  have "strings_Split f '':'' = [f]" using assms(6) by (rule Split_char_whole)
  with assms show ?thesis
    by (simp add: single_booking_def quiet_step_def init_booking_def NewTranLayer_def seat_order_def
        requestHandler_def tl_transactionHandler_def tl_initTrans_def send_order_def tm_done_def air_done_def
        PaxosTransaction_def storeHandler_def transactionHandler_def initTrans_def getFlightInfo_def
        getFlightLock_def Let_def TransResponse_request_def tl_responseTrans_def final_calls_def
        answer_booking_def responseTrans_def list_without_def slot_of_def)
qed

theorem booking_succeeds_witness:
  "\<exists>s b. run quiet_step (init_booking ''tm'' (Map.empty(''A'' \<mapsto> one_flight ''A'' ''A-1'' 3)))
      (single_booking ''t'' ''A'' ''A-1'' 2 7) = Some s \<and>
    told s = [(7, True)] \<and> airs s ''A'' = Some b \<and> slot_of b ''A-1'' = 1"
  using booking_succeeds [of "Map.empty(''A'' \<mapsto> one_flight ''A'' ''A-1'' 3)" "''A''"
      "one_flight ''A'' ''A-1'' 3" "''A-1''" "flight ''A-1'' 3" 2 "''tm''" "''t''" 7]
  by (fastforce simp: one_flight_def NewAirlineServer_def flight_def go_int_def)

end
