(* ===== verification/Agency_Properties.thy ===== *)
theory Agency_Properties
  imports Agency_Spec Store_Properties Booking
begin

section \<open>Properties of the agency\<close>

text \<open>
  The agency server on its storage ring refines the directory of bookings, over every run; and
  the agency, its store, the transaction manager and the airlines together, in a run that
  shows what a cancellation may do.
\<close>

subsection \<open>Runs\<close>

definition ring_store :: "string \<Rightarrow> lease_net store_client" where
  "ring_store c = store_client_of (store_get c) (store_get_list c) (store_put c) (store_append c) (store_remove c)"

text \<open>An agency server that is client \<open>c\<close> of its ring, with any airlines.\<close>

definition agency_at :: "string \<Rightarrow> 'a airline_client \<Rightarrow> (lease_net, 'a) Tribserver" where
  "agency_at c la = \<lparr>lib_store = ring_store c, lib_airline = la, agencyid = ''agency'', ts_myhostport = c\<rparr>"

definition agency_run ::
  "('s, 'a) Tribserver \<Rightarrow> agency_event list \<Rightarrow> 's \<times> 'a \<Rightarrow> (agency_reply list \<times> 's \<times> 'a) option" where
  "agency_run ts es w = run_out (\<lambda>w e. agency_exec ts e w) w es"

definition directory_run ::
  "'a airline_client \<Rightarrow> agency_event list \<Rightarrow> (string \<rightharpoonup> string list) \<times> 'a \<Rightarrow>
     (agency_reply list \<times> (string \<rightharpoonup> string list) \<times> 'a) option" where
  "directory_run la es w = run_out (\<lambda>(d, a) e. spec_agency la e d a) w es"

interpretation ag: refining_machine "\<lambda>w e. agency_exec (agency_at c la) e w" "\<lambda>(d, a) e. spec_agency la e d a"
    "agency_inv (store_ok c) stored_at" "agency_abs stored_at"
  for c la
proof (unfold_locales, goal_cases)
  case (1 w e)
  then show ?case
    using ring.agency_exec_refines [of c "fst w" "agency_at c la" e "snd w"]
    by (simp add: agency_inv_def agency_abs_def agency_at_def ring_store_def)
qed

lemma agency_ok_empty: "(\<And>k. v k = None) \<Longrightarrow> agency_ok v"
  by (simp add: agency_ok_def user_ok_def)

lemma two_clients_agency: "agency_inv (store_ok ''c'') stored_at (two_clients, a)"
    "agency_abs stored_at (two_clients, a) = (Map.empty, a)"
proof -
  have e: "stored_at two_clients k = None" for k
    by (simp add: stored_at_def two_clients_def app_init_def abs_cache_def)
  show "agency_inv (store_ok ''c'') stored_at (two_clients, a)"
    using two_clients_ok(1) agency_ok_empty [of "stored_at two_clients", OF e] by (simp add: agency_inv_def)
  show "agency_abs stored_at (two_clients, a) = (Map.empty, a)"
    by (simp add: agency_abs_def abs_agency_def fun_eq_iff e list_at_def)
qed

subsection \<open>The agency with a transaction manager and airlines\<close>

text \<open>
  The bookings of theory Two\_Phase as the airlines of an agency: every airline has one replica,
  found under its name, and a booking runs to its end, messages in the order they were sent.
\<close>

definition find_airline :: "string \<Rightarrow> booking_net \<Rightarrow> (string option \<times> booking_net) option" where
  "find_airline name n = Some (if airs n name = None then None else Some name, n)"

text \<open>A remote call to an airline: the request, and the answer that it waits for.\<close>

definition at_airline ::
  "(AirlineServer \<Rightarrow> (AirlineServer \<times> air_effect list) option) \<Rightarrow> string \<Rightarrow> booking_net \<Rightarrow>
     reply_value option \<times> booking_net" where
  "at_airline operate conn n =
     (case airs n conn of
        None \<Rightarrow> (None, n)
      | Some a \<Rightarrow>
          (case operate a of
             Some (a1, [Send c v]) \<Rightarrow> (Some v, n\<lparr>airs := (airs n)(conn \<mapsto> a1)\<rparr>)
           | _ \<Rightarrow> (None, n)))"

definition ask_flight :: "string \<Rightarrow> string \<Rightarrow> booking_net \<Rightarrow> GetReply option \<times> booking_net" where
  "ask_flight conn fid n =
     (case at_airline (\<lambda>a. PaxosGetFlight (\<lambda>_. True) (\<lambda>_. NoConn) a fid (Some 0) True) conn n of (v, n1) \<Rightarrow>
        (Option.bind v GetFlight_reply, n1))"

definition ask_all :: "string \<Rightarrow> string \<Rightarrow> string \<Rightarrow> string \<Rightarrow> booking_net \<Rightarrow> GetAllReply option \<times> booking_net" where
  "ask_all x y d conn n =
     (case at_airline (\<lambda>a. PaxosGetAllFlightIDs (\<lambda>_. True) (\<lambda>_. NoConn) a x y d (Some 0) True) conn n of (v, n1) \<Rightarrow>
        (Option.bind v GetAllFlightIDs_reply, n1))"

definition ask_create :: "string \<Rightarrow> string \<Rightarrow> FlightInfo \<Rightarrow> booking_net \<Rightarrow> airline_status option \<times> booking_net" where
  "ask_create conn fid i n =
     (case at_airline (\<lambda>a. PaxosCreateFlight (\<lambda>_. True) (\<lambda>_. NoConn) a fid i (Some 0) True) conn n of (v, n1) \<Rightarrow>
        (Option.bind v CreateFlight_reply, n1))"

fun settle :: "nat \<Rightarrow> booking_net \<Rightarrow> booking_net option" where
  "settle 0 n = None"
| "settle (Suc k) n =
     (if oldTransactionMap (tm n) \<noteq> [] then (case quiet_step n SendOrder of None \<Rightarrow> None | Some n1 \<Rightarrow> settle k n1)
      else if to_air n \<noteq> [] then (case quiet_step n (CallArrives 0 True) of None \<Rightarrow> None | Some n1 \<Rightarrow> settle k n1)
      else if to_tm n \<noteq> [] then (case quiet_step n (VoteArrives 0 True) of None \<Rightarrow> None | Some n1 \<Rightarrow> settle k n1)
      else Some n)"

text \<open>A booking needs four rounds for each airline: the order, the call, the vote, the decision.\<close>

definition book_orders :: "Order list \<Rightarrow> booking_net \<Rightarrow> (bool \<times> booking_net) option" where
  "book_orders orders n =
     (let c = length (told n); tranID = CHR ''t'' # Itoa (int c) in
      case tran_orders (\<lambda>h. if airs n h = None then None else Some (h, h)) orders of
        None \<Rightarrow> Some (False, n)
      | Some os \<Rightarrow>
          (case quiet_step n (Book tranID os c) of
             None \<Rightarrow> None
           | Some n1 \<Rightarrow> map_option (\<lambda>n2. ((c, True) \<in> set (told n2), n2)) (settle (4 * length os + 1) n1)))"

definition booking_airlines :: "string list \<Rightarrow> booking_net airline_client" where
  "booking_airlines names =
     \<lparr>ac_all_flights = (\<lambda>x y d. GetAllFlights (\<lambda>n. Some (Some (map Some names), n)) (ask_all x y d)),
      ac_flight = la_GetFlight find_airline ask_flight,
      ac_create = la_CreateFlight find_airline ask_create,
      ac_book = MakeBooking book_orders\<rparr>"

definition agency :: "(lease_net, booking_net) Tribserver" where
  "agency = agency_at ''c'' (booking_airlines [''A'', ''B''])"

definition two_empty_airlines :: booking_net where
  "two_empty_airlines = init_booking ''tm''
     (Map.empty(''A'' \<mapsto> NewAirlineServer ''A'' ''A'', ''B'' \<mapsto> NewAirlineServer ''B'' ''B''))"

text \<open>Three flights of three seats; a user books two of them, and cancels one of them and the third.\<close>

definition setup_flights :: "agency_event list" where
  "setup_flights = [NewFlight (flight ''A-1'' 3), NewFlight (flight ''A-2'' 3), NewFlight (flight ''B-1'' 3), NewUser ''u'']"

definition cancel_too_much :: "agency_event list" where
  "cancel_too_much = setup_flights @
     [AddFlights ''u'' [''A-1'', ''B-1''], AddFlights ''u'' [''B-1'', ''A-2''], RemoveFlights ''u'' [''A-1'', ''A-2''],
      Bookings ''u'']"

definition slots_of :: "booking_net \<Rightarrow> (string \<times> string) list \<Rightarrow> int list" where
  "slots_of n fs = map (\<lambda>(h, f). slots_at n h f) fs"

lemma cancel_result:
  "map_option (\<lambda>(rs, d, n). (rs, d ''u'', slots_of n [(''A'', ''A-1''), (''A'', ''A-2''), (''B'', ''B-1'')]))
     (directory_run (booking_airlines [''A'', ''B'']) cancel_too_much (Map.empty, two_empty_airlines)) =
   Some ([Status T_OK, Status T_OK, Status T_OK, Status T_OK, Status T_OK, Status EEXISTS, Failed StoreError,
          Flights T_OK [(flight ''B-1'' 3)\<lparr>fi_Slot := 2\<rparr>]], Some [''B-1''], [3, 4, 2])"
  by code_simp

subsection \<open>Properties\<close>

text \<open>C3: The agency server refines the directory of bookings: over a storage ring that serves its
  client, every run of the operations of the server panics exactly when the specification does,
  and otherwise gives the specified replies, has the specified effect on the airlines and leaves
  the specified directory in the store.\<close>

theorem agency_refines:
  assumes "store_ok c s" and "agency_ok (stored_at s)"
  shows "case agency_run (agency_at c la) es (s, a) of
      None \<Rightarrow> directory_run la es (abs_agency (stored_at s), a) = None
    | Some (rs, s1, a1) \<Rightarrow> store_ok c s1 \<and> agency_ok (stored_at s1) \<and>
        directory_run la es (abs_agency (stored_at s), a) = Some (rs, abs_agency (stored_at s1), a1)"
  using ag.run_implements [of c "(s, a)" la es] assms
  by (auto simp: agency_run_def directory_run_def implements_def agency_inv_def agency_abs_def split: option.splits)

theorem agency_refines_witness:
  "\<exists>s1 a1. agency_run (agency_at ''c'' (booking_airlines [])) [NewUser ''u'', NewUser ''u'', Bookings ''w'']
       (two_clients, two_empty_airlines) =
     Some ([Status T_OK, Status EEXISTS, Flights ENOSUCHUSER []], s1, a1) \<and> abs_agency (stored_at s1) = [''u'' \<mapsto> []]"
  using agency_refines [of "''c''" two_clients "booking_airlines []" "[NewUser ''u'', NewUser ''u'', Bookings ''w'']"
      two_empty_airlines] two_clients_agency [of two_empty_airlines]
  by (auto simp: directory_run_def agency_inv_def agency_abs_def split: option.splits)

text \<open>C28: A cancellation gives back seats that were never booked: \<open>RemoveBooking\<close> asks that some
  flight of the list is booked, not all, so the airlines commit one seat back for every flight,
  a flight then has more free slots than its capacity, the user loses the bookings before the
  first that is missing, and the reply is an error.\<close>

theorem cancel_frees_unbooked:
  "\<exists>s n. agency_run agency cancel_too_much (two_clients, two_empty_airlines) =
     Some ([Status T_OK, Status T_OK, Status T_OK, Status T_OK, Status T_OK, Status EEXISTS, Failed StoreError,
            Flights T_OK [(flight ''B-1'' 3)\<lparr>fi_Slot := 2\<rparr>]], s, n) \<and>
     slots_at n ''A'' ''A-2'' = 4 \<and> slots_at n ''A'' ''A-1'' = 3 \<and> slots_at n ''B'' ''B-1'' = 2"
proof -
  obtain d n where "directory_run (booking_airlines [''A'', ''B'']) cancel_too_much (Map.empty, two_empty_airlines) =
      Some ([Status T_OK, Status T_OK, Status T_OK, Status T_OK, Status T_OK, Status EEXISTS, Failed StoreError,
            Flights T_OK [(flight ''B-1'' 3)\<lparr>fi_Slot := 2\<rparr>]], d, n)"
    "slots_of n [(''A'', ''A-1''), (''A'', ''A-2''), (''B'', ''B-1'')] = [3, 4, 2]"
    using cancel_result by auto
  with ag.run_some [OF two_clients_agency(1), of "booking_airlines [''A'', ''B'']" two_empty_airlines cancel_too_much,
      unfolded two_clients_agency(2)]
  show ?thesis
    by (auto simp: agency_def agency_run_def directory_run_def agency_abs_def slots_of_def)
qed

end
