(* ===== verification/Trib_Client.thy ===== *)
theory Trib_Client
  imports Agency_Spec
begin

section \<open>The command line client (official/tribclient, official/runclient)\<close>

text \<open>
  \<open>tribclient\<close> wraps each remote call of the agency server: a status and an error, where the
  status is 0 when there is an error, and 0 is \<open>OK\<close>. \<open>client_main\<close> is the command line
  program on top of it: what it prints for its arguments, a line per string. The server is
  the function \<open>call\<close> from operations to replies.
\<close>

subsection \<open>tribclient.go\<close>

datatype client_error = Remote trib_error | BadNumber

fun tc_status :: "agency_reply \<Rightarrow> trib_status \<times> client_error option" where
  "tc_status (Failed e) = (T_OK, Some (Remote e))"
| "tc_status (Status x) = (x, None)"
| "tc_status (Flights x fs) = (x, None)"

fun tc_flights :: "agency_reply \<Rightarrow> FlightInfo list \<times> trib_status \<times> client_error option" where
  "tc_flights (Failed e) = ([], T_OK, Some (Remote e))"
| "tc_flights (Status x) = ([], x, None)"
| "tc_flights (Flights x fs) = (fs, x, None)"

definition tc_CreateUser where
  "tc_CreateUser call u w = (case call (NewUser u) w of (r, w1) \<Rightarrow> (tc_status r, w1))"

definition tc_ViewFlights where
  "tc_ViewFlights call from to dep w = (case call (Search from to dep) w of (r, w1) \<Rightarrow> (tc_flights r, w1))"

definition tc_dobooking where
  "tc_dobooking call request w = (case call request w of (r, w1) \<Rightarrow> (tc_status r, w1))"

definition tc_AddBooking where
  "tc_AddBooking call u fids w = tc_dobooking call (AddFlights u fids) w"

definition tc_RemoveBooking where
  "tc_RemoveBooking call u fids w = tc_dobooking call (RemoveFlights u fids) w"

definition tc_GetBookings where
  "tc_GetBookings call u w = (case call (Bookings u) w of (r, w1) \<Rightarrow> (tc_flights r, w1))"

text \<open>
  The error of the first conversion is overwritten by that of the second; a number that is
  malformed is read as 0. (Numbers that do not fit are not modelled.)
\<close>

definition tc_AddFlight ::
  "(agency_event \<Rightarrow> 'w \<Rightarrow> agency_reply \<times> 'w) \<Rightarrow> string \<Rightarrow> string \<Rightarrow> string \<Rightarrow> string \<Rightarrow> string \<Rightarrow> string \<Rightarrow> string \<Rightarrow>
     'w \<Rightarrow> (trib_status \<times> client_error option) \<times> 'w" where
  "tc_AddFlight call airline num dep from to capacity cost w =
     (let capInt = (case Atoi capacity of None \<Rightarrow> 0 | Some i \<Rightarrow> i) in
      case Atoi cost of
        None \<Rightarrow> ((T_OK, Some BadNumber), w)
      | Some costInt \<Rightarrow>
          (case call (NewFlight \<lparr>fi_ID = GetNewFlightId airline num, fi_Departure = dep, fi_From = from, fi_To = to,
                       fi_Capacity = capInt, fi_Slot = capInt, fi_Cost = costInt\<rparr>) w of (r, w1) \<Rightarrow>
             (tc_status r, w1)))"

subsection \<open>client.go\<close>

fun TribStatusToString :: "trib_status \<Rightarrow> string" where
  "TribStatusToString T_OK = ''OK''"
| "TribStatusToString ENOSUCHUSER = ''No such user''"
| "TribStatusToString ENOSUCHFLIGHT = ''No such flight''"
| "TribStatusToString ENOSUCHAIRLINE = ''No such airline''"
| "TribStatusToString EEXISTS = ''Already exists''"
| "TribStatusToString EBOOKINGFAILED = ''Booking failed''"
| "TribStatusToString ENOAIRLINE = ''Airline doesn't exist''"
| "TribStatusToString ENOTBOOKED = ''Remove unbooked tickets''"

text \<open>The statuses can be enumerated, so that statements about all of them can be computed.\<close>

instantiation trib_status :: enum
begin

definition enum_trib_status :: "trib_status list" where
  "enum_trib_status =
     [T_OK, ENOSUCHUSER, ENOSUCHFLIGHT, ENOSUCHAIRLINE, EBOOKINGFAILED, EEXISTS, ENOAIRLINE, ENOTBOOKED]"

definition enum_all_trib_status :: "(trib_status \<Rightarrow> bool) \<Rightarrow> bool" where
  "enum_all_trib_status P = list_all P enum_class.enum"

definition enum_ex_trib_status :: "(trib_status \<Rightarrow> bool) \<Rightarrow> bool" where
  "enum_ex_trib_status P = list_ex P enum_class.enum"

instance
proof
  show u: "(UNIV :: trib_status set) = set enum_class.enum"
    unfolding enum_trib_status_def
  proof (rule UNIV_eq_I)
    fix x :: trib_status
    show "x \<in> set [T_OK, ENOSUCHUSER, ENOSUCHFLIGHT, ENOSUCHAIRLINE, EBOOKINGFAILED, EEXISTS, ENOAIRLINE, ENOTBOOKED]"
      by (cases x) simp_all
  qed
  show "distinct (enum_class.enum :: trib_status list)" by (simp add: enum_trib_status_def)
  fix P :: "trib_status \<Rightarrow> bool"
  show "enum_class.enum_all P = Ball UNIV P" by (simp add: u enum_all_trib_status_def list_all_iff)
  show "enum_class.enum_ex P = Bex UNIV P" by (simp add: u enum_ex_trib_status_def list_ex_iff)
qed

end

lemma status_messages_differ: "\<forall>x y. TribStatusToString x = TribStatusToString y \<longrightarrow> x = y"
  by code_simp

text \<open>The error is not looked at.\<close>

definition PrintStatus :: "string \<Rightarrow> trib_status \<Rightarrow> client_error option \<Rightarrow> string" where
  "PrintStatus cmdname status err =
     (if status = T_OK then ''Operation:'' @ cmdname @ '' succeeded''
      else ''Operation:'' @ cmdname @ '' failed: '' @ TribStatusToString status)"

definition PrintFlight :: "FlightInfo \<Rightarrow> string" where
  "PrintFlight f = fi_ID f @ '' - DATE:'' @ fi_Departure f @ '' - FROM:'' @ fi_From f @ '' - TO:'' @ fi_To f @
     '' - COST:'' @ Itoa (fi_Cost f) @ '' - SEATS_LEFT:'' @ Itoa (fi_Slot f)"

definition PrintFlights :: "FlightInfo list \<Rightarrow> string list" where
  "PrintFlights flights = map PrintFlight flights"

text \<open>The commands, their names and the least number of their arguments.\<close>

definition cmdlist :: "(string \<times> string \<times> nat) list" where
  "cmdlist = [(''uc'', ''CreateUser'', 1), (''fv'', ''ViewFlights'', 3), (''ba'', ''AddBooking'', 2),
     (''br'', ''RemoveBooking'', 2), (''bl'', ''GetBookings'', 1), (''fa'', ''AddFlight'', 7)]"

datatype client_result = Fatal string | Printed "string list"

definition print_status :: "string \<Rightarrow> (trib_status \<times> client_error option) \<times> 'w \<Rightarrow> string list \<times> 'w" where
  "print_status name r = (case r of ((status, err), w) \<Rightarrow> ([PrintStatus name status err], w))"

definition print_flights ::
  "string \<Rightarrow> (FlightInfo list \<times> trib_status \<times> client_error option) \<times> 'w \<Rightarrow> string list \<times> 'w" where
  "print_flights name r =
     (case r of ((flights, status, err), w) \<Rightarrow>
        (PrintStatus name status err # (if err = None \<and> status = T_OK then PrintFlights flights else []), w))"

definition client_main ::
  "(agency_event \<Rightarrow> 'w \<Rightarrow> agency_reply \<times> 'w) \<Rightarrow> string list \<Rightarrow> 'w \<Rightarrow> client_result \<times> 'w" where
  "client_main call argv w =
     (if length argv < 2 then (Fatal ''Insufficient arguments to client'', w)
      else
        (let cmd = argv ! 0 in
         case map_of cmdlist cmd of
           None \<Rightarrow> (Fatal (''Unknown command '' @ cmd), w)
         | Some (funcname, nargs) \<Rightarrow>
             if length argv < nargs + 1 then (Fatal (''Insufficient arguments for '' @ cmd), w)
             else
               (let a = (!) argv in
                case (if cmd = ''uc'' then print_status funcname (tc_CreateUser call (a 1) w)
                      else if cmd = ''fv'' then print_flights funcname (tc_ViewFlights call (a 1) (a 2) (a 3) w)
                      else if cmd = ''ba'' then print_status funcname (tc_AddBooking call (a 1) (drop 2 argv) w)
                      else if cmd = ''br'' then print_status funcname (tc_RemoveBooking call (a 1) (drop 2 argv) w)
                      else if cmd = ''bl'' then print_flights funcname (tc_GetBookings call (a 1) w)
                      else print_status funcname (tc_AddFlight call (a 1) (a 2) (a 3) (a 4) (a 5) (a 6) (a 7) w))
                of (ls, w1) \<Rightarrow>
                  (Printed ((''[Client] '' @ funcname @ '' : '' @ join '' '' argv) # ls), w1))))"

subsection \<open>Properties\<close>

lemma Atoi_zero: "Atoi ''0'' = Some 0"
  by (simp add: Atoi_def is_digit_def atoi_nat_def digit_val_def)

lemma tc_AddFlight_bad_capacity:
  "Atoi capacity = None \<Longrightarrow>
     tc_AddFlight call airline num dep from to capacity cost w = tc_AddFlight call airline num dep from to ''0'' cost w"
  by (simp add: tc_AddFlight_def Atoi_zero)

text \<open>The client reports a failed call as a success: when the server returns an error for a
  booking or a cancellation, the program prints that the operation succeeded.\<close>

theorem client_reports_success:
  assumes "(cmd, name, ev) = (''ba'', ''AddBooking'', AddFlights u fids) \<or>
      (cmd, name, ev) = (''br'', ''RemoveBooking'', RemoveFlights u fids)"
    and "fids \<noteq> []" and "call ev w = (Failed e, w')"
  shows "client_main call ([cmd, u] @ fids) w =
    (Printed [''[Client] '' @ name @ '' : '' @ join '' '' ([cmd, u] @ fids), ''Operation:'' @ name @ '' succeeded''], w')"
  using assms
  by (cases fids) (auto simp: client_main_def cmdlist_def Let_def print_status_def tc_AddBooking_def tc_RemoveBooking_def
      tc_dobooking_def PrintStatus_def)

theorem client_reports_success_witness:
  "client_main (\<lambda>r n. (Failed StoreError, n + 1)) [''br'', ''u'', ''A-1'', ''A-2''] (0 :: nat) =
     (Printed [''[Client] RemoveBooking : br u A-1 A-2'', ''Operation:RemoveBooking succeeded''], 1)"
  using client_reports_success [where cmd = "''br''" and name = "''RemoveBooking''" and u = "''u''" and
      fids = "[''A-1'', ''A-2'']" and ev = "RemoveFlights ''u'' [''A-1'', ''A-2'']" and w = "0 :: nat" and w' = 1 and
      e = StoreError and call = "\<lambda>r n. (Failed StoreError, n + 1)"]
  by simp

end
