(* ===== verification/Proxy_Counter.thy ===== *)
theory Proxy_Counter
  imports Storage_Ring
begin

section \<open>The counting proxy (official/proxycounter/proxycounter.go)\<close>

text \<open>
  A storage server that passes every call on to another one, counts calls, bytes and leases,
  and can be told to answer with a fixed status or error, to hide the wish for a lease or to
  change the length of a lease. Counters are 32 bit words and wrap around. The remote call is a
  function of the world that gives the reply and whether an error came back; a reply that was
  not filled in is the zero reply. \<open>None\<close> is the panic on more than one server.
\<close>

subsection \<open>State\<close>

record ProxyCounter =
  pc_myhostport :: string
  rpcCount :: "32 word"
  pc_byteCount :: "32 word"
  leaseRequestCount :: "32 word"
  leaseGrantedCount :: "32 word"
  pc_override :: bool
  overrideErr :: bool
  overrideStatus :: storage_status
  disableLease :: bool
  overrideLeaseSeconds :: int

definition NewProxyCounter :: "(string \<Rightarrow> bool) \<Rightarrow> string \<Rightarrow> string \<Rightarrow> ProxyCounter option" where
  "NewProxyCounter dial server host =
     (if dial server
      then Some \<lparr>pc_myhostport = host, rpcCount = 0, pc_byteCount = 0, leaseRequestCount = 0, leaseGrantedCount = 0,
                 pc_override = False, overrideErr = False, overrideStatus = S_OK, disableLease = False,
                 overrideLeaseSeconds = 0\<rparr>
      else None)"

definition pc_Reset :: "ProxyCounter \<Rightarrow> ProxyCounter" where
  "pc_Reset pc = pc\<lparr>rpcCount := 0, pc_byteCount := 0, leaseRequestCount := 0, leaseGrantedCount := 0\<rparr>"

definition OverrideLeaseSeconds :: "int \<Rightarrow> ProxyCounter \<Rightarrow> ProxyCounter" where
  "OverrideLeaseSeconds leaseSeconds pc = pc\<lparr>overrideLeaseSeconds := leaseSeconds\<rparr>"

definition DisableLease :: "ProxyCounter \<Rightarrow> ProxyCounter" where
  "DisableLease pc = pc\<lparr>disableLease := True\<rparr>"

definition EnableLease :: "ProxyCounter \<Rightarrow> ProxyCounter" where
  "EnableLease pc = pc\<lparr>disableLease := False\<rparr>"

definition OverrideErr :: "ProxyCounter \<Rightarrow> ProxyCounter" where
  "OverrideErr pc = pc\<lparr>overrideErr := True, pc_override := True\<rparr>"

definition OverrideStatus :: "storage_status \<Rightarrow> ProxyCounter \<Rightarrow> ProxyCounter" where
  "OverrideStatus status pc = pc\<lparr>overrideStatus := status, pc_override := True\<rparr>"

definition OverrideOff :: "ProxyCounter \<Rightarrow> ProxyCounter" where
  "OverrideOff pc = pc\<lparr>pc_override := False, overrideErr := False, overrideStatus := S_OK\<rparr>"

subsection \<open>Calls\<close>

definition pc_GetServers ::
  "('w \<Rightarrow> RegisterReply \<times> bool \<times> 'w) \<Rightarrow> ProxyCounter \<Rightarrow> 'w \<Rightarrow> (RegisterReply \<times> bool \<times> 'w) option" where
  "pc_GetServers call pc w =
     (case call w of (reply, err, w1) \<Rightarrow>
        if length (Servers reply) > 1 then None
        else Some (case Servers reply of
                     [node] \<Rightarrow> reply\<lparr>Servers := [node\<lparr>HostPort := pc_myhostport pc\<rparr>]\<rparr>
                   | _ \<Rightarrow> reply, err, w1))"

text \<open>A registration is answered without looking at it: nil, and an empty reply.\<close>

definition pc_RegisterServer :: "Node \<Rightarrow> RegisterReply \<times> bool" where
  "pc_RegisterServer node = (\<lparr>Ready = False, Servers = []\<rparr>, False)"

text \<open>The two atomic additions at the end of every call that was passed on.\<close>

definition counted :: "nat \<Rightarrow> ProxyCounter \<Rightarrow> ProxyCounter" where
  "counted n pc = pc\<lparr>rpcCount := rpcCount pc + 1, pc_byteCount := pc_byteCount pc + of_nat n\<rparr>"

text \<open>\<open>Get\<close> and \<open>GetList\<close> differ in the size of the value; \<open>zero\<close> is the empty value.\<close>

definition pc_read ::
  "('v \<Rightarrow> nat) \<Rightarrow> 'v \<Rightarrow> (storage_GetArgs \<Rightarrow> 'w \<Rightarrow> 'v storage_GetReply \<times> bool \<times> 'w) \<Rightarrow> ProxyCounter \<Rightarrow>
     storage_GetArgs \<Rightarrow> 'w \<Rightarrow> ('v storage_GetReply \<times> bool) \<times> ProxyCounter \<times> 'w" where
  "pc_read size_of zero call pc args w =
     (if pc_override pc
      then ((\<lparr>sg_Status = overrideStatus pc, sg_Value = zero, sg_Lease = no_lease\<rparr>, overrideErr pc), pc, w)
      else
        (let pc1 = (if WantLease args then pc\<lparr>leaseRequestCount := leaseRequestCount pc + 1\<rparr> else pc);
             args1 = (if disableLease pc then args\<lparr>WantLease := False\<rparr> else args) in
         case call args1 w of (reply, err, w1) \<Rightarrow>
           (let n = length (ga_Key args) + size_of (sg_Value reply);
                reply1 = (if Granted (sg_Lease reply) \<and> overrideLeaseSeconds pc > 0
                          then reply\<lparr>sg_Lease := (sg_Lease reply)\<lparr>ValidSeconds := overrideLeaseSeconds pc\<rparr>\<rparr>
                          else reply);
                pc2 = (if Granted (sg_Lease reply) then pc1\<lparr>leaseGrantedCount := leaseGrantedCount pc1 + 1\<rparr> else pc1) in
            ((reply1, err), counted n pc2, w1))))"

definition pc_Get where
  "pc_Get call pc args w = pc_read length '''' call pc args w"

definition pc_GetList where
  "pc_GetList call pc args w = pc_read (\<lambda>xs. sum_list (map length xs)) [] call pc args w"

text \<open>\<open>Put\<close>, \<open>AppendToList\<close> and \<open>RemoveFromList\<close> differ in the call that is passed on.\<close>

definition pc_write ::
  "(string \<Rightarrow> string \<Rightarrow> 'w \<Rightarrow> storage_status \<times> bool \<times> 'w) \<Rightarrow> ProxyCounter \<Rightarrow> string \<Rightarrow> string \<Rightarrow> 'w \<Rightarrow>
     (storage_status \<times> bool) \<times> ProxyCounter \<times> 'w" where
  "pc_write call pc key v w =
     (if pc_override pc then ((overrideStatus pc, overrideErr pc), pc, w)
      else (case call key v w of (status, err, w1) \<Rightarrow> ((status, err), counted (length key + length v) pc, w1)))"

definition pc_Put where "pc_Put call pc key v w = pc_write call pc key v w"
definition pc_AppendToList where "pc_AppendToList call pc key v w = pc_write call pc key v w"
definition pc_RemoveFromList where "pc_RemoveFromList call pc key v w = pc_write call pc key v w"

subsection \<open>A server behind the proxy\<close>

record 'w storage_calls =
  call_get :: "storage_GetArgs \<Rightarrow> 'w \<Rightarrow> string storage_GetReply \<times> bool \<times> 'w"
  call_list :: "storage_GetArgs \<Rightarrow> 'w \<Rightarrow> string list storage_GetReply \<times> bool \<times> 'w"
  call_put :: "string \<Rightarrow> string \<Rightarrow> 'w \<Rightarrow> storage_status \<times> bool \<times> 'w"
  call_append :: "string \<Rightarrow> string \<Rightarrow> 'w \<Rightarrow> storage_status \<times> bool \<times> 'w"
  call_remove :: "string \<Rightarrow> string \<Rightarrow> 'w \<Rightarrow> storage_status \<times> bool \<times> 'w"

datatype storage_call =
    CGet storage_GetArgs | CList storage_GetArgs | CPut string string | CAppend string string | CRemove string string

datatype call_reply =
    RGet "string storage_GetReply" bool | RGetList "string list storage_GetReply" bool | RWrite storage_status bool

fun direct :: "'w storage_calls \<Rightarrow> storage_call \<Rightarrow> 'w \<Rightarrow> call_reply \<times> 'w" where
  "direct srv (CGet args) w = (case call_get srv args w of (r, e, w1) \<Rightarrow> (RGet r e, w1))"
| "direct srv (CList args) w = (case call_list srv args w of (r, e, w1) \<Rightarrow> (RGetList r e, w1))"
| "direct srv (CPut k v) w = (case call_put srv k v w of (st, e, w1) \<Rightarrow> (RWrite st e, w1))"
| "direct srv (CAppend k v) w = (case call_append srv k v w of (st, e, w1) \<Rightarrow> (RWrite st e, w1))"
| "direct srv (CRemove k v) w = (case call_remove srv k v w of (st, e, w1) \<Rightarrow> (RWrite st e, w1))"

fun proxied :: "'w storage_calls \<Rightarrow> storage_call \<Rightarrow> ProxyCounter \<times> 'w \<Rightarrow> call_reply \<times> ProxyCounter \<times> 'w" where
  "proxied srv (CGet args) (pc, w) = (case pc_Get (call_get srv) pc args w of ((r, e), x) \<Rightarrow> (RGet r e, x))"
| "proxied srv (CList args) (pc, w) = (case pc_GetList (call_list srv) pc args w of ((r, e), x) \<Rightarrow> (RGetList r e, x))"
| "proxied srv (CPut k v) (pc, w) = (case pc_Put (call_put srv) pc k v w of ((st, e), x) \<Rightarrow> (RWrite st e, x))"
| "proxied srv (CAppend k v) (pc, w) = (case pc_AppendToList (call_append srv) pc k v w of ((st, e), x) \<Rightarrow> (RWrite st e, x))"
| "proxied srv (CRemove k v) (pc, w) = (case pc_RemoveFromList (call_remove srv) pc k v w of ((st, e), x) \<Rightarrow> (RWrite st e, x))"

definition plain_proxy :: "ProxyCounter \<Rightarrow> bool" where
  "plain_proxy pc \<longleftrightarrow> \<not> pc_override pc \<and> \<not> disableLease pc \<and> overrideLeaseSeconds pc \<le> 0"

definition wishes_lease :: "storage_call \<Rightarrow> bool" where
  "wishes_lease c = (case c of CGet args \<Rightarrow> WantLease args | CList args \<Rightarrow> WantLease args | _ \<Rightarrow> False)"

lemma proxied_plain:
  assumes "plain_proxy pc" and "proxied srv c (pc, w) = (r, pc1, w1)"
  shows "direct srv c w = (r, w1)" "plain_proxy pc1" "rpcCount pc1 = rpcCount pc + 1"
    "leaseRequestCount pc1 = leaseRequestCount pc + (if wishes_lease c then 1 else 0)"
  using assms
  by (cases c; auto simp: plain_proxy_def wishes_lease_def pc_Get_def pc_GetList_def pc_read_def pc_Put_def
        pc_AppendToList_def pc_RemoveFromList_def pc_write_def counted_def Let_def split: prod.splits if_splits)+

definition proxy_run where
  "proxy_run srv cs x = run_out (\<lambda>x c. Some (proxied srv c x)) x cs"

definition direct_run where
  "direct_run srv cs w = run_out (\<lambda>w c. Some (direct srv c w)) w cs"

interpretation px: refining_machine "\<lambda>x c. Some (proxied srv c x)" "\<lambda>w c. Some (direct srv c w)"
    "\<lambda>x. plain_proxy (fst x)" snd
  for srv
proof (unfold_locales, goal_cases)
  case (1 x c)
  obtain pc w r pc1 w1 where x: "x = (pc, w)" "proxied srv c (pc, w) = (r, pc1, w1)" by (metis prod.exhaust)
  with proxied_plain [of pc srv c w r pc1 w1] 1 show ?case by (simp add: implements_def)
qed

lemma proxy_counts:
  assumes "plain_proxy pc" and "proxy_run srv cs (pc, w) = Some (rs, pc1, w1)"
  shows "rpcCount pc1 = rpcCount pc + of_nat (length cs)"
    and "leaseRequestCount pc1 = leaseRequestCount pc + of_nat (length (filter wishes_lease cs))"
proof -
  have "rpcCount pc1 = rpcCount pc + of_nat (length cs) \<and>
      leaseRequestCount pc1 = leaseRequestCount pc + of_nat (length (filter wishes_lease cs))"
    using assms unfolding proxy_run_def
  proof (induction cs arbitrary: pc w rs)
    case (Cons c cs)
    obtain r pc2 w2 where p: "proxied srv c (pc, w) = (r, pc2, w2)" by (metis prod.exhaust)
    then obtain rs' where "run_out (\<lambda>x c. Some (proxied srv c x)) (pc2, w2) cs = Some (rs', pc1, w1)"
      using Cons.prems(2) by auto
    from Cons.IH [OF proxied_plain(2) [OF Cons.prems(1) p] this] proxied_plain(3,4) [OF Cons.prems(1) p]
    show ?case by (auto simp: algebra_simps)
  qed simp
  then show "rpcCount pc1 = rpcCount pc + of_nat (length cs)"
    "leaseRequestCount pc1 = leaseRequestCount pc + of_nat (length (filter wishes_lease cs))" by simp_all
qed

lemma proxy_run_total: "\<exists>rs pc1 w1. proxy_run srv cs x = Some (rs, pc1, w1)"
  unfolding proxy_run_def
proof (induction cs arbitrary: x)
  case (Cons c cs)
  obtain r y where "proxied srv c x = (r, y)" by (metis prod.exhaust)
  with Cons.IH [of y] show ?case by auto
qed (simp add: split_paired_all)

definition echo_server :: "nat storage_calls" where
  "echo_server =
     \<lparr>call_get = (\<lambda>args n. (\<lparr>sg_Status = S_OK, sg_Value = ga_Key args, sg_Lease = no_lease\<rparr>, False, n)),
      call_list = (\<lambda>args n. (\<lparr>sg_Status = S_OK, sg_Value = [ga_Key args], sg_Lease = no_lease\<rparr>, False, n)),
      call_put = (\<lambda>k v n. (S_OK, False, n + 1)), call_append = (\<lambda>k v n. (S_OK, False, n + 1)),
      call_remove = (\<lambda>k v n. (S_OK, False, n + 1))\<rparr>"

text \<open>C38: The proxy changes nothing but its counters: as long as no override is set, a run of calls
  through the proxy gets the replies of the server and leaves the server as the direct calls
  would; the number of calls, and of wishes for a lease, is counted modulo two to the 32.\<close>

theorem proxy_transparent:
  assumes "plain_proxy pc" and "proxy_run srv cs (pc, w) = Some (rs, pc1, w1)"
  shows "direct_run srv cs w = Some (rs, w1) \<and>
    unat (rpcCount pc1) = (unat (rpcCount pc) + length cs) mod 2 ^ 32 \<and>
    unat (leaseRequestCount pc1) = (unat (leaseRequestCount pc) + length (filter wishes_lease cs)) mod 2 ^ 32"
proof -
  have "unat (x + of_nat n) = (unat x + n) mod 2 ^ 32" for x :: "32 word" and n
    by (simp add: unat_word_ariths unat_of_nat mod_simps)
  with proxy_counts [OF assms] px.run_implements [of "(pc, w)" srv cs] assms show ?thesis
    by (simp add: proxy_run_def direct_run_def implements_def)
qed

theorem proxy_transparent_witness:
  "\<exists>pc pc1 rs. NewProxyCounter (\<lambda>_. True) ''s'' ''p'' = Some pc \<and>
     proxy_run echo_server [CPut ''k'' ''v'', CRemove ''k'' ''v''] (pc, 0) = Some (rs, pc1, 2) \<and>
     unat (rpcCount pc1) = 2"
proof -
  obtain pc where pc: "NewProxyCounter (\<lambda>_. True) ''s'' ''p'' = Some pc" by (simp add: NewProxyCounter_def)
  then have p: "plain_proxy pc" "rpcCount pc = 0" by (auto simp: NewProxyCounter_def plain_proxy_def)
  obtain rs pc1 w1 where s: "proxy_run echo_server [CPut ''k'' ''v'', CRemove ''k'' ''v''] (pc, 0) = Some (rs, pc1, w1)"
    using proxy_run_total [of echo_server "[CPut ''k'' ''v'', CRemove ''k'' ''v'']" "(pc, 0)"] by blast
  from proxy_transparent [OF p(1) s] p(2) have "w1 = 2" "unat (rpcCount pc1) = 2"
    by (auto simp: direct_run_def echo_server_def)
  with pc s show ?thesis by blast
qed

end
