(* ===== verification/Booking_Outcome.thy ===== *)
theory Booking_Outcome
  imports Booking
begin

section \<open>How a booking ends\<close>

text \<open>
  One booking at any number of airlines, each asked for any flights, with the messages in any
  order, when it is the only one of its manager, no message is lost and its timer does not fire
  before it is over: it ends after at most four events for each airline, is never stuck before, and its
  outcome is a function of what the airlines had when it began. \<open>serves\<close> says whether an airline
  can give what it is asked for. The proof follows the booking through two phases:
  in \<open>collecting\<close> the orders \<open>U\<close> are unsent, the calls \<open>C\<close> and the votes \<open>V\<close> are on their way and
  the other votes are counted, in \<open>informing\<close> the decision is on its way to the airlines \<open>R\<close>.
\<close>

subsection \<open>The booking\<close>

record one_booking =
  bk_tran :: string
  bk_chan :: nat
  bk_host :: string
  bk_orders :: "tranOrder list"
  bk_airs :: "string \<rightharpoonup> AirlineServer"

definition flights_of_order :: "tranOrder \<Rightarrow> string list" where
  "flights_of_order ord = strings_Split (to_flightID ord) '':''"

definition serves :: "AirlineServer \<Rightarrow> tranOrder \<Rightarrow> bool" where
  "serves a ord \<longleftrightarrow> distinct (flights_of_order ord) \<and>
     (\<forall>f \<in> set (flights_of_order ord). lockBuf a f = None \<and> (\<exists>i. flightBuf a f = Some i \<and> to_amount ord \<le> fi_Slot i))"

definition airline_of :: "one_booking \<Rightarrow> tranOrder \<Rightarrow> AirlineServer" where
  "airline_of K ord = the (bk_airs K (to_pptID ord))"

definition all_serve :: "one_booking \<Rightarrow> bool" where
  "all_serve K \<longleftrightarrow> (\<forall>ord \<in> set (bk_orders K). serves (airline_of K ord) ord)"

text \<open>Every airline is asked once, is found under its name, and does not know the booking.\<close>

definition bookable :: "one_booking \<Rightarrow> bool" where
  "bookable K \<longleftrightarrow> bk_orders K \<noteq> [] \<and> distinct (map to_pptID (bk_orders K)) \<and>
     (\<forall>ord \<in> set (bk_orders K). to_conn ord = to_pptID ord \<and>
        (\<exists>a. bk_airs K (to_pptID ord) = Some a \<and> myhostport a = to_pptID ord \<and> air_inv a \<and>
             logBuf a (bk_tran K) = None \<and> oldLog a (bk_tran K) = None))"

lemma bookable_airline:
  assumes "bookable K" and "ord \<in> set (bk_orders K)"
  shows "bk_airs K (to_pptID ord) = Some (airline_of K ord)" "myhostport (airline_of K ord) = to_pptID ord"
    "air_inv (airline_of K ord)" "logBuf (airline_of K ord) (bk_tran K) = None"
    "oldLog (airline_of K ord) (bk_tran K) = None" "to_conn ord = to_pptID ord"
  using assms by (auto simp: bookable_def airline_of_def)

lemma bookable_inj:
  "bookable K \<Longrightarrow> x \<in> set (bk_orders K) \<Longrightarrow> y \<in> set (bk_orders K) \<Longrightarrow> to_pptID x = to_pptID y \<Longrightarrow> x = y"
  unfolding bookable_def by (metis distinct_map inj_onD)

subsection \<open>The messages\<close>

definition vote_of :: "one_booking \<Rightarrow> tranOrder \<Rightarrow> int" where
  "vote_of K ord = (if serves (airline_of K ord) ord then T_COMMIT else T_ABORT)"

definition outcome :: "one_booking \<Rightarrow> int" where
  "outcome K = (if all_serve K then T_COMMIT else T_ABORT)"

definition order_args :: "one_booking \<Rightarrow> tranOrder \<Rightarrow> TranArgs" where
  "order_args K ord = \<lparr>ta_TranType = TRANS_INIT, ta_TranID = bk_tran K, ta_FlightID = to_flightID ord,
     ta_Amount = to_amount ord, ta_PptList = map to_pptID (bk_orders K), ta_Vote = 0, ta_TM = bk_host K\<rparr>"

definition vote_args :: "one_booking \<Rightarrow> tranOrder \<Rightarrow> TranArgs" where
  "vote_args K ord = \<lparr>ta_TranType = TRANS_RESPONSE, ta_TranID = bk_tran K, ta_FlightID = to_flightID ord,
     ta_Amount = 0, ta_PptList = [], ta_Vote = vote_of K ord, ta_TM = to_pptID ord\<rparr>"

definition decision_args :: "one_booking \<Rightarrow> string \<Rightarrow> TranArgs" where
  "decision_args K h = \<lparr>ta_TranType = TRANS_RESPONSE, ta_TranID = bk_tran K, ta_FlightID = h,
     ta_Amount = 0, ta_PptList = [], ta_Vote = outcome K, ta_TM = bk_host K\<rparr>"

subsection \<open>The airlines\<close>

definition asked :: "one_booking \<Rightarrow> tranOrder \<Rightarrow> AirlineServer \<Rightarrow> bool" where
  "asked K ord b \<longleftrightarrow>
     (let a = airline_of K ord in
      flightBuf b = flightBuf a \<and> oldLog b (bk_tran K) = None \<and>
      (if serves a ord
       then air_inv b \<and> logBuf b (bk_tran K) = Some (map (log_entry (order_args K ord) a) (flights_of_order ord))
       else logBuf b (bk_tran K) = None))"

definition settled :: "one_booking \<Rightarrow> tranOrder \<Rightarrow> AirlineServer \<Rightarrow> bool" where
  "settled K ord b \<longleftrightarrow>
     (let a = airline_of K ord in
      (\<forall>f. slot_of b f = (if all_serve K \<and> f \<in> set (flights_of_order ord) then go_int (slot_of a f - to_amount ord) else slot_of a f)) \<and>
      oldLog b (bk_tran K) = (if serves a ord then Some (outcome K) else None) \<and> logBuf b (bk_tran K) = None \<and>
      (serves a ord \<longrightarrow> (\<forall>f \<in> set (flights_of_order ord). lockBuf b f = None)))"

lemma airline_prepares:
  assumes K: "bookable K" and o: "ord \<in> set (bk_orders K)"
  shows "\<exists>b es. PaxosTransaction (\<lambda>_. True) poll (airline_of K ord) (order_args K ord) None True = Some (b, es) \<and>
    votes_of (bk_host K) es = [vote_args K ord] \<and> asked K ord b"
proof -
  let ?a = "airline_of K ord" and ?args = "order_args K ord" and ?fs = "flights_of_order ord"
  note a = bookable_airline [OF K o]
  obtain s1 logs d where l: "lock_flights ?args ?fs ?a [] = (s1, logs, d)" by (metis prod_cases3)
  from lock_flights_result [OF l] obtain ds where ds: "prefix ds ?fs" "logs = map (log_entry ?args ?a) ds"
    "s1 = ?a\<lparr>lockBuf := add_locks ds (lockBuf ?a)\<rparr>" "distinct ds" "set ds \<inter> dom (lockBuf ?a) = {}"
    "\<forall>f \<in> set ds. flightBuf ?a f \<noteq> None \<and> ta_Amount ?args \<le> slot_of ?a f"
    "d = (if ds = ?fs then T_COMMIT else T_ABORT)" by auto
  have d: "d = vote_of K ord"
    using lock_flights_commit [OF l] ds(7) by (auto simp: vote_of_def serves_def order_args_def)
  have split: "strings_Split (ta_FlightID ?args) '':'' = ?fs" by (simp add: order_args_def flights_of_order_def)
  have ne: "?fs \<noteq> []" by (simp add: flights_of_order_def)
  have serves: "serves ?a ord \<longleftrightarrow> d = T_COMMIT" by (simp add: d vote_of_def)
  let ?b = "if d = T_COMMIT then s1\<lparr>logBuf := (logBuf ?a)(bk_tran K \<mapsto> map (log_entry ?args ?a) ?fs)\<rparr> else s1"
  have eq: "ds = ?fs" if "d = T_COMMIT" using ds(7) that by (auto split: if_splits)
  have "air_inv ?b" if "d = T_COMMIT"
    using air_inv_prepare [OF a(3) ds(4,5) _ ds(6), of "bk_tran K"] ne eq that ds(3) by simp
  then have "asked K ord ?b" using a(4,5) ds(3) by (simp add: asked_def Let_def serves)
  moreover have "\<exists>es. PaxosTransaction (\<lambda>_. True) poll ?a ?args None True = Some (?b, es) \<and>
      votes_of (bk_host K) es = [vote_args K ord]"
    using l split ds(2,3) eq a(2) d
    by (auto simp: PaxosTransaction_def storeHandler_def transactionHandler_def initTrans_def Let_def
        order_args_def vote_args_def)
  ultimately show ?thesis by blast
qed

lemma airline_settles:
  assumes K: "bookable K" and o: "ord \<in> set (bk_orders K)" and s: "serves (airline_of K ord) ord" and b: "asked K ord b"
  shows "\<exists>b1. PaxosTransaction (\<lambda>_. True) poll b (decision_args K h) None True = Some (b1, []) \<and> settled K ord b1"
proof -
  let ?a = "airline_of K ord" and ?fs = "flights_of_order ord"
  let ?ls = "map (log_entry (order_args K ord) ?a) ?fs"
  have b': "flightBuf b = flightBuf ?a" "air_inv b" "logBuf b (bk_tran K) = Some ?ls"
    using b s by (auto simp: asked_def Let_def)
  let ?r = "mk_request REQ_TRANS_RESPONSE '''' (VArgs (decision_args K h)) None True"
  let ?b1 = "b\<lparr>flightBuf := (if outcome K = T_COMMIT then set_slots ?ls (flightBuf b) else flightBuf b),
      lockBuf := drop_locks (log_flights ?ls) (lockBuf b), logBuf := (logBuf b)(bk_tran K := None),
      oldLog := (oldLog b)(bk_tran K \<mapsto> outcome K)\<rparr>"
  have fl: "log_flights ?ls = ?fs" by (simp add: comp_def)
  have "responseTrans b ?r = Some (?b1, [])"
    using responseTrans_result [OF b'(2), of ?r "decision_args K h" ?ls] b'(3) by (simp add: decision_args_def)
  then have "PaxosTransaction (\<lambda>_. True) poll b (decision_args K h) None True = Some (?b1, [])"
    by (simp add: PaxosTransaction_def decision_args_def storeHandler_def transactionHandler_def)
  moreover have "slot_of ?b1 f = (if all_serve K \<and> f \<in> set ?fs then go_int (slot_of ?a f - to_amount ord) else slot_of ?a f)" for f
  proof (cases "all_serve K \<and> f \<in> set ?fs")
    case True
    have d: "distinct ?fs" using s by (simp add: serves_def)
    obtain i where i: "flightBuf ?a f = Some i" using s True by (auto simp: serves_def)
    have "map_of (map (\<lambda>l. (log_flightID l, log_new l)) ?ls) f = Some (go_int (slot_of ?a f - to_amount ord))"
      using True by (intro map_of_is_SomeI) (auto simp: comp_def d order_args_def image_iff)
    then show ?thesis using True i b'(1) by (simp add: slot_of_def set_slots_def outcome_def)
  next
    case False
    have "set_slots ?ls (flightBuf b) f = flightBuf b f" if "f \<notin> set ?fs"
      using that by (intro set_slots_other) (simp add: comp_def)
    with False b'(1) show ?thesis by (auto simp: slot_of_def outcome_def)
  qed
  moreover have "lockBuf ?b1 f = None" if "f \<in> set ?fs" for f
    using that by (simp add: fl drop_locks_def)
  ultimately show ?thesis using s by (intro exI [of _ ?b1]) (simp add: settled_def Let_def)
qed

lemma refused_settled:
  "\<not> serves (airline_of K ord) ord \<Longrightarrow> ord \<in> set (bk_orders K) \<Longrightarrow> asked K ord b \<Longrightarrow> settled K ord b"
  by (auto simp: asked_def settled_def Let_def slot_of_def all_serve_def)


subsection \<open>The phases\<close>

definition counting :: "one_booking \<Rightarrow> tranOrder set \<Rightarrow> activeTransMapEle \<Rightarrow> bool" where
  "counting K W act \<longleftrightarrow> active_ok act \<and> set (gkeys (at_commitGrp act)) = to_pptID ` set (bk_orders K) \<and>
     (\<forall>ord \<in> set (bk_orders K). at_pptMap act (to_pptID ord) = Some (to_pptID ord) \<and>
        gget (at_commitGrp act) (to_pptID ord) = Some (if ord \<in> W then NOT_DECIDED else vote_of K ord))"

definition standing :: "one_booking \<Rightarrow> tranOrder set \<Rightarrow> booking_net \<Rightarrow> bool" where
  "standing K W s \<longleftrightarrow> (\<forall>ord \<in> set (bk_orders K). \<exists>b. airs s (to_pptID ord) = Some b \<and>
     (if ord \<in> W then b = airline_of K ord else asked K ord b))"

definition collecting ::
  "one_booking \<Rightarrow> tranOrder list \<Rightarrow> tranOrder list \<Rightarrow> tranOrder list \<Rightarrow> booking_net \<Rightarrow> bool" where
  "collecting K U C V s \<longleftrightarrow>
     distinct (U @ C @ V) \<and> set (U @ C @ V) \<subseteq> set (bk_orders K) \<and> U @ C @ V \<noteq> [] \<and>
     oldTransactionMap (tm s) =
       (if U = [] then [] else [(bk_tran K, \<lparr>ot_orderList = U, ot_pptList = map to_pptID (bk_orders K)\<rparr>)]) \<and>
     tl_myhostport (tm s) = bk_host K \<and> answered (tm s) = {} \<and> deferTransMap (tm s) (bk_tran K) = Some (bk_chan K) \<and>
     (\<exists>act. activeTransMap (tm s) (bk_tran K) = Some act \<and> counting K (set (U @ C @ V)) act) \<and>
     to_air s = map (\<lambda>ord. (to_pptID ord, order_args K ord)) C \<and> to_tm s = map (vote_args K) V \<and> told s = [] \<and>
     standing K (set (U @ C)) s"

definition informing :: "one_booking \<Rightarrow> string list \<Rightarrow> booking_net \<Rightarrow> bool" where
  "informing K R s \<longleftrightarrow>
     distinct R \<and> set R \<subseteq> {to_pptID ord | ord. ord \<in> set (bk_orders K) \<and> serves (airline_of K ord) ord} \<and>
     oldTransactionMap (tm s) = [] \<and> to_air s = map (\<lambda>h. (h, decision_args K h)) R \<and> to_tm s = [] \<and>
     told s = [(bk_chan K, all_serve K)] \<and>
     (\<forall>ord \<in> set (bk_orders K). \<exists>b. airs s (to_pptID ord) = Some b \<and>
        (if to_pptID ord \<in> set R then asked K ord b else settled K ord b))"

definition is_arrival :: "booking_event \<Rightarrow> bool" where
  "is_arrival e = (case e of SendOrder \<Rightarrow> True | CallArrives i ok \<Rightarrow> ok | VoteArrives i ok \<Rightarrow> ok | _ \<Rightarrow> False)"

lemma is_arrival_simps [simp]:
  "is_arrival SendOrder" "is_arrival (CallArrives i True)" "is_arrival (VoteArrives i True)"
  by (simp_all add: is_arrival_def)

lemma arrival_cases [consumes 2, case_names send call vote]:
  assumes "is_arrival e" and "quiet_step s e = Some s'"
  obtains "e = SendOrder" "oldTransactionMap (tm s) \<noteq> []"
    "tm_done s (requestHandler (\<lambda>_. True) (tm s) None) = Some s'"
  | i h m a where "e = CallArrives i True" "i < length (to_air s)" "to_air s ! i = (h, m)" "airs s h = Some a"
    "air_done (s\<lparr>to_air := list_without i (to_air s)\<rparr>) h
       (PaxosTransaction (\<lambda>_. True) (\<lambda>_. NoConn) a m None True) = Some s'"
  | i r where "e = VoteArrives i True" "i < length (to_tm s)" "oldTransactionMap (tm s) = []"
    "TransResponse_request (to_tm s ! i) 0 = Some r"
    "tm_done (s\<lparr>to_tm := list_without i (to_tm s)\<rparr>) (requestHandler (\<lambda>_. True) (tm s) (Some r)) = Some s'"
  using assms by (cases e) (auto simp: is_arrival_def quiet_step_def split: if_splits option.splits prod.splits)

subsection \<open>The steps\<close>

lemma list_without_map: "list_without i (map f xs) = map f (list_without i xs)"
  by (simp add: list_without_def take_map drop_map)

lemma list_without_split:
  assumes "i < length xs"
  obtains as x bs where "xs = as @ x # bs" "xs ! i = x" "list_without i xs = as @ bs"
  using assms id_take_nth_drop [OF assms] by (auto simp: list_without_def)

lemma standing_tm:
  "airs s' = airs s \<Longrightarrow> W = W' \<Longrightarrow> standing K W s = standing K W' s'"
  by (simp add: standing_def)

lemma collecting_send:
  assumes c: "collecting K U C V s" and K: "bookable K" and ne: "oldTransactionMap (tm s) \<noteq> []"
  shows "\<exists>u U1 s'. U = u # U1 \<and> tm_done s (requestHandler (\<lambda>_. True) (tm s) None) = Some s' \<and>
    collecting K U1 (C @ [u]) V s'"
proof -
  from c ne obtain u U1 where U: "U = u # U1" by (cases U) (auto simp: collecting_def)
  have u: "u \<in> set (bk_orders K)" using c U by (auto simp: collecting_def)
  have conn: "to_conn u = to_pptID u" by (rule bookable_airline(6) [OF K u])
  let ?ly = "(tm s)\<lparr>oldTransactionMap :=
      (if U1 = [] then [] else [(bk_tran K, \<lparr>ot_orderList = U1, ot_pptList = map to_pptID (bk_orders K)\<rparr>)])\<rparr>"
  let ?s = "s\<lparr>tm := ?ly, to_air := to_air s @ [(to_pptID u, order_args K u)], told := told s\<rparr>"
  have s1: "tm_done s (requestHandler (\<lambda>_. True) (tm s) None) = Some ?s"
    using c U conn by (auto simp: collecting_def tm_done_def requestHandler_def send_order_def order_args_def)
  have W: "set (U1 @ (C @ [u]) @ V) = set (U @ C @ V)" "set (U1 @ C @ [u]) = set (U @ C)" using U by auto
  have "standing K (set (U1 @ C @ [u])) ?s" using c standing_tm [of ?s s "set (U @ C)"] W(2)
    by (simp add: collecting_def)
  moreover have "distinct (U1 @ (C @ [u]) @ V)" "set (U1 @ (C @ [u]) @ V) \<subseteq> set (bk_orders K)"
    using c U by (auto simp: collecting_def)
  ultimately have "collecting K U1 (C @ [u]) V ?s"
    using c unfolding collecting_def W by (simp add: U)
  with U s1 show ?thesis by blast
qed

lemma collecting_call:
  assumes c: "collecting K U C V s" and K: "bookable K" and i: "i < length (to_air s)" "to_air s ! i = (h, m)"
  shows "\<exists>as u bs a s'. C = as @ u # bs \<and> airs s h = Some a \<and>
    air_done (s\<lparr>to_air := list_without i (to_air s)\<rparr>) h
       (PaxosTransaction (\<lambda>_. True) (\<lambda>_. NoConn) a m None True) = Some s' \<and>
    collecting K U (as @ bs) (V @ [u]) s'"
proof -
  let ?f = "\<lambda>ord. (to_pptID ord, order_args K ord)"
  have air: "to_air s = map ?f C" using c by (simp add: collecting_def)
  then have iC: "i < length C" using i by simp
  then obtain as u bs where C: "C = as @ u # bs" "C ! i = u" "list_without i C = as @ bs"
    by (rule list_without_split)
  have rest: "list_without i (to_air s) = map ?f (as @ bs)" by (simp only: air list_without_map C(3))
  have hm: "h = to_pptID u" "m = order_args K u" using i iC air C(2) by auto
  have u: "u \<in> set (bk_orders K)" using c C by (auto simp: collecting_def)
  have st: "standing K (set (U @ C)) s" using c by (simp add: collecting_def)
  with u C hm have a: "airs s h = Some (airline_of K u)" by (auto simp: standing_def)
  from airline_prepares [OF K u] obtain b es where b:
    "PaxosTransaction (\<lambda>_. True) (\<lambda>_. NoConn) (airline_of K u) m None True = Some (b, es)"
    "votes_of (bk_host K) es = [vote_args K u]" "asked K u b" unfolding hm by blast
  have host: "tl_myhostport (tm s) = bk_host K" "to_tm s = map (vote_args K) V" using c by (simp_all add: collecting_def)
  let ?s = "s\<lparr>to_air := map ?f (as @ bs), airs := (airs s)(h \<mapsto> b), to_tm := map (vote_args K) (V @ [u])\<rparr>"
  have s1: "air_done (s\<lparr>to_air := list_without i (to_air s)\<rparr>) h
       (PaxosTransaction (\<lambda>_. True) (\<lambda>_. NoConn) (airline_of K u) m None True) = Some ?s"
    unfolding rest by (simp add: air_done_def b host)
  have nu: "u \<notin> set (U @ as @ bs)" and d: "distinct (U @ (as @ bs) @ V @ [u])" using c C(1) by (auto simp: collecting_def)
  have "\<exists>b. airs ?s (to_pptID ord) = Some b \<and> (if ord \<in> set (U @ as @ bs) then b = airline_of K ord else asked K ord b)"
    if o: "ord \<in> set (bk_orders K)" for ord
  proof (cases "ord = u")
    case True
    with nu show ?thesis using b(3) hm by simp
  next
    case False
    then have "to_pptID ord \<noteq> to_pptID u" using bookable_inj [OF K o u] by blast
    moreover have "ord \<in> set (U @ C) \<longleftrightarrow> ord \<in> set (U @ as @ bs)" using C(1) False by auto
    moreover obtain b where "airs s (to_pptID ord) = Some b"
      "if ord \<in> set (U @ C) then b = airline_of K ord else asked K ord b"
      using st o unfolding standing_def by blast
    ultimately show ?thesis using hm by (intro exI [of _ b]) (simp split: if_splits)
  qed
  then have "standing K (set (U @ as @ bs)) ?s" by (simp add: standing_def)
  moreover have W: "set (U @ (as @ bs) @ V @ [u]) = set (U @ C @ V)" using C(1) by auto
  moreover have "set (U @ C @ V) \<subseteq> set (bk_orders K)" using c by (simp add: collecting_def)
  ultimately have "collecting K U (as @ bs) (V @ [u]) ?s"
    using c d unfolding collecting_def W by simp
  with C(1) a s1 show ?thesis by blast
qed

subsection \<open>Counting\<close>

lemma vote_of_decided: "vote_of K ord = T_COMMIT \<or> vote_of K ord = T_ABORT"
  by (simp add: vote_of_def)

lemma counting_mem:
  assumes "counting K W act" and "(h, v) \<in> set (at_commitGrp act)"
  obtains ord where "ord \<in> set (bk_orders K)" "h = to_pptID ord" "v = (if ord \<in> W then NOT_DECIDED else vote_of K ord)"
proof -
  have g: "gmap_ok (at_commitGrp act)" "h \<in> to_pptID ` set (bk_orders K)"
    using assms by (auto simp: counting_def active_ok_def rev_image_eqI)
  then obtain ord where o: "ord \<in> set (bk_orders K)" "h = to_pptID ord" by blast
  have "gget (at_commitGrp act) h = Some v" using g(1) assms(2) by (simp add: gmap_ok_def)
  with o assms(1) show thesis by (intro that [of ord]) (auto simp: counting_def)
qed

lemma counting_in:
  "counting K W act \<Longrightarrow> ord \<in> set (bk_orders K) \<Longrightarrow>
     (to_pptID ord, if ord \<in> W then NOT_DECIDED else vote_of K ord) \<in> set (at_commitGrp act)"
  by (simp add: counting_def map_of_SomeD)

lemma counting_deciding:
  assumes c: "counting K W act" and W: "W \<subseteq> set (bk_orders K)"
  shows "deciding act \<longleftrightarrow> W = {}"
proof -
  let ?g = "at_commitGrp act"
  have "voted ?g \<le> length ?g" unfolding voted_def by (rule length_filter_le)
  moreover have "at_finished act = int (voted ?g)" using c by (simp add: counting_def active_ok_def)
  ultimately have "deciding act \<longleftrightarrow> voted ?g = length ?g" by (auto simp: deciding_def)
  also have "\<dots> \<longleftrightarrow> (\<forall>(h, v) \<in> set ?g. v \<noteq> NOT_DECIDED)"
    unfolding voted_def
    by (metis (no_types, lifting) filter_True length_filter_less less_irrefl)
  also have "\<dots> \<longleftrightarrow> W = {}"
  proof
    assume nd: "\<forall>(h, v) \<in> set ?g. v \<noteq> NOT_DECIDED"
    { fix ord
      assume "ord \<in> W"
      with counting_in [OF c, of ord] W have "(to_pptID ord, NOT_DECIDED) \<in> set ?g" by auto
      with nd have False by blast }
    then show "W = {}" by blast
  next
    assume "W = {}"
    then show "\<forall>(h, v) \<in> set ?g. v \<noteq> NOT_DECIDED"
      using vote_of_decided by (auto elim!: counting_mem [OF c]) (metis decisions_distinct)
  qed
  finally show ?thesis .
qed

lemma counting_decision:
  assumes K: "bookable K" and c: "counting K {} act"
  shows "at_decision act = outcome K"
proof -
  let ?g = "at_commitGrp act"
  have v: "snd ` set ?g = vote_of K ` set (bk_orders K)"
  proof (intro equalityI subsetI)
    fix v
    assume "v \<in> vote_of K ` set (bk_orders K)"
    then obtain ord where "ord \<in> set (bk_orders K)" "v = vote_of K ord" by blast
    with counting_in [OF c, of ord] show "v \<in> snd ` set ?g" by (force simp: image_iff)
  qed (auto elim!: counting_mem [OF c])
  have "at_decision act = decision_of ?g" using c by (simp add: counting_def active_ok_def)
  moreover have "T_ABORT \<in> snd ` set ?g \<longleftrightarrow> \<not> all_serve K"
    unfolding v by (auto simp: vote_of_def all_serve_def)
  moreover have "T_COMMIT \<in> snd ` set ?g" if "all_serve K"
    using that K unfolding v by (cases "bk_orders K") (auto simp: vote_of_def all_serve_def bookable_def)
  ultimately show ?thesis by (simp add: decision_of_def outcome_def)
qed

lemma counting_vote:
  assumes K: "bookable K" and c: "counting K W act" and u: "u \<in> W" "u \<in> set (bk_orders K)"
  shows "counting K (W - {u}) (vote_active act (to_pptID u) (vote_of K u))"
    and "gget (at_commitGrp act) (to_pptID u) = Some NOT_DECIDED"
proof -
  show nd: "gget (at_commitGrp act) (to_pptID u) = Some NOT_DECIDED" using c u by (simp add: counting_def)
  let ?act = "vote_active act (to_pptID u) (vote_of K u)"
  have "active_ok ?act"
    by (rule active_ok_vote [OF _ nd vote_of_decided]) (use c in \<open>simp add: counting_def\<close>)
  moreover have "set (gkeys (at_commitGrp ?act)) = to_pptID ` set (bk_orders K)"
    using gkeys_vote [OF nd] c by (simp add: counting_def)
  moreover have "at_pptMap ?act (to_pptID ord) = Some (to_pptID ord) \<and>
      gget (at_commitGrp ?act) (to_pptID ord) = Some (if ord \<in> W - {u} then NOT_DECIDED else vote_of K ord)"
    if o: "ord \<in> set (bk_orders K)" for ord
  proof (cases "ord = u")
    case True
    with c o show ?thesis by (simp add: counting_def vote_active_def)
  next
    case False
    then have "to_pptID ord \<noteq> to_pptID u" using bookable_inj [OF K o u(2)] by blast
    with c o False show ?thesis by (simp add: counting_def vote_active_def)
  qed
  ultimately show "counting K (W - {u}) ?act" unfolding counting_def by blast
qed

text \<open>Whom the decision goes to: the airlines that promised, each once.\<close>

lemma counting_final:
  assumes c: "counting K {} act" and ly: "tl_myhostport ly = bk_host K" and d: "at_decision act = outcome K"
  shows "\<exists>R calls. final_calls ly (bk_tran K) act = Some calls \<and> answers_of calls = [] \<and>
    calls_of calls = map (\<lambda>h. (h, decision_args K h)) R \<and> distinct R \<and>
    set R = {to_pptID ord | ord. ord \<in> set (bk_orders K) \<and> serves (airline_of K ord) ord}"
proof -
  let ?g = "filter (\<lambda>(h, v). v = T_COMMIT) (at_commitGrp act)"
  have ok: "active_ok act" using c by (simp add: counting_def)
  have p: "at_pptMap act h = Some h" if "(h, v) \<in> set ?g" for h v
    using that c by (auto elim!: counting_mem [OF c] simp: counting_def)
  have "calls_of (map (\<lambda>(h, v). final_call ly (bk_tran K) act h) xs) = map (\<lambda>h. (h, decision_args K h)) (map fst xs)"
    if "set xs \<subseteq> set ?g" for xs
    using that
  proof (induction xs)
    case (Cons x xs)
    obtain h v where x: "x = (h, v)" by fastforce
    with Cons.prems have "(h, v) \<in> set ?g" by auto
    from p [OF this] have "at_pptMap act h = Some h" .
    with Cons show ?case by (simp add: x final_call_def decision_args_def ly d)
  qed simp
  moreover have "distinct (map fst ?g)"
    using ok by (auto simp: active_ok_def gmap_ok_def intro: distinct_map_filter)
  moreover have "set (map fst ?g) = {to_pptID ord | ord. ord \<in> set (bk_orders K) \<and> serves (airline_of K ord) ord}"
  proof (intro set_eqI iffI)
    fix h
    assume "h \<in> set (map fst ?g)"
    then show "h \<in> {to_pptID ord | ord. ord \<in> set (bk_orders K) \<and> serves (airline_of K ord) ord}"
      by (auto elim!: counting_mem [OF c] simp: vote_of_def split: if_splits)
  next
    fix h
    assume "h \<in> {to_pptID ord | ord. ord \<in> set (bk_orders K) \<and> serves (airline_of K ord) ord}"
    then obtain ord where "ord \<in> set (bk_orders K)" "h = to_pptID ord" "vote_of K ord = T_COMMIT"
      by (auto simp: vote_of_def)
    with counting_in [OF c, of ord] show "h \<in> set (map fst ?g)" by (force simp: image_iff)
  qed
  ultimately show ?thesis using final_calls_result [OF ok, of ly "bk_tran K"] by (intro exI conjI) auto
qed

lemma set_without:
  "distinct (as @ u # bs) \<Longrightarrow> set (as @ bs) = set (as @ u # bs) - {u}"
  by auto

lemma collecting_vote:
  assumes c: "collecting K U C V s" and K: "bookable K" and i: "i < length (to_tm s)"
    and old: "oldTransactionMap (tm s) = []"
  shows "\<exists>as u bs r s'. U = [] \<and> V = as @ u # bs \<and> TransResponse_request (to_tm s ! i) 0 = Some r \<and>
    tm_done (s\<lparr>to_tm := list_without i (to_tm s)\<rparr>) (requestHandler (\<lambda>_. True) (tm s) (Some r)) = Some s' \<and>
    (if C = [] \<and> as @ bs = [] then \<exists>R. length R \<le> length (bk_orders K) \<and> informing K R s'
     else collecting K [] C (as @ bs) s')"
proof -
  have votes: "to_tm s = map (vote_args K) V" and U: "U = []" using c old by (auto simp: collecting_def split: if_splits)
  then have iV: "i < length V" using i by simp
  then obtain as u bs where V: "V = as @ u # bs" "V ! i = u" "list_without i V = as @ bs" by (rule list_without_split)
  have rest: "list_without i (to_tm s) = map (vote_args K) (as @ bs)" by (simp only: votes list_without_map V(3))
  have m: "to_tm s ! i = vote_args K u" using iV V(2) by (simp add: votes)
  let ?r = "mk_tl_request TL_TRANS_RESPONSE '''' (ArgsV (vote_args K u)) None"
  have r: "TransResponse_request (to_tm s ! i) 0 = Some ?r" by (simp add: m TransResponse_request_def vote_args_def)
  have dist: "distinct (C @ V)" and sub: "set (C @ V) \<subseteq> set (bk_orders K)" using c U by (auto simp: collecting_def)
  obtain act where act: "activeTransMap (tm s) (bk_tran K) = Some act" "counting K (set (C @ V)) act"
    using c U by (auto simp: collecting_def)
  let ?act = "vote_active act (to_pptID u) (vote_of K u)"
  have cf: "tl_myhostport (tm s) = bk_host K" "answered (tm s) = {}" "deferTransMap (tm s) (bk_tran K) = Some (bk_chan K)"
    "to_air s = map (\<lambda>ord. (to_pptID ord, order_args K ord)) C" "told s = []" "standing K (set C) s"
    using c U by (simp_all add: collecting_def)
  have u: "u \<in> set (C @ V)" "u \<in> set (bk_orders K)" using V sub by auto
  have W: "set (C @ V) - {u} = set (C @ as @ bs)" using dist V(1) by auto
  note cv = counting_vote [OF K act(2) u, unfolded W]
  have dec: "deciding ?act \<longleftrightarrow> C = [] \<and> as @ bs = []"
    using counting_deciding [OF cv(1)] sub V(1) by auto
  have va: "ta_TranID (vote_args K u) = bk_tran K" "ta_TM (vote_args K u) = to_pptID u"
    "ta_Vote (vote_args K u) = vote_of K u" by (simp_all add: vote_args_def)
  have h: "tr_value ?r = ArgsV (vote_args K u)" "activeTransMap (tm s) (ta_TranID (vote_args K u)) = Some act"
    by (simp_all add: va act(1))
  note handler = tl_responseTrans_active [OF h, unfolded va Let_def]
  have req: "requestHandler (\<lambda>_. True) (tm s) (Some ?r) = tl_responseTrans (\<lambda>_. True) (tm s) ?r"
    by (simp add: requestHandler_def old tl_transactionHandler_def)
  show ?thesis
  proof (cases "C = [] \<and> as @ bs = []")
    case False
    let ?s = "s\<lparr>to_tm := map (vote_args K) (as @ bs),
        tm := (tm s)\<lparr>activeTransMap := (activeTransMap (tm s))(bk_tran K \<mapsto> ?act)\<rparr>,
        to_air := to_air s, told := told s\<rparr>"
    have s1: "tm_done (s\<lparr>to_tm := list_without i (to_tm s)\<rparr>) (requestHandler (\<lambda>_. True) (tm s) (Some ?r)) = Some ?s"
      unfolding req rest handler using cv(2) dec False by (simp add: tm_done_def)
    have "distinct (C @ as @ bs)" "set (C @ as @ bs) \<subseteq> set (bk_orders K)" "C @ as @ bs \<noteq> []"
      using dist sub V(1) False by auto
    moreover have "standing K (set C) ?s" using cf(6) by (simp add: standing_def)
    ultimately have coll: "collecting K [] C (as @ bs) ?s"
      using cf(1-5) cv(1) old unfolding collecting_def by simp
    show ?thesis
      by (rule exI [of _ as], rule exI [of _ u], rule exI [of _ bs], rule exI [of _ ?r], rule exI [of _ ?s],
          intro conjI U V(1) r s1) (simp only: False if_False coll)
  next
    case True
    have c0: "counting K {} ?act" using cv(1) True by simp
    have d: "at_decision ?act = outcome K" by (rule counting_decision [OF K c0])
    from counting_final [OF c0 cf(1) d] obtain R calls where
      fc: "final_calls (tm s) (bk_tran K) ?act = Some calls" "answers_of calls = []"
        "calls_of calls = map (\<lambda>h. (h, decision_args K h)) R" "distinct R"
      and R: "set R = {to_pptID ord | ord. ord \<in> set (bk_orders K) \<and> serves (airline_of K ord) ord}"
      by blast
    let ?ly = "(tm s)\<lparr>activeTransMap := (activeTransMap (tm s))(bk_tran K := None),
        tl_oldLog := (tl_oldLog (tm s))(bk_tran K \<mapsto> outcome K), answered := {bk_chan K}\<rparr>"
    have ans: "answer_booking ((tm s)\<lparr>activeTransMap := (activeTransMap (tm s))(bk_tran K := None),
        tl_oldLog := (tl_oldLog (tm s))(bk_tran K \<mapsto> outcome K)\<rparr>) (bk_tran K) (outcome K) =
        Some (?ly, [ReplyBool (bk_chan K) (all_serve K)])"
      using cf(2,3) by (simp add: answer_booking_def outcome_def)
    have res: "requestHandler (\<lambda>_. True) (tm s) (Some ?r) = Some (?ly, calls @ [ReplyBool (bk_chan K) (all_serve K)])"
      unfolding req handler using cv(2) dec True fc(1) ans d by simp
    let ?s = "s\<lparr>to_tm := [], tm := ?ly, to_air := map (\<lambda>h. (h, decision_args K h)) R, told := [(bk_chan K, all_serve K)]\<rparr>"
    have s1: "tm_done (s\<lparr>to_tm := list_without i (to_tm s)\<rparr>) (requestHandler (\<lambda>_. True) (tm s) (Some ?r)) = Some ?s"
      unfolding res rest using cf(4,5) True by (simp add: tm_done_def fc)
    have st: "standing K {} s" using cf(6) True by simp
    have "\<exists>b. airs s (to_pptID ord) = Some b \<and> (if to_pptID ord \<in> set R then asked K ord b else settled K ord b)"
      if o: "ord \<in> set (bk_orders K)" for ord
    proof -
      obtain b where b: "airs s (to_pptID ord) = Some b" "asked K ord b" using st o by (auto simp: standing_def)
      have "settled K ord b" if "to_pptID ord \<notin> set R"
        using refused_settled [OF _ o b(2)] that o R by blast
      with b show ?thesis by auto
    qed
    then have inf: "informing K R ?s" using fc(4) R old by (simp add: informing_def)
    have "set R \<subseteq> set (map to_pptID (bk_orders K))" using R by auto
    then have "length R \<le> length (bk_orders K)"
      using card_mono [of "set (map to_pptID (bk_orders K))" "set R"] distinct_card [OF fc(4)]
        card_length [of "map to_pptID (bk_orders K)"] by simp
    with inf have inf1: "\<exists>R. length R \<le> length (bk_orders K) \<and> informing K R ?s" by blast
    show ?thesis
      by (rule exI [of _ as], rule exI [of _ u], rule exI [of _ bs], rule exI [of _ ?r], rule exI [of _ ?s],
          intro conjI U V(1) r s1) (simp add: True inf1)
  qed
qed

subsection \<open>Informing\<close>

lemma informing_call:
  assumes c: "informing K R s" and K: "bookable K" and i: "i < length (to_air s)" "to_air s ! i = (h, m)"
  shows "\<exists>as bs a s'. R = as @ h # bs \<and> airs s h = Some a \<and>
    air_done (s\<lparr>to_air := list_without i (to_air s)\<rparr>) h
       (PaxosTransaction (\<lambda>_. True) (\<lambda>_. NoConn) a m None True) = Some s' \<and> informing K (as @ bs) s'"
proof -
  let ?f = "\<lambda>h. (h, decision_args K h)"
  have air: "to_air s = map ?f R" using c by (simp add: informing_def)
  then have iR: "i < length R" using i by simp
  then obtain as g bs where R: "R = as @ g # bs" "R ! i = g" "list_without i R = as @ bs" by (rule list_without_split)
  have rest: "list_without i (to_air s) = map ?f (as @ bs)" by (simp only: air list_without_map R(3))
  have hm: "g = h" "m = decision_args K h" using i iR air R(2) by auto
  note R = R [unfolded hm]
  obtain ord where ord: "ord \<in> set (bk_orders K)" "h = to_pptID ord" "serves (airline_of K ord) ord"
    using c R(1) by (auto simp: informing_def)
  then obtain a where a: "airs s h = Some a" "asked K ord a" using c R(1) by (auto simp: informing_def)
  from airline_settles [OF K ord(1,3) a(2)] obtain b where b:
    "PaxosTransaction (\<lambda>_. True) (\<lambda>_. NoConn) a m None True = Some (b, [])" "settled K ord b" unfolding hm by blast
  let ?s = "s\<lparr>to_air := map ?f (as @ bs), airs := (airs s)(h \<mapsto> b), to_tm := []\<rparr>"
  have s1: "air_done (s\<lparr>to_air := list_without i (to_air s)\<rparr>) h
       (PaxosTransaction (\<lambda>_. True) (\<lambda>_. NoConn) a m None True) = Some ?s"
    unfolding rest using c by (simp add: air_done_def b informing_def)
  have d: "distinct (as @ bs)" "h \<notin> set (as @ bs)" using c R(1) by (auto simp: informing_def)
  have "\<exists>b. airs ?s (to_pptID x) = Some b \<and> (if to_pptID x \<in> set (as @ bs) then asked K x b else settled K x b)"
    if x: "x \<in> set (bk_orders K)" for x
  proof (cases "x = ord")
    case True
    with d b(2) ord(2) show ?thesis by simp
  next
    case False
    then have n: "to_pptID x \<noteq> h" using bookable_inj [OF K x ord(1)] ord(2) by blast
    obtain b where "airs s (to_pptID x) = Some b" "if to_pptID x \<in> set R then asked K x b else settled K x b"
      using c x by (auto simp: informing_def)
    with n R(1) show ?thesis by (intro exI [of _ b]) (simp split: if_splits)
  qed
  moreover have "set (as @ bs) \<subseteq> set R" using R(1) by auto
  ultimately have "informing K (as @ bs) ?s" using c d(1) unfolding informing_def by auto
  with R(1) a(1) s1 show ?thesis by blast
qed

subsection \<open>The whole booking\<close>

text \<open>The phase of the booking, with a bound on the events that are left.\<close>

definition phase :: "one_booking \<Rightarrow> nat \<Rightarrow> booking_net \<Rightarrow> bool" where
  "phase K n s \<longleftrightarrow>
     (\<exists>U C V. collecting K U C V s \<and> n = 3 * length U + 2 * length C + length V + length (bk_orders K)) \<or>
     (\<exists>R. informing K R s \<and> length R \<le> n)"

lemma phase_collecting:
  "collecting K U C V s \<Longrightarrow> 3 * length U + 2 * length C + length V + length (bk_orders K) = n \<Longrightarrow> phase K n s"
  by (auto simp: phase_def)

lemma phase_cases [consumes 1, case_names collecting informing]:
  assumes "phase K n s"
  obtains U C V where "collecting K U C V s" "n = 3 * length U + 2 * length C + length V + length (bk_orders K)"
  | R where "informing K R s" "length R \<le> n"
  using assms by (auto simp: phase_def)

lemma phase_informing: "informing K R s \<Longrightarrow> length R \<le> n \<Longrightarrow> phase K n s"
  by (auto simp: phase_def)

lemma phase_step:
  assumes p: "phase K n s" and K: "bookable K" and e: "is_arrival e" "quiet_step s e = Some s'"
  shows "\<exists>n' < n. phase K n' s'"
  using p
proof (cases rule: phase_cases)
  case (collecting U C V)
  note c = collecting(1) and n = collecting(2)
  from e show ?thesis
  proof (cases rule: arrival_cases)
    case send
    from collecting_send [OF c K send(2)] send(3) obtain u U1 where
      "U = u # U1" "collecting K U1 (C @ [u]) V s'" by auto
    with n phase_collecting [OF this(2) refl] show ?thesis by (intro exI conjI) auto
  next
    case (call i h m a)
    from collecting_call [OF c K call(2,3)] call(4,5) obtain as u bs where
      "C = as @ u # bs" "collecting K U (as @ bs) (V @ [u]) s'" by auto
    with n phase_collecting [OF this(2) refl] show ?thesis by (intro exI conjI) auto
  next
    case (vote i r)
    from collecting_vote [OF c K vote(2,3)] vote(4,5) obtain as u bs where U: "U = []" and V: "V = as @ u # bs"
      and s': "if C = [] \<and> as @ bs = [] then \<exists>R. length R \<le> length (bk_orders K) \<and> informing K R s'
        else collecting K [] C (as @ bs) s'" by auto
    show ?thesis
    proof (cases "C = [] \<and> as @ bs = []")
      case True
      with s' obtain R where R: "length R \<le> length (bk_orders K)" "informing K R s'" by auto
      from phase_informing [OF R(2,1)] n V show ?thesis by (intro exI conjI) auto
    next
      case False
      with s' have "collecting K [] C (as @ bs) s'" by simp
      from phase_collecting [OF this refl] n V U show ?thesis by (intro exI conjI) auto
    qed
  qed
next
  case (informing R)
  note c = informing(1) and n = informing(2)
  from e show ?thesis
  proof (cases rule: arrival_cases)
    case (call i h m a)
    from informing_call [OF c K call(2,3)] call(4,5) obtain as bs where
      "R = as @ h # bs" "informing K (as @ bs) s'" by auto
    with n phase_informing [OF this(2) order_refl] show ?thesis by (intro exI conjI) auto
  qed (use c in \<open>simp_all add: informing_def\<close>)
qed

lemma phase_run:
  "phase K n s \<Longrightarrow> bookable K \<Longrightarrow> list_all is_arrival es \<Longrightarrow> run quiet_step s es = Some s' \<Longrightarrow>
     \<exists>n'. phase K n' s' \<and> n' + length es \<le> n"
proof (induction es arbitrary: n s)
  case Nil
  then show ?case by auto
next
  case (Cons e es)
  then obtain s1 where s1: "quiet_step s e = Some s1" "run quiet_step s1 es = Some s'"
    by (auto split: option.splits)
  from phase_step [OF Cons.prems(1,2) _ s1(1)] Cons.prems(3) obtain n1 where n1: "n1 < n" "phase K n1 s1" by auto
  from Cons.IH [OF n1(2) Cons.prems(2) _ s1(2)] Cons.prems(3) obtain n' where "phase K n' s'" "n' + length es \<le> n1" by auto
  with n1(1) show ?case by (intro exI [of _ n']) simp
qed

text \<open>A booking that is not over can go on.\<close>

definition finished :: "one_booking \<Rightarrow> booking_net \<Rightarrow> bool" where
  "finished K s \<longleftrightarrow> told s = [(bk_chan K, all_serve K)] \<and> to_air s = [] \<and> to_tm s = [] \<and>
     (\<forall>ord \<in> set (bk_orders K). \<exists>b. airs s (to_pptID ord) = Some b \<and> settled K ord b)"

lemma phase_progress:
  assumes p: "phase K n s" and K: "bookable K"
  shows "finished K s \<or> (\<exists>e s'. is_arrival e \<and> quiet_step s e = Some s')"
  using p
proof (cases rule: phase_cases)
  case (collecting U C V)
  note c = collecting(1)
  show ?thesis
  proof (cases "U = []")
    case False
    then have ne: "oldTransactionMap (tm s) \<noteq> []" using c by (simp add: collecting_def)
    with collecting_send [OF c K ne] have "\<exists>s'. quiet_step s SendOrder = Some s'" by (auto simp: quiet_step_def)
    then show ?thesis using is_arrival_simps(1) by blast
  next
    case U: True
    show ?thesis
    proof (cases "C = []")
      case False
      then have i: "0 < length (to_air s)" using c by (simp add: collecting_def)
      obtain h m where hm: "to_air s ! 0 = (h, m)" by fastforce
      from collecting_call [OF c K i hm] have "\<exists>s'. quiet_step s (CallArrives 0 True) = Some s'"
        using i hm by (auto simp: quiet_step_def)
      then show ?thesis using is_arrival_simps(2) by blast
    next
      case True
      with U c have i: "0 < length (to_tm s)" "oldTransactionMap (tm s) = []" by (auto simp: collecting_def)
      from collecting_vote [OF c K i] have "\<exists>s'. quiet_step s (VoteArrives 0 True) = Some s'"
        using i by (auto simp: quiet_step_def)
      then show ?thesis using is_arrival_simps(3) by blast
    qed
  qed
next
  case (informing R)
  note c = informing(1)
  show ?thesis
  proof (cases "R = []")
    case True
    with c show ?thesis by (simp add: informing_def finished_def)
  next
    case False
    then have i: "0 < length (to_air s)" using c by (simp add: informing_def)
    obtain h m where hm: "to_air s ! 0 = (h, m)" by fastforce
    from informing_call [OF c K i hm] have "\<exists>s'. quiet_step s (CallArrives 0 True) = Some s'"
      using i hm by (auto simp: quiet_step_def)
    then show ?thesis using is_arrival_simps(2) by blast
  qed
qed

lemma phase_start:
  assumes K: "bookable K"
  shows "\<exists>s. quiet_step (init_booking (bk_host K) (bk_airs K)) (Book (bk_tran K) (bk_orders K) (bk_chan K)) = Some s \<and>
    phase K (4 * length (bk_orders K)) s"
proof -
  let ?os = "bk_orders K"
  have act: "new_active ?os = \<lparr>at_decision = NOT_DECIDED, at_finished = 0,
      at_pptMap = fold (\<lambda>order m. m(to_pptID order \<mapsto> to_conn order)) ?os Map.empty,
      at_commitGrp = fold (\<lambda>order g. gput (to_pptID order) NOT_DECIDED g) ?os []\<rparr>"
    by (simp add: new_active_def new_group_def)
  let ?s = "\<lparr>tm = (NewTranLayer (bk_host K))
        \<lparr>oldTransactionMap := [(bk_tran K, \<lparr>ot_orderList = ?os, ot_pptList = map to_pptID ?os\<rparr>)],
         activeTransMap := Map.empty(bk_tran K \<mapsto> new_active ?os),
         deferTransMap := Map.empty(bk_tran K \<mapsto> bk_chan K)\<rparr>,
      airs = bk_airs K, to_tm = [], to_air = [], told = [],
      parts = Map.empty(bk_tran K \<mapsto> to_pptID ` set ?os)\<rparr>"
  have ne: "?os \<noteq> []" "distinct (map to_pptID ?os)" using K by (simp_all add: bookable_def)
  have conn: "to_conn ord = to_pptID ord" if "ord \<in> set ?os" for ord using bookable_airline(6) [OF K that] .
  have "list_all (\<lambda>order. to_conn order = to_pptID order) ?os" using conn by (simp add: list_all_iff)
  then have s: "quiet_step (init_booking (bk_host K) (bk_airs K)) (Book (bk_tran K) ?os (bk_chan K)) = Some ?s"
    by (simp add: quiet_step_def init_booking_def NewTranLayer_def requestHandler_def tl_transactionHandler_def
        tl_initTrans_def Let_def tm_done_def act)
  have ppt: "fold (\<lambda>order m. m(to_pptID order \<mapsto> to_conn order)) os m h = Some h"
    if "set os \<subseteq> set ?os" "m h = Some h \<or> h \<in> to_pptID ` set os" for os m h
    using that by (induction os arbitrary: m) (auto simp: conn)
  have "gget (at_commitGrp (new_active ?os)) (to_pptID ord) = Some NOT_DECIDED" if "ord \<in> set ?os" for ord
  proof -
    have "to_pptID ord \<in> set (gkeys (new_group ?os))" using that new_group_ok(3) [of ?os] by simp
    then obtain v where v: "gget (new_group ?os) (to_pptID ord) = Some v" by (metis gget_None_iff not_None_eq)
    then have "v \<in> snd ` set (new_group ?os)" by (metis image_eqI map_of_SomeD snd_conv)
    with v new_group_ok(2) [of ?os] show ?thesis by (auto simp: new_active_def)
  qed
  moreover have "at_pptMap (new_active ?os) (to_pptID ord) = Some (to_pptID ord)" if "ord \<in> set ?os" for ord
    using ppt [of ?os Map.empty "to_pptID ord"] that by (simp add: new_active_def)
  moreover have "set (gkeys (at_commitGrp (new_active ?os))) = to_pptID ` set ?os"
    using new_group_ok(3) [of ?os] by (simp add: new_active_def)
  ultimately have "counting K (set ?os) (new_active ?os)"
    using active_ok_new [of ?os] unfolding counting_def by simp
  moreover have "standing K (set ?os) ?s" using bookable_airline(1) [OF K] by (simp add: standing_def)
  ultimately have "collecting K ?os [] [] ?s"
    using ne unfolding collecting_def by (simp add: NewTranLayer_def distinct_map)
  from phase_collecting [OF this] s show ?thesis by simp
qed

subsection \<open>The theorem\<close>

text \<open>On arrivals there is nothing to expire.\<close>

lemma quiet_arrival: "is_arrival e \<Longrightarrow> quiet_step s e = tp_step s e"
  by (cases e) (simp_all add: quiet_step_def is_arrival_def)

lemma quiet_arrivals: "list_all is_arrival es \<Longrightarrow> run quiet_step s es = run tp_step s es"
  by (induction es arbitrary: s) (auto simp: quiet_arrival split: option.splits)

lemma quiet_booking:
  "list_all is_arrival es \<Longrightarrow> run quiet_step s (Book t os c # es) = run tp_step s (Book t os c # es)"
  by (auto simp: quiet_step_def quiet_arrivals simp del: tp_step.simps split: option.splits)

text \<open>C5: A booking that is the only one of its manager, none of whose messages is lost and whose timer
  does not fire before it is over, ends with the right outcome. After the booking is asked for, the
  events are only: the manager sends its next order, a call or a vote arrives, in any order
  (\<open>is_arrival\<close>). Over any number of airlines this takes at most four events for each airline; as
  long as the booking is not over some of these events is possible; and when it is over the
  client has been told once, yes exactly when every airline could give what was asked, the
  seats are then taken at each and at none otherwise, and the flights of the airlines that promised
  are unlocked. With the timer the outcome can be another one (\<open>expiry_breaks_atomicity\<close>).\<close>

theorem booking_outcome:
  assumes K: "bookable K" and es: "list_all is_arrival es"
    and run: "run tp_step (init_booking (bk_host K) (bk_airs K))
      (Book (bk_tran K) (bk_orders K) (bk_chan K) # es) = Some s"
  shows "length es \<le> 4 * length (bk_orders K) \<and>
    (finished K s \<or> (\<exists>e s'. is_arrival e \<and> tp_step s e = Some s'))"
proof -
  obtain s0 where s0: "quiet_step (init_booking (bk_host K) (bk_airs K))
      (Book (bk_tran K) (bk_orders K) (bk_chan K)) = Some s0" "phase K (4 * length (bk_orders K)) s0"
    using phase_start [OF K] by blast
  with run have "run quiet_step s0 es = Some s" unfolding quiet_booking [OF es, symmetric] by simp
  from phase_run [OF s0(2) K es this] obtain n where n: "phase K n s" "n + length es \<le> 4 * length (bk_orders K)" by blast
  from n(2) phase_progress [OF n(1) K] show ?thesis by (auto simp: quiet_arrival simp del: tp_step.simps)
qed

definition half_sold_booking :: one_booking where
  "half_sold_booking = \<lparr>bk_tran = ''t'', bk_chan = 7, bk_host = ''tm'',
     bk_orders = [seat_order ''A'' ''A-1'' 1, seat_order ''B'' ''B-1'' 1],
     bk_airs = Map.empty(''A'' \<mapsto> one_flight ''A'' ''A-1'' 1, ''B'' \<mapsto> one_flight ''B'' ''B-1'' 0)\<rparr>"

lemma half_sold_bookable: "bookable half_sold_booking"
  by (auto simp: bookable_def half_sold_booking_def seat_order_def air_inv_one_flight)
     (simp_all add: one_flight_def NewAirlineServer_def)

text \<open>One airline is sold out: the other one promises, and is told to abort.\<close>

theorem booking_outcome_witness:
  "\<exists>s. run tp_step (init_booking ''tm'' (bk_airs half_sold_booking))
      (Book ''t'' (bk_orders half_sold_booking) 7 #
       [SendOrder, CallArrives 0 True, SendOrder, VoteArrives 0 True, CallArrives 0 True, VoteArrives 0 True]) = Some s \<and>
    (finished half_sold_booking s \<or> (\<exists>e s'. is_arrival e \<and> tp_step s e = Some s'))"
proof -
  let ?es = "[SendOrder, CallArrives 0 True, SendOrder, VoteArrives 0 True, CallArrives 0 True, VoteArrives 0 True]"
  have k: "bk_host half_sold_booking = ''tm''" "bk_tran half_sold_booking = ''t''" "bk_chan half_sold_booking = 7"
    by (simp_all add: half_sold_booking_def)
  have "run tp_step (init_booking ''tm'' (bk_airs half_sold_booking))
      (Book ''t'' (bk_orders half_sold_booking) 7 # ?es) \<noteq> None" by code_simp
  then obtain s where s: "run tp_step (init_booking ''tm'' (bk_airs half_sold_booking))
      (Book ''t'' (bk_orders half_sold_booking) 7 # ?es) = Some s" by blast
  with booking_outcome [OF half_sold_bookable, of ?es s] show ?thesis unfolding k by auto
qed

end
