(* ===== verification/Storage_Rpc.thy ===== *)
theory Storage_Rpc
  imports Storage_Server
begin

section \<open>Remote calls to a storage server (official/storagerpc/storagerpc.go)\<close>

text \<open>
  A remote call names its method. The standard library finds it among the exported methods of
  the object that the server program registered, here \<open>StorageRPC\<close>, which passes every call on
  to a \<open>StorageInterface\<close>; an unknown name, or arguments of another type, is an error that the
  caller gets. The method runs in a goroutine of its own: \<open>server_call\<close> is what it still has to
  do, an answer or a request to \<open>appHandler\<close> and what follows when that is answered. A panic is
  \<open>None\<close>. \<open>storage_interface\<close> is the storage server of theory Storage\_Server.
\<close>

subsection \<open>Calls\<close>

datatype storage_args =
    ArgsGet storage_GetArgs
  | ArgsPut string string
  | ArgsRegister Node
  | ArgsGetServers

datatype storage_answer =
    A_Get "string storage_GetReply"
  | A_GetList "string list storage_GetReply"
  | A_Put storage_status
  | A_Register RegisterReply

datatype server_call =
    Answer storage_answer
  | Await cacheReq "storage_reply \<Rightarrow> server_call option"

text \<open>A method gets its arguments and the number of its reply channel.\<close>

type_synonym ('s, 'a) storage_method = "'s \<Rightarrow> 'a \<Rightarrow> nat \<Rightarrow> ('s \<times> server_call) option"

record 's StorageInterface =
  si_RegisterServer :: "('s, Node) storage_method"
  si_GetServers :: "('s, unit) storage_method"
  si_Get :: "('s, storage_GetArgs) storage_method"
  si_GetList :: "('s, storage_GetArgs) storage_method"
  si_Put :: "('s, string \<times> string) storage_method"
  si_AppendToList :: "('s, string \<times> string) storage_method"
  si_RemoveFromList :: "('s, string \<times> string) storage_method"

subsection \<open>The adapter\<close>

record 's StorageRPC =
  srpc_ss :: "'s StorageInterface"

definition NewStorageRPC :: "'s StorageInterface \<Rightarrow> 's StorageRPC" where
  "NewStorageRPC ss = \<lparr>srpc_ss = ss\<rparr>"

definition StorageRPC_Get :: "'s StorageRPC \<Rightarrow> ('s, storage_GetArgs) storage_method" where
  "StorageRPC_Get srpc = si_Get (srpc_ss srpc)"

definition StorageRPC_GetList :: "'s StorageRPC \<Rightarrow> ('s, storage_GetArgs) storage_method" where
  "StorageRPC_GetList srpc = si_GetList (srpc_ss srpc)"

definition StorageRPC_Put :: "'s StorageRPC \<Rightarrow> ('s, string \<times> string) storage_method" where
  "StorageRPC_Put srpc = si_Put (srpc_ss srpc)"

definition StorageRPC_AppendToList :: "'s StorageRPC \<Rightarrow> ('s, string \<times> string) storage_method" where
  "StorageRPC_AppendToList srpc = si_AppendToList (srpc_ss srpc)"

definition StorageRPC_RemoveFromList :: "'s StorageRPC \<Rightarrow> ('s, string \<times> string) storage_method" where
  "StorageRPC_RemoveFromList srpc = si_RemoveFromList (srpc_ss srpc)"

definition StorageRPC_Register :: "'s StorageRPC \<Rightarrow> ('s, Node) storage_method" where
  "StorageRPC_Register srpc = si_RegisterServer (srpc_ss srpc)"

definition StorageRPC_GetServers :: "'s StorageRPC \<Rightarrow> ('s, unit) storage_method" where
  "StorageRPC_GetServers srpc = si_GetServers (srpc_ss srpc)"

lemmas storage_rpc_defs = StorageRPC_Get_def StorageRPC_GetList_def StorageRPC_Put_def
  StorageRPC_AppendToList_def StorageRPC_RemoveFromList_def StorageRPC_Register_def StorageRPC_GetServers_def
  NewStorageRPC_def

text \<open>
  \<open>rpc.Register(srpc)\<close>: the methods that a call can name. The outer \<open>None\<close> is the error for the
  caller, the inner one a panic of the server.
\<close>

definition storage_dispatch ::
  "'s StorageRPC \<Rightarrow> 's \<Rightarrow> string \<Rightarrow> storage_args \<Rightarrow> nat \<Rightarrow> ('s \<times> server_call) option option" where
  "storage_dispatch srpc s name args c =
     (case args of
        ArgsGet a \<Rightarrow>
          (if name = ''StorageRPC.Get'' then Some (StorageRPC_Get srpc s a c)
           else if name = ''StorageRPC.GetList'' then Some (StorageRPC_GetList srpc s a c)
           else None)
      | ArgsPut k v \<Rightarrow>
          (if name = ''StorageRPC.Put'' then Some (StorageRPC_Put srpc s (k, v) c)
           else if name = ''StorageRPC.AppendToList'' then Some (StorageRPC_AppendToList srpc s (k, v) c)
           else if name = ''StorageRPC.RemoveFromList'' then Some (StorageRPC_RemoveFromList srpc s (k, v) c)
           else None)
      | ArgsRegister n \<Rightarrow>
          (if name = ''StorageRPC.Register'' then Some (StorageRPC_Register srpc s n c) else None)
      | ArgsGetServers \<Rightarrow>
          (if name = ''StorageRPC.GetServers'' then Some (StorageRPC_GetServers srpc s () c) else None))"

subsection \<open>The storage server behind the adapter\<close>

text \<open>The bodies of the exported methods, put together from their steps in theory Storage\_Server.\<close>

definition call_Get :: "(Storageserver, storage_GetArgs) storage_method" where
  "call_Get ss args c =
     map_option (\<lambda>first. (ss,
         case first of
           Inl reply \<Rightarrow> Answer (A_Get reply)
         | Inr r \<Rightarrow> Await r (\<lambda>v. map_option (\<lambda>next.
               case next of
                 Inl reply \<Rightarrow> Answer (A_Get reply)
               | Inr (reply, r1) \<Rightarrow> Await r1 (\<lambda>w. map_option (\<lambda>reply1. Answer (A_Get reply1)) (Get_lease reply w)))
             (Get_value args c v))))
       (Get_begin ss args c)"

definition call_GetList :: "(Storageserver, storage_GetArgs) storage_method" where
  "call_GetList ss args c =
     map_option (\<lambda>first. (ss,
         case first of
           Inl reply \<Rightarrow> Answer (A_GetList reply)
         | Inr r \<Rightarrow> Await r (\<lambda>v. map_option (\<lambda>next.
               case next of
                 Inl reply \<Rightarrow> Answer (A_GetList reply)
               | Inr (reply, r1) \<Rightarrow> Await r1 (\<lambda>w. map_option (\<lambda>reply1. Answer (A_GetList reply1)) (Get_lease reply w)))
             (GetList_value args c v))))
       (GetList_begin ss args c)"

definition call_Put :: "(Storageserver, string \<times> string) storage_method" where
  "call_Put ss args c =
     Some (ss, Await (Put_begin (fst args) (snd args) c) (\<lambda>v. Some (Answer (A_Put (Put_reply v)))))"

definition call_AppendToList :: "(Storageserver, string \<times> string) storage_method" where
  "call_AppendToList ss args c =
     Some (ss, Await (AppendToList_begin (fst args) (snd args) c)
                 (\<lambda>v. map_option (\<lambda>st. Answer (A_Put st)) (AppendToList_reply v)))"

definition call_RemoveFromList :: "(Storageserver, string \<times> string) storage_method" where
  "call_RemoveFromList ss args c =
     Some (ss, Await (RemoveFromList_begin (fst args) (snd args) c)
                 (\<lambda>v. map_option (\<lambda>st. Answer (A_Put st)) (RemoveFromList_reply v)))"

definition storage_interface :: "Storageserver StorageInterface" where
  "storage_interface =
     \<lparr>si_RegisterServer = (\<lambda>ss n c. map_option (\<lambda>(ss1, reply). (ss1, Answer (A_Register reply))) (RegisterServer ss n)),
      si_GetServers = (\<lambda>ss _ c. Some (ss, Answer (A_Register (GetServers ss)))),
      si_Get = call_Get, si_GetList = call_GetList, si_Put = call_Put,
      si_AppendToList = call_AppendToList, si_RemoveFromList = call_RemoveFromList\<rparr>"

definition storage_call ::
  "Storageserver \<Rightarrow> string \<Rightarrow> storage_args \<Rightarrow> nat \<Rightarrow> (Storageserver \<times> server_call) option option" where
  "storage_call = storage_dispatch (NewStorageRPC storage_interface)"

end
