(* ===== verification/Storage_Test.thy ===== *)
theory Storage_Test
  imports Storage_Rpc
begin

section \<open>The conformance tests of the storage server (official/storagetest/storagetest.go)\<close>

text \<open>
  \<open>storagetest\<close> is a client of a storage server that also answers the revocations of its own
  leases, after a delay it chooses. A test is a sequence of remote calls and checks; some of its
  steps run in goroutines of their own that talk over channels. A \<open>goroutine\<close> is what remains to
  be done: remote calls, sleeps, sends and receives with what follows each of them, and reads and
  writes of the shared variables \<open>test_vars\<close>. A function that may block takes its continuation
  as its last argument, and \<open>return\<close> is a call of it; the tests get the continuation of their
  caller. Theory Storage\_Test\_Run runs goroutines against a server.

  Durations are in milliseconds, a factor of \<open>SetDelay\<close> in thousandths; printing appends to
  \<open>printed\<close>; an error is the text of its message.
\<close>

subsection \<open>Shared variables\<close>

record StorageTester =
  st_myhostport :: string
  recv_revoke :: "string \<Rightarrow> bool"
  comp_revoke :: "string \<Rightarrow> bool"
  st_delay :: nat

text \<open>
  \<open>captured\<close> holds the variables \<open>replyP, err\<close> that the goroutines of one \<open>delayedRevoke\<close> share, by
  the number of its channel; \<open>clock\<close> is the time.
\<close>

record test_vars =
  st :: StorageTester
  printed :: "string list"
  passCount :: nat
  failCount :: nat
  captured :: "nat \<Rightarrow> storage_status \<times> string option"
  clock :: nat

text \<open>\<open>&StorageTester{}\<close> with its maps; the dialled server and the listener are the run's.\<close>

definition initStorageTester :: "bool \<Rightarrow> string \<Rightarrow> StorageTester option" where
  "initStorageTester connected host =
     (if \<not> connected then None
      else Some \<lparr>st_myhostport = host, recv_revoke = (\<lambda>_. False), comp_revoke = (\<lambda>_. False), st_delay = 0\<rparr>)"

definition init_vars :: "StorageTester \<Rightarrow> test_vars" where
  "init_vars tester = \<lparr>st = tester, printed = [], passCount = 0, failCount = 0,
     captured = (\<lambda>_. (S_OK, None)), clock = 0\<rparr>"

definition lease_ms :: nat where
  "lease_ms = nat ((LEASE_SECONDS + LEASE_GUARD_SECONDS) * 1000)"

definition ResetDelay :: "test_vars \<Rightarrow> test_vars" where
  "ResetDelay t = t\<lparr>st := (st t)\<lparr>st_delay := 0\<rparr>\<rparr>"

definition SetDelay :: "nat \<Rightarrow> test_vars \<Rightarrow> test_vars" where
  "SetDelay f t = t\<lparr>st := (st t)\<lparr>st_delay := f * nat (LEASE_SECONDS + LEASE_GUARD_SECONDS)\<rparr>\<rparr>"

text \<open>\<open>RevokeLease\<close> has two steps; between them it sleeps for \<open>st_delay\<close>.\<close>

definition tester_RevokeLease_begin :: "string \<Rightarrow> test_vars \<Rightarrow> test_vars" where
  "tester_RevokeLease_begin key t =
     t\<lparr>st := (st t)\<lparr>recv_revoke := (recv_revoke (st t))(key := True),
                    comp_revoke := (comp_revoke (st t))(key := False)\<rparr>\<rparr>"

definition tester_RevokeLease_end :: "string \<Rightarrow> test_vars \<Rightarrow> test_vars \<times> storage_status" where
  "tester_RevokeLease_end key t =
     (t\<lparr>st := (st t)\<lparr>comp_revoke := (comp_revoke (st t))(key := True)\<rparr>\<rparr>, S_OK)"

subsection \<open>Goroutines\<close>

datatype goroutine =
    Finish
  | Read "test_vars \<Rightarrow> goroutine"
  | Write "test_vars \<Rightarrow> test_vars" goroutine
  | Call string storage_args "storage_answer + string \<Rightarrow> goroutine"
  | Sleep nat goroutine
  | Spawn goroutine goroutine
  | MakeChan "nat \<Rightarrow> goroutine"
  | SendTo nat bool goroutine
  | Receive nat "bool \<Rightarrow> goroutine"
  | SelectAfter nat nat "bool option \<Rightarrow> goroutine"

definition fail :: "string \<Rightarrow> goroutine \<Rightarrow> goroutine" where
  "fail msg g = Write (\<lambda>t. t\<lparr>printed := printed t @ [msg], failCount := failCount t + 1\<rparr>) g"

definition pass :: "goroutine \<Rightarrow> goroutine" where
  "pass g = Write (\<lambda>t. t\<lparr>printed := printed t @ [''PASS''], passCount := passCount t + 1\<rparr>) g"

text \<open>\<open>if check(...) { return }\<close> and a check that is written out in the test.\<close>

definition bail :: "((bool \<Rightarrow> goroutine) \<Rightarrow> goroutine) \<Rightarrow> goroutine \<Rightarrow> goroutine \<Rightarrow> goroutine" where
  "bail check ret rest = check (\<lambda>bad. if bad then ret else rest)"

definition fail_if :: "bool \<Rightarrow> string \<Rightarrow> goroutine \<Rightarrow> goroutine \<Rightarrow> goroutine" where
  "fail_if wrong msg ret rest = (if wrong then fail msg ret else rest)"

subsection \<open>Helper functions to test a single storage server\<close>

definition st_GetServers :: "(RegisterReply \<Rightarrow> string option \<Rightarrow> goroutine) \<Rightarrow> goroutine" where
  "st_GetServers k =
     Call ''StorageRPC.GetServers'' ArgsGetServers
       (\<lambda>a. case a of Inl (A_Register r) \<Rightarrow> k r None | Inl _ \<Rightarrow> k zero_RegisterReply None
          | Inr err \<Rightarrow> k zero_RegisterReply (Some err))"

definition st_RegisterServer :: "32 word \<Rightarrow> (RegisterReply \<Rightarrow> string option \<Rightarrow> goroutine) \<Rightarrow> goroutine" where
  "st_RegisterServer myID k =
     Read (\<lambda>t. Call ''StorageRPC.Register'' (ArgsRegister \<lparr>HostPort = st_myhostport (st t), NodeID = myID\<rparr>)
       (\<lambda>a. case a of Inl (A_Register r) \<Rightarrow> k r None | Inl _ \<Rightarrow> k zero_RegisterReply None
          | Inr err \<Rightarrow> k zero_RegisterReply (Some err)))"

definition put_reply :: "(storage_status \<Rightarrow> string option \<Rightarrow> goroutine) \<Rightarrow> storage_answer + string \<Rightarrow> goroutine" where
  "put_reply k a = (case a of Inl (A_Put status) \<Rightarrow> k status None | Inl _ \<Rightarrow> k S_OK None | Inr err \<Rightarrow> k S_OK (Some err))"

definition st_Put :: "string \<Rightarrow> string \<Rightarrow> (storage_status \<Rightarrow> string option \<Rightarrow> goroutine) \<Rightarrow> goroutine" where
  "st_Put key v k = Call ''StorageRPC.Put'' (ArgsPut key v) (put_reply k)"

definition st_RemoveFromList :: "string \<Rightarrow> string \<Rightarrow> (storage_status \<Rightarrow> string option \<Rightarrow> goroutine) \<Rightarrow> goroutine" where
  "st_RemoveFromList key removeitem k = Call ''StorageRPC.RemoveFromList'' (ArgsPut key removeitem) (put_reply k)"

definition st_AppendToList :: "string \<Rightarrow> string \<Rightarrow> (storage_status \<Rightarrow> string option \<Rightarrow> goroutine) \<Rightarrow> goroutine" where
  "st_AppendToList key newitem k = Call ''StorageRPC.AppendToList'' (ArgsPut key newitem) (put_reply k)"

definition st_Get ::
  "string \<Rightarrow> bool \<Rightarrow> (string storage_GetReply \<Rightarrow> string option \<Rightarrow> goroutine) \<Rightarrow> goroutine" where
  "st_Get key wantlease k =
     (let zero = \<lparr>sg_Status = S_OK, sg_Value = '''', sg_Lease = no_lease\<rparr> in
      Read (\<lambda>t. Call ''StorageRPC.Get''
          (ArgsGet \<lparr>ga_Key = key, WantLease = wantlease, LeaseClient = st_myhostport (st t)\<rparr>)
        (\<lambda>a. case a of Inl (A_Get r) \<Rightarrow> k r None | Inl _ \<Rightarrow> k zero None | Inr err \<Rightarrow> k zero (Some err))))"

definition st_GetList ::
  "string \<Rightarrow> bool \<Rightarrow> (string list storage_GetReply \<Rightarrow> string option \<Rightarrow> goroutine) \<Rightarrow> goroutine" where
  "st_GetList key wantlease k =
     (let zero = \<lparr>sg_Status = S_OK, sg_Value = [], sg_Lease = no_lease\<rparr> in
      Read (\<lambda>t. Call ''StorageRPC.GetList''
          (ArgsGet \<lparr>ga_Key = key, WantLease = wantlease, LeaseClient = st_myhostport (st t)\<rparr>)
        (\<lambda>a. case a of Inl (A_GetList r) \<Rightarrow> k r None | Inl _ \<Rightarrow> k zero None | Inr err \<Rightarrow> k zero (Some err))))"

subsection \<open>Checks\<close>

fun status_code :: "storage_status \<Rightarrow> int" where
  "status_code S_OK = 0"
| "status_code EKEYNOTFOUND = 1"
| "status_code EITEMNOTFOUND = 2"
| "status_code EWRONGSERVER = 3"
| "status_code EPUTFAILED = 4"
| "status_code EITEMEXISTS = 5"

definition checkErrorStatus ::
  "string option \<Rightarrow> storage_status \<Rightarrow> storage_status \<Rightarrow> (bool \<Rightarrow> goroutine) \<Rightarrow> goroutine" where
  "checkErrorStatus err status expectedStatus k =
     (if err \<noteq> None then fail ''FAIL: unexpected error returned'' (k True)
      else if status \<noteq> expectedStatus
      then fail (''FAIL: incorrect status '' @ Itoa (status_code status) @ '', expected status '' @
                 Itoa (status_code expectedStatus)) (k True)
      else k False)"

text \<open>\<open>Fprintln\<close> does not format: the directive is printed, and then the error.\<close>

definition checkError :: "string option \<Rightarrow> bool \<Rightarrow> (bool \<Rightarrow> goroutine) \<Rightarrow> goroutine" where
  "checkError err expectError k =
     (if expectError
      then (if err = None then fail ''FAIL: error should be returned'' (k True) else k False)
      else (case err of
              Some e \<Rightarrow> fail (''FAIL: unexpected error returned (%s) '' @ e) (k True)
            | None \<Rightarrow> k False))"

text \<open>How \<open>%v\<close> prints a list of strings and \<open>Fprintln\<close> an error.\<close>

definition show_list :: "string list \<Rightarrow> string" where
  "show_list xs = ''['' @ join '' '' xs @ '']''"

definition show_err :: "string option \<Rightarrow> string" where
  "show_err err = (case err of None \<Rightarrow> ''<nil>'' | Some e \<Rightarrow> e)"

definition checkList :: "string list \<Rightarrow> string list \<Rightarrow> (bool \<Rightarrow> goroutine) \<Rightarrow> goroutine" where
  "checkList xs expectedList k =
     (let msg = ''FAIL: incorrect list '' @ show_list xs @ '', expected list '' @ show_list expectedList in
      if length xs \<noteq> length expectedList then fail msg (k True)
      else if list_ex (\<lambda>s. \<not> List.member xs s) expectedList then fail msg (k True)
      else k False)"

text \<open>We treat a remote call finished in half a second as in time.\<close>

definition isTimeOK :: "nat \<Rightarrow> bool" where
  "isTimeOK d \<longleftrightarrow> d < 500"

definition time_Now :: "(nat \<Rightarrow> goroutine) \<Rightarrow> goroutine" where
  "time_Now k = Read (\<lambda>t. k (clock t))"

definition time_Since :: "nat \<Rightarrow> (nat \<Rightarrow> goroutine) \<Rightarrow> goroutine" where
  "time_Since ts k = Read (\<lambda>t. k (clock t - ts))"

definition cacheKey :: "string \<Rightarrow> (bool \<Rightarrow> goroutine) \<Rightarrow> goroutine" where
  "cacheKey key k =
     st_Put key ''old-value'' (\<lambda>replyP err.
     bail (checkErrorStatus err replyP S_OK) (k True) (
     st_Get key True (\<lambda>replyG err.
     bail (checkErrorStatus err (sg_Status replyG) S_OK) (k True) (
     fail_if (\<not> Granted (sg_Lease replyG)) ''FAIL: Failed to get lease'' (k True) (
     k False)))))"

definition cacheKeyList :: "string \<Rightarrow> (bool \<Rightarrow> goroutine) \<Rightarrow> goroutine" where
  "cacheKeyList key k =
     st_AppendToList key ''old-value'' (\<lambda>replyP err.
     bail (checkErrorStatus err replyP S_OK) (k True) (
     st_GetList key True (\<lambda>replyL err.
     bail (checkErrorStatus err (sg_Status replyL) S_OK) (k True) (
     fail_if (\<not> Granted (sg_Lease replyL)) ''FAIL: Failed to get lease'' (k True) (
     k False)))))"

subsection \<open>Initialization\<close>

definition testInitStorageServers :: "int \<Rightarrow> 32 word \<Rightarrow> goroutine \<Rightarrow> goroutine" where
  "testInitStorageServers numServer myID ret =
     st_GetServers (\<lambda>replyR err.
     bail (checkError err False) ret (
     fail_if (Ready replyR) (''FAIL: storage system should not be ready '' @ show_err err) ret (
     st_RegisterServer myID (\<lambda>replyR err.
     bail (checkError err False) ret (
     fail_if (\<not> Ready replyR \<or> Servers replyR = []) (''FAIL: storage system should be ready '' @ show_err err) ret (
     fail_if (int (length (Servers replyR)) \<noteq> numServer)
       (''FAIL: storage seystem returned wrong serverlist '' @ show_err err) ret (
     st_Get ''wrongkey:1'' False (\<lambda>replyG err.
     bail (checkErrorStatus err (sg_Status replyG) EWRONGSERVER) ret (
     pass ret)))))))))"

subsection \<open>Basic storage operations\<close>

definition testPutGet :: "goroutine \<Rightarrow> goroutine" where
  "testPutGet ret =
     st_Get ''nullkey:1'' False (\<lambda>replyG err.
     bail (checkErrorStatus err (sg_Status replyG) EKEYNOTFOUND) ret (
     st_Put ''keyputget:1'' ''value'' (\<lambda>replyP err.
     bail (checkErrorStatus err replyP S_OK) ret (
     st_Get ''keyputget:1'' False (\<lambda>replyG err.
     bail (checkErrorStatus err (sg_Status replyG) S_OK) ret (
     fail_if (sg_Value replyG \<noteq> ''value'') ''FAIL: got wrong value'' ret (
     fail_if (Granted (sg_Lease replyG)) ''FAIL: did not apply for lease'' ret (
     st_Get ''keyputget:1'' True (\<lambda>replyG err.
     bail (checkErrorStatus err (sg_Status replyG) S_OK) ret (
     fail_if (sg_Value replyG \<noteq> ''value'') ''FAIL: got wrong value'' ret (
     fail_if (\<not> Granted (sg_Lease replyG)) ''FAIL: did not get lease'' ret (
     pass ret))))))))))))"

text \<open>\<open>len(reply.Value) != 1 || reply.Value[0] != v\<close>\<close>

definition not_just :: "string \<Rightarrow> string list \<Rightarrow> bool" where
  "not_just v xs = (length xs \<noteq> 1 \<or> hd xs \<noteq> v)"

definition testAppendGetRemoveList :: "goroutine \<Rightarrow> goroutine" where
  "testAppendGetRemoveList ret =
     st_AppendToList ''keylist:1'' ''value1'' (\<lambda>replyP err.
     bail (checkErrorStatus err replyP S_OK) ret (
     st_GetList ''keylist:1'' False (\<lambda>replyL err.
     bail (checkErrorStatus err (sg_Status replyL) S_OK) ret (
     fail_if (not_just ''value1'' (sg_Value replyL)) ''FAIL: got wrong value'' ret (
     st_AppendToList ''keylist:1'' ''value1'' (\<lambda>replyP err.
     bail (checkErrorStatus err replyP EITEMEXISTS) ret (
     st_AppendToList ''keylist:1'' ''value2'' (\<lambda>replyP err.
     bail (checkErrorStatus err replyP S_OK) ret (
     st_RemoveFromList ''keylist:1'' ''value1'' (\<lambda>replyP err.
     bail (checkErrorStatus err replyP S_OK) ret (
     st_RemoveFromList ''keylist:1'' ''value1'' (\<lambda>replyP err.
     bail (checkErrorStatus err replyP EITEMNOTFOUND) ret (
     st_GetList ''keylist:1'' False (\<lambda>replyL err.
     bail (checkErrorStatus err (sg_Status replyL) S_OK) ret (
     fail_if (not_just ''value2'' (sg_Value replyL)) ''FAIL: got wrong value'' ret (
     pass ret))))))))))))))))"

subsection \<open>Revocations\<close>

text \<open>Without a lease no revocation is expected.\<close>

definition testUpdateWithoutLease :: "goroutine \<Rightarrow> goroutine" where
  "testUpdateWithoutLease ret =
     (let key = ''revokekey:0'' in
     st_Put key ''value'' (\<lambda>replyP err.
     bail (checkErrorStatus err replyP S_OK) ret (
     st_Get key False (\<lambda>replyG err.
     bail (checkErrorStatus err (sg_Status replyG) S_OK) ret (
     st_Put key ''value1'' (\<lambda>replyP err.
     bail (checkErrorStatus err replyP S_OK) ret (
     st_Get key False (\<lambda>replyG err.
     bail (checkErrorStatus err (sg_Status replyG) S_OK) ret (
     Read (\<lambda>t.
     fail_if (recv_revoke (st t) key) ''FAIL: expect no revoke'' ret (
     pass ret)))))))))))"

definition testUpdateBeforeLeaseExpire :: "goroutine \<Rightarrow> goroutine" where
  "testUpdateBeforeLeaseExpire ret =
     (let key = ''revokekey:1'' in
     bail (cacheKey key) ret (
     st_Put key ''value1'' (\<lambda>replyP err.
     bail (checkErrorStatus err replyP S_OK) ret (
     st_Get key False (\<lambda>replyG err.
     bail (checkErrorStatus err (sg_Status replyG) S_OK) ret (
     fail_if (sg_Value replyG \<noteq> ''value1'') ''FAIL: got wrong value'' ret (
     Read (\<lambda>t.
     fail_if (\<not> recv_revoke (st t) key) ''FAIL: did not receive revoke'' ret (
     pass ret)))))))))"

definition testUpdateAfterLeaseExpire :: "goroutine \<Rightarrow> goroutine" where
  "testUpdateAfterLeaseExpire ret =
     (let key = ''revokekey:2'' in
     bail (cacheKey key) ret (
     Sleep (lease_ms + 1000) (
     st_Put key ''value1'' (\<lambda>replyP err.
     bail (checkErrorStatus err replyP S_OK) ret (
     st_Get key False (\<lambda>replyG err.
     bail (checkErrorStatus err (sg_Status replyG) S_OK) ret (
     fail_if (sg_Value replyG \<noteq> ''value1'') ''FAIL: got wrong value'' ret (
     Read (\<lambda>t.
     fail_if (recv_revoke (st t) key) ''FAIL: should not receive revoke'' ret (
     pass ret))))))))))"

text \<open>
  The helper of the tests with a delayed revocation: a second goroutine writes the leased key, a
  third one runs the rest of the test and waits for that write, and the caller waits for the
  third one or for the time in which the lease must have expired.
\<close>

definition delayedRevoke ::
  "string \<Rightarrow> ((bool \<Rightarrow> goroutine) \<Rightarrow> goroutine) \<Rightarrow> (bool \<Rightarrow> goroutine) \<Rightarrow> goroutine" where
  "delayedRevoke key f k =
     bail (cacheKey key) (k True) (
     MakeChan (\<lambda>putCh. MakeChan (\<lambda>doneCh.
     Spawn
       (st_Put key ''new-value'' (\<lambda>replyP err.
        Write (\<lambda>t. t\<lparr>captured := (captured t)(putCh := (replyP, err))\<rparr>) (
        SendTo putCh True Finish))) (
     Sleep 100 (
     Spawn
       (f (\<lambda>bad.
        Receive putCh (\<lambda>_.
        if bad then SendTo doneCh True Finish
        else Read (\<lambda>t. case captured t putCh of (replyP, err) \<Rightarrow>
          bail (checkErrorStatus err replyP S_OK) (SendTo doneCh True Finish) (SendTo doneCh False Finish))))) (
     SelectAfter doneCh (lease_ms + 1000) (\<lambda>r.
     case r of
       Some bad \<Rightarrow> k bad
     | None \<Rightarrow> fail ''FAIL: timeout, may erroneously increase test count'' (k True))))))))"

text \<open>A test around it: \<open>SetDelay\<close>, a deferred \<open>ResetDelay\<close>, and the verdict.\<close>

definition delayed_test :: "nat \<Rightarrow> ((bool \<Rightarrow> goroutine) \<Rightarrow> goroutine) \<Rightarrow> goroutine \<Rightarrow> goroutine" where
  "delayed_test factor revoked ret =
     Write (SetDelay factor) (
     bail revoked (Write ResetDelay ret) (
     pass (Write ResetDelay ret)))"

definition testDelayedRevokeWithoutBlocking :: "goroutine \<Rightarrow> goroutine" where
  "testDelayedRevokeWithoutBlocking =
     (let key1 = ''revokekey:3''; key2 = ''revokekey:4'' in
     delayed_test 500 (delayedRevoke key1 (\<lambda>k.
       time_Now (\<lambda>ts.
       st_Put key2 ''value'' (\<lambda>replyP err.
       bail (checkErrorStatus err replyP S_OK) (k True) (
       time_Since ts (\<lambda>d.
       fail_if (\<not> isTimeOK d) ''FAIL: concurrent Put got blocked'' (k True) (
       time_Now (\<lambda>ts.
       st_Get key2 False (\<lambda>replyG err.
       bail (checkErrorStatus err (sg_Status replyG) S_OK) (k True) (
       fail_if (sg_Value replyG \<noteq> ''value'') ''FAIL: get got wrong value'' (k True) (
       time_Since ts (\<lambda>d.
       fail_if (\<not> isTimeOK d) ''FAIL: concurrent Get got blocked'' (k True) (
       k False))))))))))))))"

text \<open>The two tests that ask for a lease during a revocation differ in what they expect of the revocation.\<close>

definition lease_request :: "string \<Rightarrow> (bool \<Rightarrow> bool) \<Rightarrow> (bool \<Rightarrow> goroutine) \<Rightarrow> goroutine" where
  "lease_request key1 unexpected k =
     time_Now (\<lambda>ts.
     st_Get key1 True (\<lambda>replyG err.
     bail (checkErrorStatus err (sg_Status replyG) S_OK) (k True) (
     time_Since ts (\<lambda>d.
     if isTimeOK d
     then fail_if (Granted (sg_Lease replyG) \<or> sg_Value replyG \<noteq> ''old-value'')
            ''FAIL: server should return old value and not grant lease'' (k True) (k False)
     else Read (\<lambda>t.
          fail_if (unexpected (comp_revoke (st t) key1) \<or> (\<not> Granted (sg_Lease replyG) \<or> sg_Value replyG \<noteq> ''new-value''))
            ''FAIL: server should return new value and grant lease'' (k True) (k False))))))"

definition testDelayedRevokeWithLeaseRequest1 :: "goroutine \<Rightarrow> goroutine" where
  "testDelayedRevokeWithLeaseRequest1 =
     delayed_test 500 (delayedRevoke ''revokekey:5'' (lease_request ''revokekey:5'' (\<lambda>completed. \<not> completed)))"

definition testDelayedRevokeWithLeaseRequest2 :: "goroutine \<Rightarrow> goroutine" where
  "testDelayedRevokeWithLeaseRequest2 =
     delayed_test 2000 (delayedRevoke ''revokekey:15'' (lease_request ''revokekey:15'' (\<lambda>completed. completed)))"

definition testDelayedRevokeWithUpdate1 :: "goroutine \<Rightarrow> goroutine" where
  "testDelayedRevokeWithUpdate1 =
     (let key1 = ''revokekey:6'' in
     delayed_test 500 (delayedRevoke key1 (\<lambda>k.
       st_Put key1 ''newnew-value'' (\<lambda>replyP err.
       bail (checkErrorStatus err replyP S_OK) (k True) (
       Read (\<lambda>t.
       fail_if (\<not> comp_revoke (st t) key1)
         ''FAIL: storage server should hold modification to key x during finishing revocating all lease holders of x''
         (k True) (
       st_Get key1 False (\<lambda>replyG err.
       bail (checkErrorStatus err (sg_Status replyG) S_OK) (k True) (
       fail_if (sg_Value replyG \<noteq> ''newnew-value'') ''FAIL: got wrong value'' (k True) (
       k False))))))))))"

definition testDelayedRevokeWithUpdate2 :: "goroutine \<Rightarrow> goroutine" where
  "testDelayedRevokeWithUpdate2 =
     (let key1 = ''revokekey:7'' in
     delayed_test 2000 (delayedRevoke key1 (\<lambda>k.
       time_Now (\<lambda>ts.
       st_Put key1 ''newnew-value'' (\<lambda>replyP err.
       bail (checkErrorStatus err replyP S_OK) (k True) (
       time_Since ts (\<lambda>d.
       fail_if (d < lease_ms - 1000) ''FAIL: storage server should hold this Put until leases expires key1'' (k True) (
       Read (\<lambda>t.
       fail_if (comp_revoke (st t) key1)
         ''FAIL: storage server should not block this Put till the lease revoke of key1'' (k True) (
       st_Get key1 False (\<lambda>replyG err.
       bail (checkErrorStatus err (sg_Status replyG) S_OK) (k True) (
       fail_if (sg_Value replyG \<noteq> ''newnew-value'') ''FAIL: got wrong value'' (k True) (
       k False)))))))))))))"

definition testDelayedRevokeWithUpdate3 :: "goroutine \<Rightarrow> goroutine" where
  "testDelayedRevokeWithUpdate3 =
     (let key1 = ''revokekey:8'' in
     delayed_test 2000 (delayedRevoke key1 (\<lambda>k.
       Sleep lease_ms (
       time_Now (\<lambda>ts.
       st_Put key1 ''newnew-value'' (\<lambda>replyP err.
       bail (checkErrorStatus err replyP S_OK) (k True) (
       time_Since ts (\<lambda>d.
       fail_if (\<not> isTimeOK d) ''FAIL: storage server should not block this Put'' (k True) (
       time_Now (\<lambda>ts.
       st_Get key1 True (\<lambda>replyG err.
       bail (checkErrorStatus err (sg_Status replyG) S_OK) (k True) (
       fail_if (sg_Value replyG \<noteq> ''newnew-value'') ''FAIL: got wrong value'' (k True) (
       time_Since ts (\<lambda>d.
       fail_if (\<not> isTimeOK d) ''FAIL: storage server should not block this Get'' (k True) (
       k False)))))))))))))))"


subsection \<open>Revocations of lists\<close>

definition testUpdateListWithoutLease :: "goroutine \<Rightarrow> goroutine" where
  "testUpdateListWithoutLease ret =
     (let key = ''revokelistkey:0'' in
     st_AppendToList key ''value'' (\<lambda>replyP err.
     bail (checkErrorStatus err replyP S_OK) ret (
     st_GetList key False (\<lambda>replyL err.
     bail (checkErrorStatus err (sg_Status replyL) S_OK) ret (
     st_AppendToList key ''value1'' (\<lambda>replyP err.
     bail (checkErrorStatus err replyP S_OK) ret (
     st_RemoveFromList key ''value1'' (\<lambda>replyP err.
     bail (checkErrorStatus err replyP S_OK) ret (
     st_GetList key False (\<lambda>replyL err.
     bail (checkErrorStatus err (sg_Status replyL) S_OK) ret (
     Read (\<lambda>t.
     fail_if (recv_revoke (st t) key) ''FAIL: expect no revoke'' ret (
     pass ret)))))))))))))"

definition testUpdateListBeforeLeaseExpire :: "goroutine \<Rightarrow> goroutine" where
  "testUpdateListBeforeLeaseExpire ret =
     (let key = ''revokelistkey:1'' in
     bail (cacheKeyList key) ret (
     st_AppendToList key ''value1'' (\<lambda>replyP err.
     bail (checkErrorStatus err replyP S_OK) ret (
     st_RemoveFromList key ''value1'' (\<lambda>replyP err.
     bail (checkErrorStatus err replyP S_OK) ret (
     st_GetList key False (\<lambda>replyL err.
     bail (checkErrorStatus err (sg_Status replyL) S_OK) ret (
     fail_if (not_just ''old-value'' (sg_Value replyL)) ''FAIL: got wrong value'' ret (
     Read (\<lambda>t.
     fail_if (\<not> recv_revoke (st t) key) ''FAIL: did not receive revoke'' ret (
     pass ret)))))))))))"

definition testUpdateListAfterLeaseExpire :: "goroutine \<Rightarrow> goroutine" where
  "testUpdateListAfterLeaseExpire ret =
     (let key = ''revokelistkey:2'' in
     bail (cacheKeyList key) ret (
     Sleep (lease_ms + 1000) (
     st_AppendToList key ''value1'' (\<lambda>replyP err.
     bail (checkErrorStatus err replyP S_OK) ret (
     st_RemoveFromList key ''value1'' (\<lambda>replyP err.
     bail (checkErrorStatus err replyP S_OK) ret (
     st_GetList key False (\<lambda>replyL err.
     bail (checkErrorStatus err (sg_Status replyL) S_OK) ret (
     fail_if (not_just ''old-value'' (sg_Value replyL)) ''FAIL: got wrong value'' ret (
     Read (\<lambda>t.
     fail_if (recv_revoke (st t) key) ''FAIL: should not receive revoke'' ret (
     pass ret))))))))))))"

definition delayedRevokeList ::
  "string \<Rightarrow> ((bool \<Rightarrow> goroutine) \<Rightarrow> goroutine) \<Rightarrow> (bool \<Rightarrow> goroutine) \<Rightarrow> goroutine" where
  "delayedRevokeList key f k =
     bail (cacheKeyList key) (k True) (
     MakeChan (\<lambda>appendCh. MakeChan (\<lambda>doneCh.
     Spawn
       (st_AppendToList key ''new-value'' (\<lambda>replyP err.
        Write (\<lambda>t. t\<lparr>captured := (captured t)(appendCh := (replyP, err))\<rparr>) (
        SendTo appendCh True Finish))) (
     Sleep 100 (
     Spawn
       (f (\<lambda>bad.
        Receive appendCh (\<lambda>_.
        if bad then SendTo doneCh True Finish
        else Read (\<lambda>t. case captured t appendCh of (replyP, err) \<Rightarrow>
          bail (checkErrorStatus err replyP S_OK) (SendTo doneCh True Finish) (SendTo doneCh False Finish))))) (
     SelectAfter doneCh (lease_ms + 1000) (\<lambda>r.
     case r of
       Some bad \<Rightarrow> k bad
     | None \<Rightarrow> fail ''FAIL: timeout, may erroneously increase test count'' (k True))))))))"

definition testDelayedRevokeListWithoutBlocking :: "goroutine \<Rightarrow> goroutine" where
  "testDelayedRevokeListWithoutBlocking =
     (let key1 = ''revokelistkey:3''; key2 = ''revokelistkey:4'' in
     delayed_test 500 (delayedRevokeList key1 (\<lambda>k.
       time_Now (\<lambda>ts.
       st_AppendToList key2 ''value'' (\<lambda>replyP err.
       bail (checkErrorStatus err replyP S_OK) (k True) (
       time_Since ts (\<lambda>d.
       fail_if (\<not> isTimeOK d) ''FAIL: concurrent Append got blocked'' (k True) (
       time_Now (\<lambda>ts.
       st_GetList key2 False (\<lambda>replyL err.
       bail (checkErrorStatus err (sg_Status replyL) S_OK) (k True) (
       fail_if (not_just ''value'' (sg_Value replyL)) ''FAIL: GetList got wrong value'' (k True) (
       time_Since ts (\<lambda>d.
       fail_if (\<not> isTimeOK d) ''FAIL: concurrent GetList got blocked'' (k True) (
       k False))))))))))))))"

definition lease_request_list :: "string \<Rightarrow> (bool \<Rightarrow> bool) \<Rightarrow> (bool \<Rightarrow> goroutine) \<Rightarrow> goroutine" where
  "lease_request_list key1 unexpected k =
     time_Now (\<lambda>ts.
     st_GetList key1 True (\<lambda>replyL err.
     bail (checkErrorStatus err (sg_Status replyL) S_OK) (k True) (
     time_Since ts (\<lambda>d.
     if isTimeOK d
     then fail_if (Granted (sg_Lease replyL) \<or> not_just ''old-value'' (sg_Value replyL))
            ''FAIL: server should return old value and not grant lease'' (k True) (k False)
     else bail (checkList (sg_Value replyL) [''old-value'', ''new-value'']) (k True) (
          Read (\<lambda>t.
          fail_if (unexpected (comp_revoke (st t) key1) \<or> \<not> Granted (sg_Lease replyL))
            ''FAIL: server should grant lease in this case'' (k True) (k False)))))))"

definition testDelayedRevokeListWithLeaseRequest1 :: "goroutine \<Rightarrow> goroutine" where
  "testDelayedRevokeListWithLeaseRequest1 =
     delayed_test 500
       (delayedRevokeList ''revokelistkey:5'' (lease_request_list ''revokelistkey:5'' (\<lambda>completed. \<not> completed)))"

definition testDelayedRevokeListWithLeaseRequest2 :: "goroutine \<Rightarrow> goroutine" where
  "testDelayedRevokeListWithLeaseRequest2 =
     delayed_test 2000
       (delayedRevokeList ''revokelistkey:15'' (lease_request_list ''revokelistkey:15'' (\<lambda>completed. completed)))"

definition testDelayedRevokeListWithUpdate1 :: "goroutine \<Rightarrow> goroutine" where
  "testDelayedRevokeListWithUpdate1 =
     (let key1 = ''revokelistkey:6'' in
     delayed_test 500 (delayedRevokeList key1 (\<lambda>k.
       st_AppendToList key1 ''newnew-value'' (\<lambda>replyP err.
       bail (checkErrorStatus err replyP S_OK) (k True) (
       Read (\<lambda>t.
       fail_if (\<not> comp_revoke (st t) key1)
         ''FAIL: storage server should hold modification to key x during finishing revocating all lease holders of x''
         (k True) (
       st_GetList key1 False (\<lambda>replyL err.
       bail (checkErrorStatus err (sg_Status replyL) S_OK) (k True) (
       bail (checkList (sg_Value replyL) [''old-value'', ''new-value'', ''newnew-value'']) (k True) (
       k False))))))))))"

definition testDelayedRevokeListWithUpdate2 :: "goroutine \<Rightarrow> goroutine" where
  "testDelayedRevokeListWithUpdate2 =
     (let key1 = ''revokelistkey:7'' in
     delayed_test 2000 (delayedRevokeList key1 (\<lambda>k.
       time_Now (\<lambda>ts.
       st_AppendToList key1 ''newnew-value'' (\<lambda>replyP err.
       bail (checkErrorStatus err replyP S_OK) (k True) (
       time_Since ts (\<lambda>d.
       fail_if (d < lease_ms - 1000) ''FAIL: storage server should hold this Put until leases expires key1'' (k True) (
       Read (\<lambda>t.
       fail_if (comp_revoke (st t) key1)
         ''FAIL: storage server should not block this Put till the lease revoke of key1'' (k True) (
       st_GetList key1 False (\<lambda>replyL err.
       bail (checkErrorStatus err (sg_Status replyL) S_OK) (k True) (
       bail (checkList (sg_Value replyL) [''old-value'', ''new-value'', ''newnew-value'']) (k True) (
       k False)))))))))))))"

definition testDelayedRevokeListWithUpdate3 :: "goroutine \<Rightarrow> goroutine" where
  "testDelayedRevokeListWithUpdate3 =
     (let key1 = ''revokelistkey:8'' in
     delayed_test 2000 (delayedRevokeList key1 (\<lambda>k.
       Sleep lease_ms (
       time_Now (\<lambda>ts.
       st_AppendToList key1 ''newnew-value'' (\<lambda>replyP err.
       bail (checkErrorStatus err replyP S_OK) (k True) (
       time_Since ts (\<lambda>d.
       fail_if (\<not> isTimeOK d) ''FAIL: storage server should not block this Put'' (k True) (
       time_Now (\<lambda>ts.
       st_GetList key1 True (\<lambda>replyL err.
       bail (checkErrorStatus err (sg_Status replyL) S_OK) (k True) (
       bail (checkList (sg_Value replyL) [''old-value'', ''new-value'', ''newnew-value'']) (k True) (
       time_Since ts (\<lambda>d.
       fail_if (\<not> isTimeOK d) ''FAIL: storage server should not block this Get'' (k True) (
       k False)))))))))))))))"

subsection \<open>The program\<close>

record TestFunc =
  tf_name :: string
  tf_f :: "goroutine \<Rightarrow> goroutine"

definition jtests :: "int \<Rightarrow> 32 word \<Rightarrow> TestFunc list" where
  "jtests numServer myID = [\<lparr>tf_name = ''testInitStorageServers'', tf_f = testInitStorageServers numServer myID\<rparr>]"

definition btests :: "TestFunc list" where
  "btests =
     [\<lparr>tf_name = ''testPutGet'', tf_f = testPutGet\<rparr>,
      \<lparr>tf_name = ''testAppendGetRemoveList'', tf_f = testAppendGetRemoveList\<rparr>,
      \<lparr>tf_name = ''testUpdateWithoutLease'', tf_f = testUpdateWithoutLease\<rparr>,
      \<lparr>tf_name = ''testUpdateBeforeLeaseExpire'', tf_f = testUpdateBeforeLeaseExpire\<rparr>,
      \<lparr>tf_name = ''testUpdateAfterLeaseExpire'', tf_f = testUpdateAfterLeaseExpire\<rparr>,
      \<lparr>tf_name = ''testDelayedRevokeWithoutBlocking'', tf_f = testDelayedRevokeWithoutBlocking\<rparr>,
      \<lparr>tf_name = ''testDelayedRevokeWithLeaseRequest1'', tf_f = testDelayedRevokeWithLeaseRequest1\<rparr>,
      \<lparr>tf_name = ''testDelayedRevokeWithLeaseRequest2'', tf_f = testDelayedRevokeWithLeaseRequest2\<rparr>,
      \<lparr>tf_name = ''testDelayedRevokeWithUpdate1'', tf_f = testDelayedRevokeWithUpdate1\<rparr>,
      \<lparr>tf_name = ''testDelayedRevokeWithUpdate2'', tf_f = testDelayedRevokeWithUpdate2\<rparr>,
      \<lparr>tf_name = ''testDelayedRevokeWithUpdate3'', tf_f = testDelayedRevokeWithUpdate3\<rparr>,
      \<lparr>tf_name = ''testUpdateListWithoutLease'', tf_f = testUpdateListWithoutLease\<rparr>,
      \<lparr>tf_name = ''testUpdateListBeforeLeaseExpire'', tf_f = testUpdateListBeforeLeaseExpire\<rparr>,
      \<lparr>tf_name = ''testUpdateListAfterLeaseExpire'', tf_f = testUpdateListAfterLeaseExpire\<rparr>,
      \<lparr>tf_name = ''testDelayedRevokeListWithoutBlocking'', tf_f = testDelayedRevokeListWithoutBlocking\<rparr>,
      \<lparr>tf_name = ''testDelayedRevokeListWithLeaseRequest1'', tf_f = testDelayedRevokeListWithLeaseRequest1\<rparr>,
      \<lparr>tf_name = ''testDelayedRevokeListWithLeaseRequest2'', tf_f = testDelayedRevokeListWithLeaseRequest2\<rparr>,
      \<lparr>tf_name = ''testDelayedRevokeListWithUpdate1'', tf_f = testDelayedRevokeListWithUpdate1\<rparr>,
      \<lparr>tf_name = ''testDelayedRevokeListWithUpdate2'', tf_f = testDelayedRevokeListWithUpdate2\<rparr>,
      \<lparr>tf_name = ''testDelayedRevokeListWithUpdate3'', tf_f = testDelayedRevokeListWithUpdate3\<rparr>]"

text \<open>The loops of \<open>main\<close>; \<open>selected\<close> says whether the name matches the flag \<open>testRegex\<close>.\<close>

definition announce :: "TestFunc \<Rightarrow> goroutine \<Rightarrow> goroutine" where
  "announce t ret = Write (\<lambda>v. v\<lparr>printed := printed v @ [''Starting '' @ tf_name t @ '':'']\<rparr>) (tf_f t ret)"

fun run_tests :: "(string \<Rightarrow> bool) \<Rightarrow> TestFunc list \<Rightarrow> goroutine \<Rightarrow> goroutine" where
  "run_tests selected [] ret = ret"
| "run_tests selected (t # ts) ret =
     (if selected (tf_name t) then announce t (run_tests selected ts ret) else run_tests selected ts ret)"

definition summary :: goroutine where
  "summary = Write (\<lambda>v. v\<lparr>printed := printed v @ [''Passed ('' @ Itoa (int (passCount v)) @ ''/'' @
       Itoa (int (passCount v + failCount v)) @ '') tests'']\<rparr>) Finish"

definition tester_main :: "int \<Rightarrow> int \<Rightarrow> 32 word \<Rightarrow> (string \<Rightarrow> bool) \<Rightarrow> goroutine" where
  "tester_main testType numServer myID selected =
     run_tests selected (if testType = 1 then jtests numServer myID else if testType = 2 then btests else []) summary"

end
