(* ===== verification/Storage_Test_Run.thy ===== *)
theory Storage_Test_Run
  imports Storage_Test
begin

section \<open>The conformance tests against the storage server\<close>

text \<open>
  The tester, the storage server behind its adapter, and the time between them. What is due is
  kept in \<open>agenda\<close> in the order of time, first come first served within an instant; handling a
  request takes no time, a message takes \<open>latency\<close> milliseconds each way. A goroutine runs until
  it blocks. \<open>open_calls\<close> holds the methods that wait for \<open>appHandler\<close>, by reply channel,
  \<open>senders\<close> and \<open>receivers\<close> the goroutines that wait on a channel. \<open>None\<close> is a panic of the
  server.
\<close>

subsection \<open>The world of a test\<close>

datatype happening =
    Resume goroutine
  | CallArrives string storage_args "storage_answer + string \<Rightarrow> goroutine"
  | HandlerGets cacheReq
  | RevokeArrives string string
  | RevokeEnds string string
  | RevokeReturns string string storage_status
  | TimerEnds nat
  | TimedOut nat

record test_world =
  vars :: test_vars
  server :: Storageserver
  handler_state :: app_state
  connections :: "string set"
  agenda :: "(nat \<times> happening) list"
  open_calls :: "(nat \<times> (storage_reply \<Rightarrow> server_call option) \<times> (storage_answer + string \<Rightarrow> goroutine)) list"
  senders :: "(nat \<times> bool \<times> goroutine) list"
  receivers :: "(nat \<times> nat \<times> (bool option \<Rightarrow> goroutine)) list"
  fresh :: nat

fun schedule :: "nat \<Rightarrow> 'h \<Rightarrow> (nat \<times> 'h) list \<Rightarrow> (nat \<times> 'h) list" where
  "schedule t h [] = [(t, h)]"
| "schedule t h ((t1, h1) # as) = (if t1 \<le> t then (t1, h1) # schedule t h as else (t, h) # (t1, h1) # as)"

definition after :: "nat \<Rightarrow> happening \<Rightarrow> test_world \<Rightarrow> test_world" where
  "after d h w = w\<lparr>agenda := schedule (clock (vars w) + d) h (agenda w)\<rparr>"

text \<open>A channel without a buffer: who comes second takes or gives the value.\<close>

definition take_sender :: "nat \<Rightarrow> test_world \<Rightarrow> ((bool \<times> goroutine) \<times> test_world) option" where
  "take_sender ch w =
     map_option (\<lambda>x. (x, w\<lparr>senders := AList.delete ch (senders w)\<rparr>)) (map_of (senders w) ch)"

definition take_receiver :: "nat \<Rightarrow> test_world \<Rightarrow> ((bool option \<Rightarrow> goroutine) \<times> test_world) option" where
  "take_receiver ch w =
     map_option (\<lambda>(i, _, k). (k, w\<lparr>receivers := AList.delete i (receivers w)\<rparr>))
       (find (\<lambda>(_, c, _). c = ch) (receivers w))"

definition wait_receive :: "nat \<Rightarrow> (bool option \<Rightarrow> goroutine) \<Rightarrow> test_world \<Rightarrow> test_world" where
  "wait_receive ch k w = w\<lparr>receivers := receivers w @ [(fresh w, ch, k)], fresh := fresh w + 1\<rparr>"

text \<open>A goroutine runs until it blocks.\<close>

primrec exec :: "nat \<Rightarrow> goroutine \<Rightarrow> test_world \<Rightarrow> test_world" where
  "exec latency Finish = (\<lambda>w. w)"
| "exec latency (Read f) = (\<lambda>w. exec latency (f (vars w)) w)"
| "exec latency (Write f g) = (\<lambda>w. exec latency g (w\<lparr>vars := f (vars w)\<rparr>))"
| "exec latency (Call name args k) = after latency (CallArrives name args k)"
| "exec latency (Sleep d g) = after d (Resume g)"
| "exec latency (Spawn g1 g2) = (\<lambda>w. exec latency g2 (after 0 (Resume g1) w))"
| "exec latency (MakeChan f) = (\<lambda>w. exec latency (f (fresh w)) (w\<lparr>fresh := fresh w + 1\<rparr>))"
| "exec latency (SendTo ch b g) =
     (\<lambda>w. case take_receiver ch w of
            Some (k, w1) \<Rightarrow> exec latency g (after 0 (Resume (k (Some b))) w1)
          | None \<Rightarrow> w\<lparr>senders := senders w @ [(ch, b, g)]\<rparr>)"
| "exec latency (Receive ch k) =
     (\<lambda>w. case take_sender ch w of
            Some ((b, g), w1) \<Rightarrow> exec latency (k b) (after 0 (Resume g) w1)
          | None \<Rightarrow> wait_receive ch (\<lambda>r. case r of Some b \<Rightarrow> k b | None \<Rightarrow> Finish) w)"
| "exec latency (SelectAfter ch d k) =
     (\<lambda>w. case take_sender ch w of
            Some ((b, g), w1) \<Rightarrow> exec latency (k (Some b)) (after 0 (Resume g) w1)
          | None \<Rightarrow> after d (TimedOut (fresh w)) (wait_receive ch k w))"

subsection \<open>The server\<close>

definition apply_effect :: "nat \<Rightarrow> storage_effect \<Rightarrow> test_world \<Rightarrow> test_world option" where
  "apply_effect latency e w =
     (case e of
        SReply r v \<Rightarrow>
          (case map_of (open_calls w) (cr_replyc r) of
             None \<Rightarrow> Some w
           | Some (q, k) \<Rightarrow>
               (let rest = AList.delete (cr_replyc r) (open_calls w) in
                case q v of
                  None \<Rightarrow> None
                | Some (Answer a) \<Rightarrow> Some (after latency (Resume (k (Inl a))) (w\<lparr>open_calls := rest\<rparr>))
                | Some (Await r1 q1) \<Rightarrow>
                    Some (after 0 (HandlerGets r1) (w\<lparr>open_calls := (cr_replyc r1, q1, k) # rest\<rparr>))))
      | RevokeCall key client \<Rightarrow> Some (after latency (RevokeArrives key client) w)
      | StartTimer key client ch \<Rightarrow> Some (after lease_ms (TimerEnds ch) w))"

fun apply_effects :: "nat \<Rightarrow> storage_effect list \<Rightarrow> test_world \<Rightarrow> test_world option" where
  "apply_effects latency [] w = Some w"
| "apply_effects latency (e # es) w =
     (case apply_effect latency e w of None \<Rightarrow> None | Some w1 \<Rightarrow> apply_effects latency es w1)"

definition serve :: "nat \<Rightarrow> (app_state \<times> storage_effect list) option \<Rightarrow> test_world \<Rightarrow> test_world option" where
  "serve latency result w =
     (case result of None \<Rightarrow> None | Some (s, es) \<Rightarrow> apply_effects latency es (w\<lparr>handler_state := s\<rparr>))"

definition happen :: "nat \<Rightarrow> happening \<Rightarrow> test_world \<Rightarrow> test_world option" where
  "happen latency h w =
     (case h of
        Resume g \<Rightarrow> Some (exec latency g w)
      | CallArrives name args k \<Rightarrow>
          (let c = fresh w; w1 = w\<lparr>fresh := c + 1\<rparr> in
           case storage_call (server w) name args c of
             None \<Rightarrow> Some (after latency (Resume (k (Inr (''rpc: can't find service '' @ name)))) w1)
           | Some None \<Rightarrow> None
           | Some (Some (ss, Answer a)) \<Rightarrow> Some (after latency (Resume (k (Inl a))) (w1\<lparr>server := ss\<rparr>))
           | Some (Some (ss, Await r q)) \<Rightarrow>
               serve latency (appHandler (handler_state w) r)
                 (w1\<lparr>server := ss, open_calls := (cr_replyc r, q, k) # open_calls w\<rparr>))
      | HandlerGets r \<Rightarrow> serve latency (appHandler (handler_state w) r) w
      | RevokeArrives key client \<Rightarrow>
          Some (let w1 = w\<lparr>vars := tester_RevokeLease_begin key (vars w)\<rparr> in
                after (st_delay (st (vars w1))) (RevokeEnds key client) w1)
      | RevokeEnds key client \<Rightarrow>
          (case tester_RevokeLease_end key (vars w) of
             (v, status) \<Rightarrow> Some (after latency (RevokeReturns key client status) (w\<lparr>vars := v\<rparr>)))
      | RevokeReturns key client status \<Rightarrow>
          (case callCacheRPC (connections w) key client True (Some status) (fresh w) of
             (cs, None) \<Rightarrow> Some (w\<lparr>connections := cs\<rparr>)
           | (cs, Some r) \<Rightarrow>
               serve latency (appHandler (handler_state w) r) (w\<lparr>connections := cs, fresh := fresh w + 1\<rparr>))
      | TimerEnds ch \<Rightarrow>
          (if timers (handler_state w) ch = None then Some w
           else serve latency (storage_exec (handler_state w) (TimerFires ch (fresh w))) (w\<lparr>fresh := fresh w + 1\<rparr>))
      | TimedOut i \<Rightarrow>
          (case map_of (receivers w) i of
             None \<Rightarrow> Some w
           | Some (_, k) \<Rightarrow> Some (exec latency (k None) (w\<lparr>receivers := AList.delete i (receivers w)\<rparr>))))"

text \<open>What is due next, until nothing is left to happen or the fuel is used up.\<close>

fun run_world :: "nat \<Rightarrow> nat \<Rightarrow> test_world \<Rightarrow> test_world option" where
  "run_world latency 0 w = None"
| "run_world latency (Suc n) w =
     (case agenda w of
        [] \<Rightarrow> Some w
      | (t, h) # as \<Rightarrow>
          (case happen latency h (w\<lparr>agenda := as, vars := (vars w)\<lparr>clock := t\<rparr>\<rparr>) of
             None \<Rightarrow> None
           | Some w1 \<Rightarrow> run_world latency n w1))"

definition tester_host :: string where "tester_host = ''localhost:9019''"

definition test_world_of :: "Storageserver \<Rightarrow> app_state \<Rightarrow> goroutine \<Rightarrow> test_world option" where
  "test_world_of ss app g =
     map_option (\<lambda>tester.
       \<lparr>vars = init_vars tester, server = ss, handler_state = app, connections = {}, agenda = [(0, Resume g)],
        open_calls = [], senders = [], receivers = [], fresh = 0\<rparr>)
       (initStorageTester True tester_host)"

text \<open>What \<open>storagetest\<close> prints when it is run against a server; \<open>None\<close> if it is not done after \<open>n\<close> steps.\<close>

definition tester_on :: "nat \<Rightarrow> nat \<Rightarrow> Storageserver \<Rightarrow> app_state \<Rightarrow> goroutine \<Rightarrow> string list option" where
  "tester_on latency n ss app g =
     (case test_world_of ss app g of
        None \<Rightarrow> None
      | Some w \<Rightarrow> map_option (\<lambda>w1. printed (vars w1)) (run_world latency n w))"

subsection \<open>Symbolic runs\<close>

text \<open>
  The rules that run a test whose latency and whose server are variables. A function of the tests
  is unfolded when its goroutine is run, not while it is carried along as a continuation.
\<close>

lemma run_world_numeral:
  "run_world latency (numeral k) w =
     (case agenda w of
        [] \<Rightarrow> Some w
      | (t, h) # as \<Rightarrow>
          (case happen latency h (w\<lparr>agenda := as, vars := (vars w)\<lparr>clock := t\<rparr>\<rparr>) of
             None \<Rightarrow> None
           | Some w1 \<Rightarrow> run_world latency (pred_numeral k) w1))"
  by (subst numeral_eq_Suc) simp

lemma exec_MakeChan:
  "exec latency (MakeChan f)
     \<lparr>vars = v, server = ss, handler_state = app, connections = cs, agenda = ag,
       open_calls = oc, senders = se, receivers = re, fresh = n\<rparr> =
   exec latency (f n)
     \<lparr>vars = v, server = ss, handler_state = app, connections = cs, agenda = ag,
       open_calls = oc, senders = se, receivers = re, fresh = Suc n\<rparr>"
  by simp

declare exec.simps(7) [simp del]

lemma exec_time_Now:
  "exec latency (time_Now k)
     \<lparr>vars = \<lparr>st = s, printed = p, passCount = pc, failCount = fc, captured = cp, clock = c\<rparr>, server = ss, handler_state = app, connections = cs, agenda = ag,
       open_calls = oc, senders = se, receivers = re, fresh = n\<rparr> =
   exec latency (k c)
     \<lparr>vars = \<lparr>st = s, printed = p, passCount = pc, failCount = fc, captured = cp, clock = c\<rparr>, server = ss, handler_state = app, connections = cs, agenda = ag,
       open_calls = oc, senders = se, receivers = re, fresh = n\<rparr>"
  by (simp add: time_Now_def)

lemma exec_time_Since:
  "exec latency (time_Since ts k)
     \<lparr>vars = \<lparr>st = s, printed = p, passCount = pc, failCount = fc, captured = cp, clock = c\<rparr>, server = ss, handler_state = app, connections = cs, agenda = ag,
       open_calls = oc, senders = se, receivers = re, fresh = n\<rparr> =
   exec latency (k (c - ts))
     \<lparr>vars = \<lparr>st = s, printed = p, passCount = pc, failCount = fc, captured = cp, clock = c\<rparr>, server = ss, handler_state = app, connections = cs, agenda = ag,
       open_calls = oc, senders = se, receivers = re, fresh = n\<rparr>"
  by (simp add: time_Since_def)

text \<open>The simplifier stays out of what is carried along.\<close>

lemma goroutine_congs:
  "bail check ret rest = bail check ret rest" "fail_if wrong msg ret rest = fail_if wrong msg ret rest"
  "fail msg g = fail msg g" "pass g = pass g"
  "Read f = Read f" "Write u g = Write u g" "Spawn g h = Spawn g h" "MakeChan fc = MakeChan fc"
  "Sleep d g = Sleep d g" "Resume g = Resume g"
  "st_Put key v k2 = st_Put key v k2" "st_Get key w k3 = st_Get key w k3"
  "st_AppendToList key v k2 = st_AppendToList key v k2" "st_RemoveFromList key v k2 = st_RemoveFromList key v k2"
  "st_GetList key w k4 = st_GetList key w k4"
  by (rule refl)+

lemma Call_cong: "args = args1 \<Longrightarrow> Call name args k = Call name args1 k"
  "args = args1 \<Longrightarrow> CallArrives name args k = CallArrives name args1 k"
  by simp_all

lemmas run_congs = goroutine_congs Call_cong

lemmas exec_simps =
  exec_MakeChan exec_time_Now exec_time_Since
  arg_cong [OF bail_def, where f = "exec latency" for latency]
  arg_cong [OF fail_if_def, where f = "exec latency" for latency]
  arg_cong [OF fail_def, where f = "exec latency" for latency]
  arg_cong [OF pass_def, where f = "exec latency" for latency]
  arg_cong [OF announce_def, where f = "exec latency" for latency]
  arg_cong [OF summary_def, where f = "exec latency" for latency]
  arg_cong [OF checkErrorStatus_def, where f = "exec latency" for latency]
  arg_cong [OF checkList_def, where f = "exec latency" for latency]
  arg_cong [OF cacheKey_def, where f = "exec latency" for latency]
  arg_cong [OF cacheKeyList_def, where f = "exec latency" for latency]
  arg_cong [OF delayed_test_def, where f = "exec latency" for latency]
  arg_cong [OF delayedRevoke_def, where f = "exec latency" for latency]
  arg_cong [OF delayedRevokeList_def, where f = "exec latency" for latency]
  arg_cong [OF lease_request_def, where f = "exec latency" for latency]
  arg_cong [OF lease_request_list_def, where f = "exec latency" for latency]
  arg_cong [OF st_Put_def, where f = "exec latency" for latency]
  arg_cong [OF st_Get_def, where f = "exec latency" for latency]
  arg_cong [OF st_GetList_def, where f = "exec latency" for latency]
  arg_cong [OF st_AppendToList_def, where f = "exec latency" for latency]
  arg_cong [OF st_RemoveFromList_def, where f = "exec latency" for latency]
  arg_cong [OF testPutGet_def, where f = "exec latency" for latency]
  arg_cong [OF testAppendGetRemoveList_def, where f = "exec latency" for latency]
  arg_cong [OF testUpdateWithoutLease_def, where f = "exec latency" for latency]
  arg_cong [OF testUpdateBeforeLeaseExpire_def, where f = "exec latency" for latency]
  arg_cong [OF testUpdateAfterLeaseExpire_def, where f = "exec latency" for latency]
  arg_cong [OF testUpdateListWithoutLease_def, where f = "exec latency" for latency]
  arg_cong [OF testUpdateListBeforeLeaseExpire_def, where f = "exec latency" for latency]
  arg_cong [OF testUpdateListAfterLeaseExpire_def, where f = "exec latency" for latency]
  arg_cong [OF fun_cong [OF testDelayedRevokeWithoutBlocking_def], where f = "exec latency" for latency]
  arg_cong [OF fun_cong [OF testDelayedRevokeWithLeaseRequest1_def], where f = "exec latency" for latency]
  arg_cong [OF fun_cong [OF testDelayedRevokeWithLeaseRequest2_def], where f = "exec latency" for latency]
  arg_cong [OF fun_cong [OF testDelayedRevokeWithUpdate1_def], where f = "exec latency" for latency]
  arg_cong [OF fun_cong [OF testDelayedRevokeWithUpdate2_def], where f = "exec latency" for latency]
  arg_cong [OF fun_cong [OF testDelayedRevokeWithUpdate3_def], where f = "exec latency" for latency]
  arg_cong [OF fun_cong [OF testDelayedRevokeListWithoutBlocking_def], where f = "exec latency" for latency]
  arg_cong [OF fun_cong [OF testDelayedRevokeListWithLeaseRequest1_def], where f = "exec latency" for latency]
  arg_cong [OF fun_cong [OF testDelayedRevokeListWithLeaseRequest2_def], where f = "exec latency" for latency]
  arg_cong [OF fun_cong [OF testDelayedRevokeListWithUpdate1_def], where f = "exec latency" for latency]
  arg_cong [OF fun_cong [OF testDelayedRevokeListWithUpdate2_def], where f = "exec latency" for latency]
  arg_cong [OF fun_cong [OF testDelayedRevokeListWithUpdate3_def], where f = "exec latency" for latency]

lemmas tester_simps = put_reply_def not_just_def isTimeOK_def SetDelay_def ResetDelay_def lease_ms_def
  LEASE_SECONDS_def LEASE_GUARD_SECONDS_def Let_def tester_on_def test_world_of_def initStorageTester_def
  init_vars_def tester_host_def

lemmas world_simps = run_world_numeral after_def take_sender_def take_receiver_def wait_receive_def
  apply_effect_def serve_def happen_def tester_RevokeLease_begin_def tester_RevokeLease_end_def callCacheRPC_def

lemmas server_simps = storage_call_def storage_dispatch_def storage_rpc_defs storage_interface_def
  call_Get_def call_GetList_def call_Put_def call_AppendToList_def call_RemoveFromList_def
  Get_begin_def Get_value_def Get_lease_def GetList_begin_def GetList_value_def Put_begin_def Put_reply_def
  AppendToList_begin_def RemoveFromList_begin_def no_lease_def

lemmas handler_simps = appHandler_def pre_check_def process_request_def modify_def put_value_def append_value_def
  remove_value_def get_value_def get_list_value_def put_lease_def start_timer_def stop_timer_def
  is_modify_def defer_modify_def revoke_lease_def remove_lease_def release_key_def run_deferred_all_def
  leaseTimer_def timer_request_def NewBuf_def buf_Insert_def buf_Remove_def buf_Empty_def

lemmas test_simps = exec_simps tester_simps world_simps server_simps handler_simps

text \<open>A hash list that was only ever appended to.\<close>

definition appended :: "string list \<Rightarrow> HashList" where
  "appended xs = fold (\<lambda>v h. case hl_Insert v h of None \<Rightarrow> h | Some h1 \<Rightarrow> h1) xs NewHashList"

lemma appended_ok: "distinct xs \<Longrightarrow> hl_ok (appended xs) \<and> hl_List (appended xs) = Some xs"
proof (induction xs rule: rev_induct)
  case Nil
  then show ?case using hl.new_ok hl.new_elems by (simp add: appended_def)
next
  case (snoc x xs)
  with hl.insert_new [of "appended xs" xs x] show ?case by (auto simp: appended_def)
qed

lemma appended_simps:
  "NewHashList = appended []"
  "distinct xs \<Longrightarrow> v \<notin> set xs \<Longrightarrow> hl_Insert v (appended xs) = Some (appended (xs @ [v]))"
  "distinct xs \<Longrightarrow> hl_Exist v (appended xs) \<longleftrightarrow> v \<in> set xs"
  "distinct xs \<Longrightarrow> hl_List (appended xs) = Some xs"
proof -
  show "NewHashList = appended []" by (simp add: appended_def)
  show "hl_Insert v (appended xs) = Some (appended (xs @ [v]))" if "distinct xs" "v \<notin> set xs"
    using hl.insert_new [of "appended xs" xs v] appended_ok [OF that(1)] that(2) by (auto simp: appended_def)
  show "hl_Exist v (appended xs) \<longleftrightarrow> v \<in> set xs" if "distinct xs"
    using hl.exist_iff [of "appended xs" xs v] appended_ok [OF that] by simp
  show "hl_List (appended xs) = Some xs" if "distinct xs" using appended_ok [OF that] by simp
qed

end
