(* ===== verification/Storage_Test_Verdicts.thy ===== *)
theory Storage_Test_Verdicts
  imports Storage_Test_Run
begin

section \<open>What the conformance tests say of the storage server\<close>

text \<open>
  Each test is run, with the latency as a variable, on a server of which nothing is known but that
  it owns the keys and that the keys of the test are untouched. The tests that start a write in
  the background sleep for a tenth of a second so that the write reaches the server first, and so
  is the bound on the latency.
\<close>

definition untouched :: "app_state \<Rightarrow> string \<Rightarrow> bool" where
  "untouched app k \<longleftrightarrow>
     cacheMap app k = None \<and> leaseMap app k = None \<and> banLeaseMap app k = None \<and> defReqMap app k = None"

definition verdict :: "TestFunc \<Rightarrow> string list" where
  "verdict t = [''Starting '' @ tf_name t @ '':'', ''PASS'', ''Passed (1/1) tests'']"

definition passes :: "nat \<Rightarrow> Storageserver \<Rightarrow> app_state \<Rightarrow> TestFunc \<Rightarrow> bool" where
  "passes latency ss app t \<longleftrightarrow> tester_on latency 200 ss app (announce t summary) = Some (verdict t)"

lemma Itoa_one: "Itoa 1 = ''1''"
  by code_simp

lemmas verdict_simps = passes_def verdict_def untouched_def Itoa_one test_simps

lemmas list_simps = NewHashList_def hl_Insert_def hl_Remove_def hl_Exist_def hl_List_def

subsection \<open>The tests one by one\<close>

lemma testPutGet_passes:
  assumes "latency < 100" and "\<And>key. isKeyInRange ss key = Some True"
    and "untouched app ''keyputget:1''" and "untouched app ''nullkey:1''"
  shows "passes latency ss app \<lparr>tf_name = ''testPutGet'', tf_f = testPutGet\<rparr>"
  using assms by (cases app) (simp add: verdict_simps cong: run_congs)

lemma testAppendGetRemoveList_passes:
  assumes "latency < 100" and "\<And>key. isKeyInRange ss key = Some True"
    and "untouched app ''keylist:1''"
  shows "passes latency ss app \<lparr>tf_name = ''testAppendGetRemoveList'', tf_f = testAppendGetRemoveList\<rparr>"
  using assms by (cases app) (simp add: verdict_simps list_simps cong: run_congs)

lemma testUpdateWithoutLease_passes:
  assumes "latency < 100" and "\<And>key. isKeyInRange ss key = Some True"
    and "untouched app ''revokekey:0''"
  shows "passes latency ss app \<lparr>tf_name = ''testUpdateWithoutLease'', tf_f = testUpdateWithoutLease\<rparr>"
  using assms by (cases app) (simp add: verdict_simps cong: run_congs)

lemma testUpdateBeforeLeaseExpire_passes:
  assumes "latency < 100" and "\<And>key. isKeyInRange ss key = Some True"
    and "untouched app ''revokekey:1''"
  shows "passes latency ss app \<lparr>tf_name = ''testUpdateBeforeLeaseExpire'', tf_f = testUpdateBeforeLeaseExpire\<rparr>"
  using assms by (cases app) (simp add: verdict_simps cong: run_congs)

lemma testUpdateAfterLeaseExpire_passes:
  assumes "latency < 100" and "\<And>key. isKeyInRange ss key = Some True"
    and "untouched app ''revokekey:2''"
  shows "passes latency ss app \<lparr>tf_name = ''testUpdateAfterLeaseExpire'', tf_f = testUpdateAfterLeaseExpire\<rparr>"
  using assms by (cases app) (simp add: verdict_simps cong: run_congs)

lemma testDelayedRevokeWithoutBlocking_passes:
  assumes "latency < 100" and "\<And>key. isKeyInRange ss key = Some True"
    and "untouched app ''revokekey:3''" and "untouched app ''revokekey:4''"
  shows "passes latency ss app \<lparr>tf_name = ''testDelayedRevokeWithoutBlocking'', tf_f = testDelayedRevokeWithoutBlocking\<rparr>"
  using assms by (cases app) (simp add: verdict_simps cong: run_congs)

lemma testDelayedRevokeWithLeaseRequest1_passes:
  assumes "latency < 100" and "\<And>key. isKeyInRange ss key = Some True"
    and "untouched app ''revokekey:5''"
  shows "passes latency ss app \<lparr>tf_name = ''testDelayedRevokeWithLeaseRequest1'', tf_f = testDelayedRevokeWithLeaseRequest1\<rparr>"
  using assms by (cases app) (simp add: verdict_simps cong: run_congs)

lemma testDelayedRevokeWithLeaseRequest2_passes:
  assumes "latency < 100" and "\<And>key. isKeyInRange ss key = Some True"
    and "untouched app ''revokekey:15''"
  shows "passes latency ss app \<lparr>tf_name = ''testDelayedRevokeWithLeaseRequest2'', tf_f = testDelayedRevokeWithLeaseRequest2\<rparr>"
  using assms by (cases app) (simp add: verdict_simps cong: run_congs)

lemma testDelayedRevokeWithUpdate1_passes:
  assumes "latency < 100" and "\<And>key. isKeyInRange ss key = Some True"
    and "untouched app ''revokekey:6''"
  shows "passes latency ss app \<lparr>tf_name = ''testDelayedRevokeWithUpdate1'', tf_f = testDelayedRevokeWithUpdate1\<rparr>"
  using assms by (cases app) (simp add: verdict_simps cong: run_congs)

lemma testDelayedRevokeWithUpdate2_passes:
  assumes "latency < 100" and "\<And>key. isKeyInRange ss key = Some True"
    and "untouched app ''revokekey:7''"
  shows "passes latency ss app \<lparr>tf_name = ''testDelayedRevokeWithUpdate2'', tf_f = testDelayedRevokeWithUpdate2\<rparr>"
  using assms by (cases app) (simp add: verdict_simps cong: run_congs)

lemma testDelayedRevokeWithUpdate3_passes:
  assumes "latency < 100" and "\<And>key. isKeyInRange ss key = Some True"
    and "untouched app ''revokekey:8''"
  shows "passes latency ss app \<lparr>tf_name = ''testDelayedRevokeWithUpdate3'', tf_f = testDelayedRevokeWithUpdate3\<rparr>"
  using assms by (cases app) (simp add: verdict_simps cong: run_congs)

lemma testUpdateListWithoutLease_passes:
  assumes "latency < 100" and "\<And>key. isKeyInRange ss key = Some True"
    and "untouched app ''revokelistkey:0''"
  shows "passes latency ss app \<lparr>tf_name = ''testUpdateListWithoutLease'', tf_f = testUpdateListWithoutLease\<rparr>"
  using assms by (cases app) (simp add: verdict_simps list_simps cong: run_congs)

lemma testUpdateListBeforeLeaseExpire_passes:
  assumes "latency < 100" and "\<And>key. isKeyInRange ss key = Some True"
    and "untouched app ''revokelistkey:1''"
  shows "passes latency ss app \<lparr>tf_name = ''testUpdateListBeforeLeaseExpire'', tf_f = testUpdateListBeforeLeaseExpire\<rparr>"
  using assms by (cases app) (simp add: verdict_simps list_simps cong: run_congs)

lemma testUpdateListAfterLeaseExpire_passes:
  assumes "latency < 100" and "\<And>key. isKeyInRange ss key = Some True"
    and "untouched app ''revokelistkey:2''"
  shows "passes latency ss app \<lparr>tf_name = ''testUpdateListAfterLeaseExpire'', tf_f = testUpdateListAfterLeaseExpire\<rparr>"
  using assms by (cases app) (simp add: verdict_simps list_simps cong: run_congs)

lemma testDelayedRevokeListWithoutBlocking_passes:
  assumes "latency < 100" and "\<And>key. isKeyInRange ss key = Some True"
    and "untouched app ''revokelistkey:3''" and "untouched app ''revokelistkey:4''"
  shows "passes latency ss app \<lparr>tf_name = ''testDelayedRevokeListWithoutBlocking'', tf_f = testDelayedRevokeListWithoutBlocking\<rparr>"
  using assms by (cases app) (simp add: verdict_simps appended_simps cong: run_congs)

lemma testDelayedRevokeListWithLeaseRequest1_passes:
  assumes "latency < 100" and "\<And>key. isKeyInRange ss key = Some True"
    and "untouched app ''revokelistkey:5''"
  shows "passes latency ss app \<lparr>tf_name = ''testDelayedRevokeListWithLeaseRequest1'', tf_f = testDelayedRevokeListWithLeaseRequest1\<rparr>"
  using assms by (cases app) (simp add: verdict_simps appended_simps cong: run_congs)

lemma testDelayedRevokeListWithLeaseRequest2_passes:
  assumes "latency < 100" and "\<And>key. isKeyInRange ss key = Some True"
    and "untouched app ''revokelistkey:15''"
  shows "passes latency ss app \<lparr>tf_name = ''testDelayedRevokeListWithLeaseRequest2'', tf_f = testDelayedRevokeListWithLeaseRequest2\<rparr>"
  using assms by (cases app) (simp add: verdict_simps appended_simps cong: run_congs)

lemma testDelayedRevokeListWithUpdate1_passes:
  assumes "latency < 100" and "\<And>key. isKeyInRange ss key = Some True"
    and "untouched app ''revokelistkey:6''"
  shows "passes latency ss app \<lparr>tf_name = ''testDelayedRevokeListWithUpdate1'', tf_f = testDelayedRevokeListWithUpdate1\<rparr>"
  using assms by (cases app) (simp add: verdict_simps appended_simps cong: run_congs)

lemma testDelayedRevokeListWithUpdate2_passes:
  assumes "latency < 100" and "\<And>key. isKeyInRange ss key = Some True"
    and "untouched app ''revokelistkey:7''"
  shows "passes latency ss app \<lparr>tf_name = ''testDelayedRevokeListWithUpdate2'', tf_f = testDelayedRevokeListWithUpdate2\<rparr>"
  using assms by (cases app) (simp add: verdict_simps appended_simps cong: run_congs)

lemma testDelayedRevokeListWithUpdate3_passes:
  assumes "latency < 100" and "\<And>key. isKeyInRange ss key = Some True"
    and "untouched app ''revokelistkey:8''"
  shows "passes latency ss app \<lparr>tf_name = ''testDelayedRevokeListWithUpdate3'', tf_f = testDelayedRevokeListWithUpdate3\<rparr>"
  using assms by (cases app) (simp add: verdict_simps appended_simps cong: run_congs)

subsection \<open>The program\<close>

text \<open>The flag \<open>-t\<close> with the name of one test runs that test.\<close>

lemma run_tests_none: "t \<notin> tf_name ` set ts \<Longrightarrow> run_tests (\<lambda>name. name = t) ts ret = ret"
  by (induction ts) auto

lemma run_tests_one:
  "distinct (map tf_name ts) \<Longrightarrow> t \<in> set ts \<Longrightarrow> run_tests (\<lambda>name. name = tf_name t) ts ret = announce t ret"
  by (induction ts) (auto simp: run_tests_none)

lemma btests_distinct: "distinct (map tf_name btests)"
  by code_simp

lemma only_server: "ss_servers ss = [n] \<Longrightarrow> NodeID n = nodeid ss \<Longrightarrow> isKeyInRange ss key = Some True"
  by (simp add: isKeyInRange_def ring_machine_def ring_last_def ring_least_above_def ring_least_def Let_def)

definition test_keys :: "string list" where
  "test_keys = [''nullkey:1'', ''keyputget:1'', ''keylist:1''] @
     map (\<lambda>n. ''revokekey:'' @ n) [''0'', ''1'', ''2'', ''3'', ''4'', ''5'', ''15'', ''6'', ''7'', ''8''] @
     map (\<lambda>n. ''revokelistkey:'' @ n) [''0'', ''1'', ''2'', ''3'', ''4'', ''5'', ''15'', ''6'', ''7'', ''8'']"

lemmas tests_pass = testPutGet_passes testAppendGetRemoveList_passes testUpdateWithoutLease_passes
  testUpdateBeforeLeaseExpire_passes testUpdateAfterLeaseExpire_passes testDelayedRevokeWithoutBlocking_passes
  testDelayedRevokeWithLeaseRequest1_passes testDelayedRevokeWithLeaseRequest2_passes
  testDelayedRevokeWithUpdate1_passes testDelayedRevokeWithUpdate2_passes testDelayedRevokeWithUpdate3_passes
  testUpdateListWithoutLease_passes testUpdateListBeforeLeaseExpire_passes
  testUpdateListAfterLeaseExpire_passes testDelayedRevokeListWithoutBlocking_passes
  testDelayedRevokeListWithLeaseRequest1_passes testDelayedRevokeListWithLeaseRequest2_passes
  testDelayedRevokeListWithUpdate1_passes testDelayedRevokeListWithUpdate2_passes
  testDelayedRevokeListWithUpdate3_passes

lemma all_pass:
  assumes l: "latency < 100" and s: "\<And>key. isKeyInRange ss key = Some True"
    and k: "\<forall>k \<in> set test_keys. untouched app k"
  shows "list_all (passes latency ss app) btests"
proof -
  note k = k [unfolded test_keys_def, simplified]
  show ?thesis
    using k by (simp add: btests_def tests_pass [OF l s])
qed

lemma one_test_printed:
  assumes "t \<in> set btests" and "latency < 100" and "ss_servers ss = [n]" and "NodeID n = nodeid ss"
    and "\<forall>k \<in> set test_keys. untouched app k"
  shows "tester_on latency 200 ss app (tester_main 2 N myID (\<lambda>name. name = tf_name t)) =
    Some [''Starting '' @ tf_name t @ '':'', ''PASS'', ''Passed (1/1) tests'']"
proof -
  have "passes latency ss app t"
    using all_pass [OF assms(2) only_server [OF assms(3,4)] assms(5)] assms(1) by (simp add: list_all_iff)
  then show ?thesis
    by (simp add: tester_main_def run_tests_one [OF btests_distinct assms(1)] passes_def verdict_def)
qed

text \<open>C11: The storage server passes its conformance tests: run on the only server of a ring, whatever
  it has stored under other keys, over a network that takes less than a tenth of a second each
  way, every test of \<open>storagetest\<close> prints that it passed.\<close>

theorem storage_tests_pass:
  assumes "t \<in> set btests" and "latency < 100"
    and "ss_servers ss = [n]" and "NodeID n = nodeid ss" and "\<forall>k \<in> set test_keys. untouched app k"
  shows "tester_on latency 200 ss app (tester_main 2 N myID (\<lambda>name. name = tf_name t)) =
    Some [''Starting '' @ tf_name t @ '':'', ''PASS'', ''Passed (1/1) tests'']"
  by (rule one_test_printed [OF assms])

theorem storage_tests_pass_witness:
  "\<exists>ss app. NewStorageserver ''localhost:7'' 1 7 3 0 [] = Some (ss, app) \<and>
     tester_on 20 200 ss app (tester_main 2 1 0 (\<lambda>name. name = ''testDelayedRevokeListWithUpdate2'')) =
       Some [''Starting testDelayedRevokeListWithUpdate2:'', ''PASS'', ''Passed (1/1) tests'']"
proof -
  let ?t = "\<lparr>tf_name = ''testDelayedRevokeListWithUpdate2'', tf_f = testDelayedRevokeListWithUpdate2\<rparr>"
  let ?ss = "\<lparr>nodeid = 3, ss_servers = [slave ''localhost:7'' 3], numnodes = 1, cntnodes = 1\<rparr>"
  have "strings_Split ''localhost:7'' '':'' = [''localhost'', ''7'']" "Itoa 7 = ''7''" by code_simp+
  then have s: "NewStorageserver ''localhost:7'' 1 7 3 0 [] = Some (?ss, app_init)"
    by (simp add: NewStorageserver_def slave_def)
  have t: "?t \<in> set btests" by (simp add: btests_def)
  have "tester_on 20 200 ?ss app_init (tester_main 2 1 0 (\<lambda>name. name = tf_name ?t)) =
      Some [''Starting '' @ tf_name ?t @ '':'', ''PASS'', ''Passed (1/1) tests'']"
    by (rule storage_tests_pass [OF t, where n = "slave ''localhost:7'' 3"])
       (simp_all add: slave_def untouched_def app_init_def)
  with s show ?thesis by auto
qed

text \<open>
  The tests leave their keys behind: the list test passes once on a server, and fails when it is
  run there again.
\<close>

theorem list_test_runs_once:
  assumes "latency < 100" and "ss_servers ss = [n]" and "NodeID n = nodeid ss" and "untouched app ''keylist:1''"
  shows "tester_on latency 200 ss app
      (testAppendGetRemoveList (testAppendGetRemoveList summary)) =
    Some [''PASS'', ''FAIL: got wrong value'', ''Passed (1/2) tests'']"
proof -
  have Itoa_two: "Itoa 2 = ''2''" by code_simp
  show ?thesis
    using assms(1,4) only_server [OF assms(2,3)]
    by (cases app) (simp add: verdict_simps list_simps Itoa_two cong: run_congs)
qed

text \<open>A correct server fails where the network takes a quarter of a second each way.\<close>

theorem slow_network_fails:
  assumes "ss_servers ss = [n]" and "NodeID n = nodeid ss"
    and "untouched app ''revokekey:3''" and "untouched app ''revokekey:4''"
  shows "tester_on 250 200 ss app (testDelayedRevokeWithoutBlocking summary) =
    Some [''FAIL: concurrent Put got blocked'', ''Passed (0/1) tests'']"
proof -
  have Itoa_zero: "Itoa 0 = ''0''" by code_simp
  show ?thesis
    using assms(3,4) only_server [OF assms(1,2)]
    by (cases app) (simp add: verdict_simps Itoa_zero cong: run_congs)
qed

text \<open>
  The initialization test against a master that waits for one more server, the tester: it is not
  ready before the tester registers and ready afterwards, and refuses a key of the tester.
\<close>

theorem init_test_passes:
  assumes "Suc (cntnodes ss) = numnodes ss" and "length (ss_servers ss) = numnodes ss"
    and "isKeyInRange (ss\<lparr>ss_servers := (ss_servers ss)[cntnodes ss := \<lparr>HostPort = tester_host, NodeID = myID\<rparr>],
           cntnodes := numnodes ss\<rparr>) ''wrongkey:1'' = Some False"
  shows "tester_on latency 200 ss app (tester_main 1 (int (numnodes ss)) myID (\<lambda>_. True)) =
    Some [''Starting testInitStorageServers:'', ''PASS'', ''Passed (1/1) tests'']"
  using assms
  by (cases ss)
     (auto simp: verdict_simps tester_main_def jtests_def testInitStorageServers_def st_GetServers_def
       st_RegisterServer_def checkError_def GetServers_def RegisterServer_def zero_RegisterReply_def cong: run_congs)

end
