(* ===== verification/Storage_Calls.thy ===== *)
theory Storage_Calls
  imports Storage_Rpc
begin

section \<open>Remote calls never panic the storage server\<close>

text \<open>
  The methods of \<open>Storageserver\<close> assert the types of the values that \<open>appHandler\<close> sends them
  (\<open>value.(string)\<close>, \<open>status.(bool)\<close>); an assertion that fails is a panic. \<open>never_panics A call\<close>:
  whatever the requests of a call get as answers, if the answers are among \<open>A\<close>, the call comes to
  its end. The theorem takes for \<open>A\<close> everything the handler has ever answered.
\<close>

inductive never_panics :: "(cacheReq \<times> storage_reply) set \<Rightarrow> server_call \<Rightarrow> bool"
  for A :: "(cacheReq \<times> storage_reply) set" where
  answer: "never_panics A (Answer a)"
| await: "(\<And>v. (r, v) \<in> A \<Longrightarrow> \<exists>call. k v = Some call \<and> never_panics A call) \<Longrightarrow> never_panics A (Await r k)"

declare never_panics.answer [simp, intro]

inductive_simps never_panics_await: "never_panics A (Await r k)"

definition server_ok :: "Storageserver \<Rightarrow> bool" where
  "server_ok ss \<longleftrightarrow> length (ss_servers ss) = numnodes ss \<and> 0 < numnodes ss"

definition answers :: "storage_effect list \<Rightarrow> (cacheReq \<times> storage_reply) set" where
  "answers es = {(r, v). SReply r v \<in> set es}"

subsection \<open>The types of the answers\<close>

lemma data_log_answers: "(r, v) \<in> set (data_log es) \<longleftrightarrow> (r, v) \<in> answers es \<and> is_data (cr_typ r)"
  by (induction es rule: data_log.induct) (auto simp: answers_def)

lemma run_deferred_modifies:
  "run_deferred n c b = Some (c', b', es) \<Longrightarrow> SReply r v \<in> set es \<Longrightarrow> cr_typ r \<noteq> S_PUT_LEASE"
proof (induction n arbitrary: c b es)
  case (Suc n)
  show ?case
  proof (cases "buf_Empty b")
    case True
    with Suc.prems show ?thesis by auto
  next
    case False
    with Suc.prems(1) obtain q b1 c1 w es1 where "modify c q = Some (c1, w)" "run_deferred n c1 b1 = Some (c', b', es1)"
      "es = SReply q w # es1" by (auto split: prod.splits option.splits)
    with Suc.IH [of c1 b1 es1] Suc.prems(2) show ?thesis by (auto simp: modify_def split: storage_req.splits)
  qed
qed simp

lemma release_key_modifies:
  "release_key s k = Some (s', es) \<Longrightarrow> SReply r v \<in> set es \<Longrightarrow> cr_typ r \<noteq> S_PUT_LEASE"
  by (auto simp: release_key_def run_deferred_all_def Let_def dest: run_deferred_modifies simp del: run_deferred.simps split: option.splits)

lemma appHandler_lease_answer:
  assumes "appHandler s q = Some (s', es)" and "SReply r v \<in> set es" and "cr_typ r = S_PUT_LEASE"
  shows "\<exists>b. v = SBool b"
proof (cases "cr_typ q")
  case S_PUT_LEASE
  with assms show ?thesis
    by (auto simp: appHandler_def pre_check_def process_request_def put_lease_def start_timer_def is_modify_def Let_def
        split: option.splits if_splits)
next
  case REVOKE_LEASE
  with assms show ?thesis
    by (auto simp: appHandler_def pre_check_def process_request_def revoke_lease_def is_modify_def Let_def
        dest: release_key_modifies split: option.splits if_splits)
next
  case REMOVE_LEASE
  with assms show ?thesis
    by (auto simp: appHandler_def pre_check_def process_request_def remove_lease_def is_modify_def Let_def
        dest: release_key_modifies split: option.splits if_splits)
qed (use assms in \<open>auto simp: appHandler_def pre_check_def process_request_def defer_modify_def modify_def
       is_modify_def Let_def split: option.splits if_splits stored.splits\<close>)

lemma storage_run_lease_answer:
  "storage_run s evs = Some (s', es) \<Longrightarrow> SReply r v \<in> set es \<Longrightarrow> cr_typ r = S_PUT_LEASE \<Longrightarrow> \<exists>b. v = SBool b"
proof (induction evs arbitrary: s es)
  case (Cons e evs)
  then obtain s1 es1 es2 where e: "storage_exec s e = Some (s1, es1)" "storage_run s1 evs = Some (s', es2)" "es = es1 @ es2"
    by (auto split: option.splits)
  moreover have "\<exists>b. v = SBool b" if "SReply r v \<in> set es1"
    using e(1) that Cons.prems(3)
    by (cases e) (auto dest: appHandler_lease_answer split: if_splits option.splits)
  ultimately show ?case using Cons by auto
qed simp

lemma spec_answer_types:
  "cr_typ r = GET_VALUE \<Longrightarrow> snd (spec_req n r) = SNil \<or> (\<exists>x. snd (spec_req n r) = SStr x)"
  "cr_typ r = GET_LIST_VALUE \<Longrightarrow> snd (spec_req n r) = SNil \<or> (\<exists>xs. snd (spec_req n r) = SList xs)"
  "cr_typ r = APPEND_LIST_VALUE \<or> cr_typ r = REMOVE_LIST_VALUE \<Longrightarrow> \<exists>b. snd (spec_req n r) = SBool b"
  by (cases "n (cr_key r)"; auto simp: spec_req_def Let_def split: aval.splits)+

lemma answer_types:
  assumes "storage_run app_init evs = Some (s, es)" and "(r, v) \<in> answers es"
  shows "cr_typ r = GET_VALUE \<Longrightarrow> v = SNil \<or> (\<exists>x. v = SStr x)"
    and "cr_typ r = GET_LIST_VALUE \<Longrightarrow> v = SNil \<or> (\<exists>xs. v = SList xs)"
    and "cr_typ r \<in> {APPEND_LIST_VALUE, REMOVE_LIST_VALUE, S_PUT_LEASE} \<Longrightarrow> \<exists>b. v = SBool b"
proof -
  have spec: "\<exists>n. v = snd (spec_req n r)" if "is_data (cr_typ r)"
    using answered_spec [OF assms(1)] assms(2) that by (simp add: data_log_answers)
  show "v = SNil \<or> (\<exists>x. v = SStr x)" if "cr_typ r = GET_VALUE"
    using spec that spec_answer_types(1) [OF that] by (auto simp: is_data_def)
  show "v = SNil \<or> (\<exists>xs. v = SList xs)" if "cr_typ r = GET_LIST_VALUE"
    using spec that spec_answer_types(2) [OF that] by (auto simp: is_data_def)
  show "\<exists>b. v = SBool b" if t: "cr_typ r \<in> {APPEND_LIST_VALUE, REMOVE_LIST_VALUE, S_PUT_LEASE}"
  proof (cases "cr_typ r = S_PUT_LEASE")
    case True
    with storage_run_lease_answer [OF assms(1)] assms(2) show ?thesis by (simp add: answers_def)
  next
    case False
    with t have "cr_typ r = APPEND_LIST_VALUE \<or> cr_typ r = REMOVE_LIST_VALUE" by auto
    with spec spec_answer_types(3) [OF this] show ?thesis by (auto simp: is_data_def is_modify_def)
  qed
qed

subsection \<open>The calls\<close>

lemma in_range_returns:
  assumes "server_ok ss"
  shows "\<exists>mine. isKeyInRange ss key = Some mine"
proof -
  have "ss_servers ss \<noteq> []" using assms by (auto simp: server_ok_def)
  from ring_machine_owns [OF this, of "key_hash key"] show ?thesis by (simp add: isKeyInRange_def owns_def Let_def)
qed

lemma lease_continues:
  assumes "storage_run app_init evs = Some (s, es)"
  shows "never_panics (answers es)
    (Await (ask S_PUT_LEASE key client c) (\<lambda>w. map_option (\<lambda>r. Answer (f r)) (Get_lease reply w)))"
proof (rule never_panics.await)
  fix w
  assume "(ask S_PUT_LEASE key client c, w) \<in> answers es"
  from answer_types(3) [OF assms this] obtain b where "w = SBool b" by auto
  then show "\<exists>call. map_option (\<lambda>r. Answer (f r)) (Get_lease reply w) = Some call \<and> never_panics (answers es) call"
    by (simp add: Get_lease_def)
qed

lemma Get_continues:
  assumes run: "storage_run app_init evs = Some (s, es)" and ok: "server_ok ss"
  shows "\<exists>call. call_Get ss args c = Some (ss, call) \<and> never_panics (answers es) call"
proof -
  obtain mine where mine: "isKeyInRange ss (ga_Key args) = Some mine" using in_range_returns [OF ok] by blast
  show ?thesis
  proof (cases mine)
    case False
    with mine show ?thesis by (simp add: call_Get_def Get_begin_def)
  next
    case True
    have "\<exists>call. map_option (\<lambda>next. case next of Inl reply \<Rightarrow> Answer (A_Get reply)
            | Inr (reply, r1) \<Rightarrow> Await r1 (\<lambda>w. map_option (\<lambda>reply1. Answer (A_Get reply1)) (Get_lease reply w)))
          (Get_value args c v) = Some call \<and> never_panics (answers es) call"
      if "(ask GET_VALUE (ga_Key args) '''' c, v) \<in> answers es" for v
      using answer_types(1) [OF run that] lease_continues [OF run]
      by (auto simp: Get_value_def Let_def)
    with mine True show ?thesis by (simp add: call_Get_def Get_begin_def never_panics_await)
  qed
qed

lemma GetList_continues:
  assumes run: "storage_run app_init evs = Some (s, es)" and ok: "server_ok ss"
  shows "\<exists>call. call_GetList ss args c = Some (ss, call) \<and> never_panics (answers es) call"
proof -
  obtain mine where mine: "isKeyInRange ss (ga_Key args) = Some mine" using in_range_returns [OF ok] by blast
  show ?thesis
  proof (cases mine)
    case False
    with mine show ?thesis by (simp add: call_GetList_def GetList_begin_def)
  next
    case True
    have "\<exists>call. map_option (\<lambda>next. case next of Inl reply \<Rightarrow> Answer (A_GetList reply)
            | Inr (reply, r1) \<Rightarrow> Await r1 (\<lambda>w. map_option (\<lambda>reply1. Answer (A_GetList reply1)) (Get_lease reply w)))
          (GetList_value args c v) = Some call \<and> never_panics (answers es) call"
      if "(ask GET_LIST_VALUE (ga_Key args) '''' c, v) \<in> answers es" for v
      using answer_types(2) [OF run that] lease_continues [OF run]
      by (auto simp: GetList_value_def Let_def)
    with mine True show ?thesis by (simp add: call_GetList_def GetList_begin_def never_panics_await)
  qed
qed

lemma Register_continues:
  "server_ok ss \<Longrightarrow> \<exists>ss1 reply. RegisterServer ss n = Some (ss1, reply) \<and> server_ok ss1"
  by (auto simp: RegisterServer_def server_ok_def Let_def)

lemma write_continues:
  assumes run: "storage_run app_init evs = Some (s, es)"
  shows "\<exists>g. call_Put ss a c = Some (ss, g) \<and> never_panics (answers es) g"
    and "\<exists>g. call_AppendToList ss a c = Some (ss, g) \<and> never_panics (answers es) g"
    and "\<exists>g. call_RemoveFromList ss a c = Some (ss, g) \<and> never_panics (answers es) g"
  using answer_types(3) [OF run]
  by (fastforce simp: call_Put_def call_AppendToList_def call_RemoveFromList_def never_panics_await
      AppendToList_begin_def RemoveFromList_begin_def)+

lemmas storage_call_defs = storage_call_def storage_dispatch_def storage_rpc_defs storage_interface_def

text \<open>C39: A remote call never panics the storage server: for every method that a call can name, on a
  server whose table has its size, the call starts, and whatever the handler has answered to its
  requests, in any run, every assertion on the type of an answer holds until the caller has its
  reply; the table keeps its size.\<close>

theorem storage_calls_never_panic:
  assumes run: "storage_run app_init evs = Some (s, es)" and ok: "server_ok ss"
    and call: "storage_call ss name args c = Some result"
  shows "\<exists>ss1 g. result = Some (ss1, g) \<and> server_ok ss1 \<and> never_panics (answers es) g"
proof (cases args)
  case (ArgsGet a)
  with call have "result = call_Get ss a c \<or> result = call_GetList ss a c"
    by (auto simp: storage_call_defs split: if_splits)
  with Get_continues [OF run ok, of a c] GetList_continues [OF run ok, of a c] ok show ?thesis by auto
next
  case (ArgsPut k v)
  with call have "result = call_Put ss (k, v) c \<or> result = call_AppendToList ss (k, v) c \<or>
      result = call_RemoveFromList ss (k, v) c"
    by (auto simp: storage_call_defs split: if_splits)
  with write_continues [OF run, of ss "(k, v)" c] ok show ?thesis by auto
next
  case (ArgsRegister n)
  with call Register_continues [OF ok, of n] show ?thesis
    by (auto simp: storage_call_defs split: if_splits)
next
  case ArgsGetServers
  with call ok show ?thesis by (auto simp: storage_call_defs split: if_splits)
qed

theorem storage_calls_never_panic_witness:
  "\<exists>s es g. storage_run app_init leased_list = Some (s, es) \<and>
     storage_call one_server ''StorageRPC.GetList'' (ArgsGet \<lparr>ga_Key = ''l'', WantLease = True, LeaseClient = ''c''\<rparr>) 2 =
       Some (Some (one_server, g)) \<and> never_panics (answers es) g"
proof -
  obtain s es where s: "storage_run app_init leased_list = Some (s, es)" using leased_list_result by fastforce
  have ok: "server_ok one_server" by (simp add: server_ok_def one_server_def)
  let ?args = "\<lparr>ga_Key = ''l'', WantLease = True, LeaseClient = ''c''\<rparr>"
  have c: "storage_call one_server ''StorageRPC.GetList'' (ArgsGet ?args) 2 = Some (call_GetList one_server ?args 2)"
    by (simp add: storage_call_defs)
  from storage_calls_never_panic [OF s ok c] obtain ss1 g where "call_GetList one_server ?args 2 = Some (ss1, g)"
    "never_panics (answers es) g" by blast
  moreover from this(1) have "ss1 = one_server" by (auto simp: call_GetList_def)
  ultimately show ?thesis using s c by auto
qed

end
