(* ===== verification/Rpc_Adapters.thy ===== *)
theory Rpc_Adapters
  imports Airline_Paxos Tran_Layer Libstore
begin

section \<open>The other rpc adapters (airlinerpc, tranrpc, cacherpc)\<close>

text \<open>
  As in theory Storage\_Rpc: a call names its method, the adapter that was registered passes it on
  to its interface. A method of the airline server puts one request on the channel of the store
  handler and answers at once (\<open>Queued\<close>) or waits for a value on the channel of the request
  (\<open>Waits\<close>). The lemmas show that every call of an airline that comes back through the log is
  answered exactly once, with a value of the type that it asserts.
\<close>

subsection \<open>airlinerpc.go\<close>

datatype airline_answer =
    PutReplyOf airline_status
  | GetReplyOf GetReply
  | GetAllReplyOf GetAllReply
  | TranReplyOf int

datatype airline_call =
    Queued Request airline_answer
  | Waits Request "reply_value \<Rightarrow> airline_answer option"

type_synonym ('s, 'a) airline_method = "'s \<Rightarrow> 'a \<Rightarrow> nat \<Rightarrow> airline_call"

record 's AirlineInterface =
  ai_CreateFlight :: "('s, string \<times> FlightInfo) airline_method"
  ai_GetFlight :: "('s, string \<times> bool \<times> string) airline_method"
  ai_GetAllFlightIDs :: "('s, string \<times> string \<times> string) airline_method"
  ai_Transaction :: "('s, TranArgs) airline_method"

record 's AirlineRPC =
  arpc_as :: "'s AirlineInterface"

definition NewAirlineRPC :: "'s AirlineInterface \<Rightarrow> 's AirlineRPC" where
  "NewAirlineRPC as = \<lparr>arpc_as = as\<rparr>"

definition AirlineRPC_CreateFlight :: "'s AirlineRPC \<Rightarrow> ('s, string \<times> FlightInfo) airline_method" where
  "AirlineRPC_CreateFlight arpc = ai_CreateFlight (arpc_as arpc)"

definition AirlineRPC_GetFlight :: "'s AirlineRPC \<Rightarrow> ('s, string \<times> bool \<times> string) airline_method" where
  "AirlineRPC_GetFlight arpc = ai_GetFlight (arpc_as arpc)"

definition AirlineRPC_GetAllFlightIDs :: "'s AirlineRPC \<Rightarrow> ('s, string \<times> string \<times> string) airline_method" where
  "AirlineRPC_GetAllFlightIDs arpc = ai_GetAllFlightIDs (arpc_as arpc)"

definition AirlineRPC_Transaction :: "'s AirlineRPC \<Rightarrow> ('s, TranArgs) airline_method" where
  "AirlineRPC_Transaction arpc = ai_Transaction (arpc_as arpc)"

text \<open>The exported methods by name; \<open>None\<close> is the error for the caller.\<close>

definition airline_dispatch ::
  "'s AirlineRPC \<Rightarrow> 's \<Rightarrow> string \<Rightarrow> op_args \<Rightarrow> nat \<Rightarrow> airline_call option" where
  "airline_dispatch arpc s name args c =
     (case args of
        PutArgs f i \<Rightarrow>
          if name = ''AirlineRPC.CreateFlight'' then Some (AirlineRPC_CreateFlight arpc s (f, i) c) else None
      | GetArgs f w l \<Rightarrow>
          if name = ''AirlineRPC.GetFlight'' then Some (AirlineRPC_GetFlight arpc s (f, w, l) c) else None
      | GetAllArgs x y d \<Rightarrow>
          if name = ''AirlineRPC.GetAllFlightIDs'' then Some (AirlineRPC_GetAllFlightIDs arpc s (x, y, d) c) else None
      | Tran t \<Rightarrow>
          if name = ''AirlineRPC.Transaction'' then Some (AirlineRPC_Transaction arpc s t c) else None)"

text \<open>The airline server behind it: the methods of theory Airline\_Paxos.\<close>

definition airline_interface :: "marshaller \<Rightarrow> AirlineServer AirlineInterface" where
  "airline_interface marshal =
     \<lparr>ai_CreateFlight = (\<lambda>s (f, i) c. Waits (CreateFlight marshal s f i c) (\<lambda>v. map_option PutReplyOf (CreateFlight_reply v))),
      ai_GetFlight = (\<lambda>s (f, w, l) c. Waits (GetFlight marshal s f w l c) (\<lambda>v. map_option GetReplyOf (GetFlight_reply v))),
      ai_GetAllFlightIDs = (\<lambda>s (x, y, d) c.
        Waits (GetAllFlightIDs marshal s x y d c) (\<lambda>v. map_option GetAllReplyOf (GetAllFlightIDs_reply v))),
      ai_Transaction = (\<lambda>s args c.
        if ta_TranType args = TRANS_OLD
        then Waits (Transaction marshal s args c) (\<lambda>v. map_option TranReplyOf (Transaction_reply TRANS_OLD v))
        else Queued (Transaction marshal s args c) (TranReplyOf airlineproto_OK))\<rparr>"

subsection \<open>tranrpc.go and cacherpc.go\<close>

text \<open>A method of the transaction manager or of the cache gets its state, arguments and channel.\<close>

record ('s, 'a, 'r) TranInterface =
  ti_TransResponse :: "'s \<Rightarrow> 'a \<Rightarrow> nat \<Rightarrow> 'r"

record ('s, 'a, 'r) TranRPC =
  trpc_t :: "('s, 'a, 'r) TranInterface"

definition NewTranRPC :: "('s, 'a, 'r) TranInterface \<Rightarrow> ('s, 'a, 'r) TranRPC" where
  "NewTranRPC tc = \<lparr>trpc_t = tc\<rparr>"

definition TranRPC_TransResponse :: "('s, 'a, 'r) TranRPC \<Rightarrow> 's \<Rightarrow> 'a \<Rightarrow> nat \<Rightarrow> 'r" where
  "TranRPC_TransResponse trpc = ti_TransResponse (trpc_t trpc)"

definition tran_interface :: "(TranLayer, TranArgs, tl_request option) TranInterface" where
  "tran_interface = \<lparr>ti_TransResponse = (\<lambda>_ args c. TransResponse_request args c)\<rparr>"

record ('s, 'r) CacherInterface =
  ci_RevokeLease :: "'s \<Rightarrow> string \<Rightarrow> 'r"

record ('s, 'r) CacheRPC =
  crpc_c :: "('s, 'r) CacherInterface"

definition NewCacheRPC :: "('s, 'r) CacherInterface \<Rightarrow> ('s, 'r) CacheRPC" where
  "NewCacheRPC cc = \<lparr>crpc_c = cc\<rparr>"

definition CacheRPC_RevokeLease :: "('s, 'r) CacheRPC \<Rightarrow> 's \<Rightarrow> string \<Rightarrow> 'r" where
  "CacheRPC_RevokeLease crpc = ci_RevokeLease (crpc_c crpc)"

subsection \<open>Every call is answered once\<close>

text \<open>A participant's request for a prepare or a decision never stops the store handler.\<close>

lemma transaction_handled:
  assumes "air_inv s" and "ta_TranType t \<noteq> TRANS_OLD"
  shows "\<exists>s' es. PaxosTransaction dial poll s t c True = Some (s', es)"
proof (cases "ta_TranType t")
  case TRANS_INIT
  let ?r = "mk_request INIT_TRANS '''' (VArgs t) None True"
  have r: "req_val ?r = VArgs t" by simp
  have "initTrans dial s ?r \<noteq> None"
    by (rule initTrans_result [OF r, of s dial]) (simp add: Let_def)
  then obtain x where "initTrans dial s ?r = Some x" by blast
  with TRANS_INIT show ?thesis
    by (cases x) (simp add: PaxosTransaction_def storeHandler_def transactionHandler_def)
next
  case TRANS_RESPONSE
  let ?r = "mk_request REQ_TRANS_RESPONSE '''' (VArgs t) None True"
  have "\<exists>x. responseTrans s ?r = Some x"
  proof (cases "logBuf s (ta_TranID t)")
    case None
    then show ?thesis by (simp add: responseTrans_def Let_def)
  next
    case (Some ls)
    with responseTrans_result [OF assms(1), of ?r t ls] show ?thesis by simp
  qed
  with TRANS_RESPONSE show ?thesis
    by (auto simp: PaxosTransaction_def storeHandler_def transactionHandler_def)
next
  case TRANS_OLD_RESPONSE
  then show ?thesis by (simp add: PaxosTransaction_def storeHandler_def)
qed (use assms(2) in simp)

lemma apply_answers:
  "\<exists>s2 b. apply_op dial poll s (PutArgs f i) (Some c) True = Some (s2, [Send c (RBool b)])"
  "\<exists>j. apply_op dial poll s (GetArgs f w l) (Some c) True = Some (s, [Send c (RInfo j)])"
  "\<exists>ids. apply_op dial poll s (GetAllArgs x y d) (Some c) True = Some (s, [Send c (RList ids)])"
proof -
  show "\<exists>s2 b. apply_op dial poll s (PutArgs f i) (Some c) True = Some (s2, [Send c (RBool b)])"
    by (cases "flightBuf s f") (auto simp: apply_op_def PaxosCreateFlight_def relay_def storeHandler_def
        createFlight_def getFlightInfo_def send_def Let_def)
qed (simp_all add: apply_op_def PaxosGetFlight_def PaxosGetAllFlightIDs_def relay_def storeHandler_def send_def)

lemmas airline_call_defs = airline_dispatch_def AirlineRPC_Transaction_def AirlineRPC_CreateFlight_def
  AirlineRPC_GetFlight_def AirlineRPC_GetAllFlightIDs_def NewAirlineRPC_def airline_interface_def

lemma GetFlight_reply_info: "\<exists>g. GetFlight_reply (RInfo j) = Some g"
  by (cases j) simp_all



end
