(* ===== verification/Server_Programs.thy ===== *)
theory Server_Programs
  imports Replicated_Airline Tribserver Storage_Rpc Rpc_Adapters
begin

section \<open>The server programs (airlineserver, tribserver, storageserver)\<close>

text \<open>
  The three \<open>main\<close> functions: flags, listening, starting the server, registering what it serves.
  The flags are what the library \<open>flag\<close> made of the command line, with the defaults of the code.
  \<open>listen\<close> is the network: for the address to listen on it gives the port of the listener, or
  nothing. A program ends with an error, ends silently, or serves the methods of what it
  registered.

  The lemmas show what an airline server is without its flag \<open>-replicas\<close>: cut off. Its node sends
  every message to an address that is not its own, and nobody sends any to it, so it never
  learns a value and its callers wait for ever.
\<close>

datatype 'a program_end = Fatal string | Returned | Serving "string list" 'a

definition localhost :: "int \<Rightarrow> string" where
  "localhost port = ''localhost:'' @ Itoa port"

subsection \<open>The storage server (official/storageserver)\<close>

record storage_flags =
  sf_port :: int
  sf_master :: string
  sf_numNodes :: int
  sf_nodeID :: nat

definition storage_defaults :: storage_flags where
  "storage_defaults = \<lparr>sf_port = 0, sf_master = '''', sf_numNodes = 0, sf_nodeID = 0\<rparr>"

text \<open>A server without a master is its own master.\<close>

definition self_mastering :: "storage_flags \<Rightarrow> storage_flags" where
  "self_mastering f =
     (if sf_master f = '''' then
        (let port = (if sf_port f = 0 then 9009 else sf_port f) in
         f\<lparr>sf_port := port, sf_master := localhost port,
           sf_numNodes := (if sf_numNodes f = 0 then 1 else sf_numNodes f)\<rparr>)
      else f)"

text \<open>
  \<open>rnd\<close> and \<open>attempts\<close> are the random identifier and the answers of the master that
  \<open>NewStorageserver\<close> uses; \<open>None\<close> is its panic, or a wait for a master that does not answer.
\<close>

definition storageserver_main ::
  "(string \<Rightarrow> int option) \<Rightarrow> 32 word \<Rightarrow> attempt list \<Rightarrow> storage_flags \<Rightarrow>
     (Storageserver \<times> app_state \<times> Storageserver StorageRPC) program_end option" where
  "storageserver_main listen rnd attempts flags =
     (let f = self_mastering flags in
      case listen ('':'' @ Itoa (sf_port f)) of
        None \<Rightarrow> Some (Fatal ''listen error:'')
      | Some listenport \<Rightarrow>
          map_option
            (\<lambda>(ss, app). Serving [''StorageRPC''] (ss, app, NewStorageRPC storage_interface))
            (NewStorageserver (sf_master f) (nat (sf_numNodes f)) listenport (of_nat (sf_nodeID f)) rnd attempts))"

lemma localhost_inject [simp]: "localhost p = localhost p' \<longleftrightarrow> p = p'"
  by (simp add: localhost_def)

lemma Itoa_no_colon [simp]: "CHR '':'' \<notin> set (Itoa i)"
  by (auto dest!: Itoa_chars simp: is_digit_def)

lemma localhost_parts: "strings_Split (localhost p) '':'' = [''localhost'', Itoa p]"
  using Split_char_part [of "CHR '':''" "''localhost''" "Itoa p"] by (simp add: localhost_def Split_char_whole)

text \<open>Without \<open>-master\<close> the program is the only server of a ring that is ready.\<close>

lemma storageserver_alone:
  assumes "sf_master f = ''''" and "sf_numNodes f \<in> {0, 1}"
    and "p = (if sf_port f = 0 then 9009 else sf_port f)" and "listen ('':'' @ Itoa p) = Some p"
  shows "storageserver_main listen rnd attempts f =
    Some (Serving [''StorageRPC'']
      (\<lparr>nodeid = of_nat (sf_nodeID f), ss_servers = [\<lparr>HostPort = localhost p, NodeID = of_nat (sf_nodeID f)\<rparr>],
        numnodes = 1, cntnodes = 1\<rparr>, app_init, NewStorageRPC storage_interface))"
proof -
  have "strings_Split (sf_master (self_mastering f)) '':'' = [''localhost'', Itoa p]"
    using assms(1,3) by (simp add: self_mastering_def Let_def localhost_parts)
  with assms show ?thesis
    by (auto simp: storageserver_main_def self_mastering_def NewStorageserver_def Let_def)
qed

subsection \<open>The agency server (official/tribserver)\<close>

record agency_flags =
  gf_agency :: string
  gf_masterstore :: int
  gf_ownstore :: int
  gf_port :: int
  gf_prefer :: int

definition agency_defaults :: agency_flags where
  "agency_defaults = \<lparr>gf_agency = ''agency1'', gf_masterstore = 9000, gf_ownstore = 9001, gf_port = 7000, gf_prefer = 0\<rparr>"

text \<open>
  \<open>new_store\<close> is \<open>NewLibstore\<close> for an agency, the address of its store and its own address. The
  cache and the transaction manager have registered their methods in the same process.
\<close>

definition tribserver_main ::
  "(string \<Rightarrow> int option) \<Rightarrow> (string \<Rightarrow> bool) \<Rightarrow> (string \<Rightarrow> string \<Rightarrow> string \<Rightarrow> Libstore option) \<Rightarrow>
     (string \<Rightarrow> string \<Rightarrow> 'w \<Rightarrow> storage_status option \<times> 'w) \<Rightarrow>
     (Libstore \<Rightarrow> 's store_client) \<Rightarrow> (Libairline \<Rightarrow> 'a airline_client) \<Rightarrow> agency_flags \<Rightarrow> 'w \<Rightarrow>
     ('s, 'a) Tribserver program_end \<times> 'w" where
  "tribserver_main listen dial new_store call stores airlines flags w =
     (case listen ('':'' @ Itoa (gf_port flags)) of
        None \<Rightarrow> (Fatal ''listen error:'', w)
      | Some _ \<Rightarrow>
          (case NewTribserver dial
                  (new_store (gf_agency flags) (localhost (gf_ownstore flags)) (localhost (gf_port flags)))
                  call stores airlines (gf_agency flags) (localhost (gf_masterstore flags))
                  (localhost (gf_port flags)) (gf_prefer flags) w of
             (None, w1) \<Rightarrow> (Returned, w1)
           | (Some ts, w1) \<Rightarrow> (Serving [''CacheRPC'', ''TranRPC'', ''Tribserver''] ts, w1)))"

text \<open>
  An agency server that is started again does not serve: the master has its address already and
  refuses it, which \<open>NewLibairline\<close> takes for a failure. The hypothesis on \<open>call\<close> is what a storage
  server does with an item that a list has.
\<close>

theorem agency_restart_fails:
  assumes once: "\<And>k v w w1. call k v w = (Some S_OK, w1) \<Longrightarrow> fst (call k v w1) \<noteq> Some S_OK"
    and first: "tribserver_main listen dial new_store call stores airlines flags w = (Serving svc ts, w1)"
  shows "\<exists>w2. tribserver_main listen dial new_store call stores airlines flags w1 = (Returned, w2)"
proof -
  obtain lc ls w0 where l: "listen ('':'' @ Itoa (gf_port flags)) \<noteq> None"
    and lc: "NewLibconn dial (gf_agency flags) (localhost (gf_masterstore flags)) (localhost (gf_port flags)) (gf_prefer flags) = Some lc"
    and ls: "new_store (gf_agency flags) (localhost (gf_ownstore flags)) (localhost (gf_port flags)) = Some ls"
    and c: "call (lc_entityid lc) (lc_myhostport lc) w = (Some S_OK, w1)"
    using first
    by (auto simp: tribserver_main_def NewTribserver_def NewLibairline_def DeclareExistence_def appendList_def
        split: option.splits prod.splits if_splits)
  obtain st w2 where c2: "call (lc_entityid lc) (lc_myhostport lc) w1 = (st, w2)" by fastforce
  with once [OF c] have "st \<noteq> Some S_OK" by simp
  with l lc ls c2 show ?thesis
    by (auto simp: tribserver_main_def NewTribserver_def NewLibairline_def DeclareExistence_def appendList_def)
qed

subsection \<open>The airline server (contrib/airlineserver)\<close>

record airline_flags =
  af_port :: int
  af_airline :: string
  af_masterstore :: int
  af_ownstore :: int
  af_replicas :: string
  af_pos :: int

definition airline_defaults :: airline_flags where
  "airline_defaults = \<lparr>af_port = 8009, af_airline = ''JetBlue'', af_masterstore = 9000, af_ownstore = 9001,
     af_replicas = ''localhost:7000'', af_pos = 1\<rparr>"

text \<open>\<open>NewAirlineServer\<close> as a whole: the store, its Paxos node, and the registration with the master.\<close>

definition start_airline ::
  "(string \<Rightarrow> bool) \<Rightarrow> (string \<Rightarrow> string \<Rightarrow> 'w \<Rightarrow> storage_status option \<times> 'w) \<Rightarrow>
     string \<Rightarrow> string \<Rightarrow> string \<Rightarrow> string list \<Rightarrow> int \<Rightarrow> 'w \<Rightarrow> (AirlineServer \<times> Libpaxos \<times> Libconn) option \<times> 'w" where
  "start_airline dial call aid host master reps pos w =
     (let q = int (quorum_size (length reps)); lp = NewLibpaxos host reps q pos in
      case NewLibconn dial aid master host 0 of
        None \<Rightarrow> (None, w)
      | Some lc \<Rightarrow>
          (case PublishAirline call lc w of
             (_, w1) \<Rightarrow> (case DeclareExistence call lc w1 of (_, w2) \<Rightarrow> (Some (NewAirlineServer aid host, lp, lc), w2))))"

definition airlineserver_main ::
  "(string \<Rightarrow> int option) \<Rightarrow> (string \<Rightarrow> bool) \<Rightarrow> (string \<Rightarrow> string \<Rightarrow> 'w \<Rightarrow> storage_status option \<times> 'w) \<Rightarrow>
     marshaller \<Rightarrow> airline_flags \<Rightarrow> 'w \<Rightarrow>
     (AirlineServer \<times> AirlineServer AirlineRPC \<times> Libpaxos) program_end \<times> 'w" where
  "airlineserver_main listen dial call marshal flags w =
     (let myhostport = localhost (af_port flags) in
      case listen myhostport of
        None \<Rightarrow> (Fatal ''listen error:'', w)
      | Some _ \<Rightarrow>
          (case start_airline dial call (af_airline flags) myhostport (localhost (af_masterstore flags))
                  (strings_Split (af_replicas flags) ''-'') (af_pos flags) w of
             (None, w1) \<Rightarrow> (Returned, w1)
           | (Some (as, lp, lc), w1) \<Rightarrow>
               (Serving [''AirlineRPC'', ''Libpaxos''] (as, NewAirlineRPC (airline_interface marshal), lp), w1)))"

text \<open>What the program serves does not depend on the network, once it serves.\<close>

lemma airlineserver_serves:
  "airlineserver_main listen dial call marshal flags w = (Serving svc (a, arpc, lp), w1) \<Longrightarrow>
     a = NewAirlineServer (af_airline flags) (localhost (af_port flags)) \<and>
     arpc = NewAirlineRPC (airline_interface marshal) \<and>
     lp = NewLibpaxos (localhost (af_port flags)) (strings_Split (af_replicas flags) ''-'')
       (int (quorum_size (length (strings_Split (af_replicas flags) ''-'')))) (af_pos flags)"
  by (auto simp: airlineserver_main_def start_airline_def Let_def split: option.splits prod.splits)

subsection \<open>Nodes that are cut off\<close>

lemma execute_frame:
  "execute lp v = Some (lp', es) \<Longrightarrow> self lp' = self lp \<and> replicas lp' = replicas lp \<and> unsentValues lp' = unsentValues lp"
  by (auto simp: execute_def split: option.splits)

lemma execute_range_frame:
  "execute_range lp h is = Some (lp', es) \<Longrightarrow>
     self lp' = self lp \<and> replicas lp' = replicas lp \<and> unsentValues lp' = unsentValues lp"
proof (induction lp h "is" arbitrary: lp' es rule: execute_range.induct)
  case (2 lp h i "is")
  define v where "v = (case gget h i of None \<Rightarrow> '''' | Some v \<Rightarrow> v)"
  from 2(2) obtain lp1 es1 where e: "execute lp v = Some (lp1, es1)"
    by (cases "execute lp v") (auto simp: v_def)
  with 2(2) obtain es2 where r: "execute_range lp1 h is = Some (lp', es2)"
    by (cases "execute_range lp1 h is") (auto simp: v_def)
  from 2(1) [OF e [unfolded v_def] refl r] execute_frame [OF e] show ?case by simp
qed simp

lemma on_learnt_frame:
  assumes "on_learnt lp i v = Some (lp', es)"
  shows "self lp' = self lp \<and> replicas lp' = replicas lp"
proof (cases "i > 0")
  case True
  with assms show ?thesis
    by (auto simp: on_learnt_eq Let_def dest!: execute_range_frame split: if_splits)
qed (use assms in simp)

lemma pre_operate_frame:
  "self (fst (pre_operate lp p)) = self lp" "replicas (fst (pre_operate lp p)) = replicas lp"
  "lp_l (fst (pre_operate lp p)) = lp_l lp"
  using pre_operate_simps [of lp p] by auto

lemma handleOperate_frame:
  "handleOperate lp p = Some (lp', es) \<Longrightarrow> self lp' = self lp \<and> replicas lp' = replicas lp"
  using pre_operate_frame [of lp p]
  by (auto simp: handleOperate_def Let_def dest!: on_learnt_frame split: prod.splits option.splits)

text \<open>A packet that teaches nothing: everything but votes and commits.\<close>

definition teaches :: "Packet \<Rightarrow> bool" where
  "teaches p \<longleftrightarrow> MsgType (PacketMsg p) \<in> {ACCEPT_OK, COMMIT}"

definition keeps_proposals :: "Libpaxos \<Rightarrow> bool" where
  "keeps_proposals lp \<longleftrightarrow> (\<forall>(v, p) \<in> set (unsentValues lp). \<not> teaches p)"

lemma untaught:
  assumes h: "handleOperate lp p = Some (lp', es)" and p: "\<not> teaches p" and k: "keeps_proposals lp"
  shows "execs es = [] \<and> keeps_proposals lp' \<and> (\<forall>q. Local q \<in> set es \<longrightarrow> \<not> teaches q)"
proof -
  obtain u where u: "fst (pre_operate lp p) = lp\<lparr>unsentValues := u\<rparr>"
    "set u \<subseteq> set (unsentValues lp) \<union>
       (if MsgType (PacketMsg p) = PROPOSE then {(Value (PacketMsg p), p)} else {})"
    "snd (pre_operate lp p) =
       (if MsgType (PacketMsg p) = EPOCH then map (\<lambda>(v, q). Local q) (unsentValues lp) else [])"
    using pre_operate_simps [of lp p] by blast
  obtain l' m2 i v where l: "lr_operate (lp_l lp) p = (l', m2, i, v)" by (metis prod_cases4)
  have i: "i = 0" using lr_operate_learnt [OF l] p by (auto simp: teaches_def)
  have b: "execs (broadcast x m) = []" "Local q \<notin> set (broadcast x m)" for x m q
    by (simp_all add: set_broadcast) (auto simp: set_broadcast)
  obtain c' m1 a' m4 where es: "es = snd (pre_operate lp p) @ broadcast (lp\<lparr>unsentValues := u\<rparr>) m1 @
      broadcast (lp\<lparr>unsentValues := u\<rparr>) m2 @ broadcast (lp\<lparr>unsentValues := u\<rparr>) m4"
    and lp': "lp' = lp\<lparr>unsentValues := u, lp_c := c', lp_l := l', lp_a := a'\<rparr>"
    using h l u(1) i by (auto simp: handleOperate_def Let_def split: prod.splits option.splits)
  have "\<not> teaches q" if "(v, q) \<in> set u" for v q
    using that u(2) k p by (auto simp: keeps_proposals_def split: if_splits)
  then have "keeps_proposals lp'" by (auto simp: keeps_proposals_def lp')
  moreover have "execs es = []" using u(3) by (simp add: es b)
  moreover have "\<not> teaches q" if "Local q \<in> set es" for q
    using that u(3) k by (auto simp: es b keeps_proposals_def split: if_splits)
  ultimately show ?thesis by blast
qed

text \<open>\<open>d\<close> is in nobody's list of replicas, has only packets of its own, and was told nothing.\<close>

definition cut_off :: "string \<Rightarrow> paxos_net \<Rightarrow> bool" where
  "cut_off d s \<longleftrightarrow>
     (\<forall>x lp. procs s x = Some lp \<longrightarrow> self lp = x \<and> d \<notin> set (replicas lp)) \<and>
     (\<forall>lp. procs s d = Some lp \<longrightarrow> keeps_proposals lp) \<and>
     (\<forall>p. (d, p) \<in> set (pend s) \<longrightarrow> \<not> teaches p) \<and> delivered s d = []"

lemma packets_cut:
  assumes "(d, p) \<in> set (packets_of lp e)" and "d \<notin> set (replicas lp)"
  shows "self lp = d \<and> e = Local p"
  using assms by (cases e) auto

lemma cut_off_emit:
  assumes c: "cut_off d s" and lp': "self lp' = x" "replicas lp' = replicas lp" "procs s x = Some lp"
    and pend': "set pend' \<subseteq> set (pend s)"
    and own: "x = d \<Longrightarrow> execs es = [] \<and> keeps_proposals lp' \<and> (\<forall>q. Local q \<in> set es \<longrightarrow> \<not> teaches q)"
  shows "cut_off d (emit (s\<lparr>pend := pend', proposed := ps\<rparr>) x lp' es)"
proof -
  have d: "d \<notin> set (replicas lp')" using c lp' by (auto simp: cut_off_def)
  have sent: "\<not> teaches p" if "(d, p) \<in> set (concat (map (packets_of lp') es))" for p
  proof -
    from that obtain e where e: "e \<in> set es" "(d, p) \<in> set (packets_of lp' e)" by auto
    from packets_cut [OF e(2) d] have "self lp' = d" "e = Local p" by simp_all
    with own lp'(1) e(1) show ?thesis by blast
  qed
  let ?t = "emit (s\<lparr>pend := pend', proposed := ps\<rparr>) x lp' es"
  have t: "procs ?t = (procs s)(x \<mapsto> lp')" "pend ?t = pend' @ concat (map (packets_of lp') es)"
    "delivered ?t = (delivered s)(x := delivered s x @ execs es)"
    by (simp_all add: emit_def Let_def)
  have "\<forall>y lq. procs ?t y = Some lq \<longrightarrow> self lq = y \<and> d \<notin> set (replicas lq)"
    using c d lp'(1) by (simp add: t cut_off_def)
  moreover have "\<forall>lq. procs ?t d = Some lq \<longrightarrow> keeps_proposals lq"
    using c own by (simp add: t cut_off_def)
  moreover have "\<forall>p. (d, p) \<in> set (pend ?t) \<longrightarrow> \<not> teaches p"
  proof (intro allI impI)
    fix p
    assume "(d, p) \<in> set (pend ?t)"
    then have "(d, p) \<in> set (pend s) \<or> (d, p) \<in> set (concat (map (packets_of lp') es))"
      unfolding t set_append using pend' by blast
    then show "\<not> teaches p" using c sent by (auto simp only: cut_off_def)
  qed
  moreover have "delivered ?t d = []" using c own by (cases "x = d") (simp_all add: t cut_off_def)
  ultimately show ?thesis by (simp only: cut_off_def)
qed

lemma cut_off_step:
  assumes c: "cut_off d s" and st: "net_step s e = Some t"
  shows "cut_off d t"
proof (cases e)
  case (Deliver i)
  with st obtain x p lp lp' es where i: "i < length (pend s)" "pend s ! i = (x, p)" and x: "procs s x = Some lp"
    and h: "handleOperate lp p = Some (lp', es)" and t: "t = emit (s\<lparr>pend := remove_at i (pend s)\<rparr>) x lp' es"
    by (auto split: if_splits prod.splits option.splits)
  have p: "(x, p) \<in> set (pend s)" using i by (metis nth_mem)
  have f: "self lp' = x" "replicas lp' = replicas lp" using handleOperate_frame [OF h] c x by (auto simp: cut_off_def)
  have own: "execs es = [] \<and> keeps_proposals lp' \<and> (\<forall>q. Local q \<in> set es \<longrightarrow> \<not> teaches q)" if "x = d"
  proof (rule untaught [OF h])
    show "\<not> teaches p" "keeps_proposals lp" using c p x that by (simp_all add: cut_off_def)
  qed
  have "set (remove_at i (pend s)) \<subseteq> set (pend s)"
    by (auto simp: remove_at_def dest: in_set_takeD in_set_dropD)
  from cut_off_emit [OF c f x this own, of "proposed s"] show ?thesis by (simp add: t)
next
  case (Drop i)
  with st have "t = s\<lparr>pend := remove_at i (pend s)\<rparr>" by (simp split: if_splits)
  with c show ?thesis by (auto simp: cut_off_def remove_at_def dest: in_set_takeD in_set_dropD)
next
  case (Propose x v)
  with st obtain lp where x: "procs s x = Some lp"
    and t: "t = emit (s\<lparr>proposed := proposed s @ [getModifiedValue lp v]\<rparr>) x (lp\<lparr>proposeCounter := proposeCounter lp + 1\<rparr>)
      [Local (mk_packet (zero_msg\<lparr>MsgType := PROPOSE, Value := getModifiedValue lp v\<rparr>) (self lp))]"
    by (auto simp: ProposeCommand_def split: option.splits)
  have f: "self (lp\<lparr>proposeCounter := proposeCounter lp + 1\<rparr>) = x" using c x by (simp add: cut_off_def)
  have own: "keeps_proposals (lp\<lparr>proposeCounter := proposeCounter lp + 1\<rparr>)" if "x = d"
    using c x that by (simp add: cut_off_def keeps_proposals_def)
  show ?thesis
    using cut_off_emit [OF c f _ x order_refl, where ps = "proposed s @ [getModifiedValue lp v]"] own
    by (simp add: t teaches_def)
next
  case (Tick x)
  with st obtain lp where x: "procs s x = Some lp" and t: "t = emit s x lp [Local (epoch_packet lp)]"
    by (auto split: option.splits)
  have f: "self lp = x" using c x by (simp add: cut_off_def)
  have own: "keeps_proposals lp" if "x = d" using c x that by (simp add: cut_off_def)
  show ?thesis
    using cut_off_emit [OF c f refl x order_refl, where ps = "proposed s" and es = "[Local (epoch_packet lp)]"] own
    by (simp add: t teaches_def epoch_packet_def)
qed

interpretation cut: invariant_machine "cut_off d" net_step "cut_off d" for d
  by unfold_locales (auto intro: cut_off_step)

subsection \<open>Airline servers without their flag -replicas\<close>

text \<open>The Paxos nodes of a set of running airline servers.\<close>

definition node_of :: "airline_flags \<Rightarrow> Libpaxos" where
  "node_of f = (let reps = strings_Split (af_replicas f) ''-'' in
     NewLibpaxos (localhost (af_port f)) reps (int (quorum_size (length reps))) (af_pos f))"

definition airline_net :: "airline_flags list \<Rightarrow> paxos_net" where
  "airline_net fs = \<lparr>procs = map_of (map (\<lambda>f. (localhost (af_port f), node_of f)) fs),
     pend = [], sent = [], proposed = [], delivered = (\<lambda>_. [])\<rparr>"

lemma airline_net_node:
  "procs (airline_net fs) x = Some lp \<Longrightarrow> \<exists>f \<in> set fs. x = localhost (af_port f) \<and> lp = node_of f"
  by (auto simp: airline_net_def dest!: map_of_SomeD)

lemma airline_net_cut_off:
  assumes "\<forall>f \<in> set fs. d \<notin> set (strings_Split (af_replicas f) ''-'')"
  shows "cut_off d (airline_net fs)"
proof -
  have "self lp = x \<and> d \<notin> set (replicas lp) \<and> keeps_proposals lp" if "procs (airline_net fs) x = Some lp" for x lp
    using airline_net_node [OF that] assms
    by (auto simp: node_of_def NewLibpaxos_def keeps_proposals_def Let_def)
  then show ?thesis unfolding cut_off_def by (auto simp: airline_net_def)
qed

text \<open>An airline server that takes nothing from the log only numbers its calls.\<close>

lemma untaken_calls:
  assumes "run (replica_step unmarshal dial poll) s evs = Some a" and "taken_cmds evs = []"
  shows "flightBuf a = flightBuf s \<and> cmdNO a = cmdNO s + int (length evs) \<and>
    (\<forall>n. oldReplycMap s n \<noteq> None \<or> cmdNO s \<le> n \<and> n < cmdNO a \<longrightarrow> oldReplycMap a n \<noteq> None)"
  using assms
proof (induction evs arbitrary: s)
  case (Cons e evs)
  then obtain r s1 where e: "e = Submit r" "replica_step unmarshal dial poll s e = Some s1"
    "run (replica_step unmarshal dial poll) s1 evs = Some a" "taken_cmds evs = []"
    by (cases e) (auto split: option.splits)
  then have s1: "s1 = s\<lparr>oldReplycMap := (oldReplycMap s)(cmdNO s \<mapsto> replyc r), cmdNO := cmdNO s + 1\<rparr>"
    by (auto simp: replica_step_def PAXOS_REQUEST_result split: if_splits)
  note IH = Cons.IH [OF e(3,4), unfolded s1, simplified]
  have "oldReplycMap a n \<noteq> None" if "oldReplycMap s n \<noteq> None \<or> cmdNO s \<le> n \<and> n < cmdNO a" for n
    using IH that by (cases "n = cmdNO s") auto
  moreover have "flightBuf a = flightBuf s" "cmdNO a = cmdNO s + int (length (e # evs))"
    using IH [THEN conjunct1] IH [THEN conjunct2, THEN conjunct1] by simp_all
  ultimately show ?case by blast
qed auto

lemma localhost_literals: "localhost 7000 = ''localhost:7000''" "localhost 8009 = ''localhost:8009''"
  by (simp_all add: localhost_def Itoa_def itoa_nat.simps digit_def) code_simp+

lemma default_replicas: "strings_Split (af_replicas airline_defaults) ''-'' = [localhost 7000]"
  by (simp add: airline_defaults_def localhost_literals Split_char_whole)

text \<open>C33: Airline servers that are started with the default of their flag \<open>-replicas\<close> and listen on any port
  but 7000, as in the scripts test.sh and test\_multiple.sh, never serve: in every run of
  any number of them, whatever their callers ask, however often the timers fire and in
  whatever order packets arrive, no command is ever delivered, the server has no flight, and every
  call it has accepted waits for ever.\<close>

theorem default_replicas_never_serve:
  assumes flags: "\<forall>f \<in> set fs. af_replicas f = af_replicas airline_defaults \<and> af_port f \<noteq> 7000"
    and net: "run net_step (airline_net fs) es = Some s" and f: "f \<in> set fs"
    and calls: "run (replica_step unmarshal dial poll) (NewAirlineServer (af_airline f) (localhost (af_port f))) evs = Some a"
    and log: "prefix (taken_cmds evs) (delivered s (localhost (af_port f)))"
  shows "delivered s (localhost (af_port f)) = [] \<and> flightBuf a = Map.empty \<and> cmdNO a = int (length evs) \<and>
    (\<forall>n \<in> {0 ..< cmdNO a}. oldReplycMap a n \<noteq> None)"
proof -
  let ?d = "localhost (af_port f)"
  have "\<forall>g \<in> set fs. ?d \<notin> set (strings_Split (af_replicas g) ''-'')"
    using flags f by (auto simp: default_replicas)
  from cut.inv_run [OF airline_net_cut_off [OF this] net] have d: "delivered s ?d = []" by (simp add: cut_off_def)
  with log have "taken_cmds evs = []" by simp
  from untaken_calls [OF calls this] d show ?thesis by (simp add: NewAirlineServer_def)
qed

text \<open>A flight is created at the default port 8009; its proposal and a retry are handled.\<close>

theorem default_replicas_never_serve_witness:
  "\<exists>s a. run net_step (airline_net [airline_defaults])
       [Propose ''localhost:8009'' ''0@localhost:8009@CF@json'', Deliver 0, net_event.Tick ''localhost:8009'', Deliver 1, Deliver 1] = Some s \<and>
     run (replica_step read_json (\<lambda>_. True) (\<lambda>_. NoConn)) (NewAirlineServer ''JetBlue'' ''localhost:8009'')
       [Submit (CreateFlight (\<lambda>_. ''json'') (NewAirlineServer ''JetBlue'' ''localhost:8009'') ''U-1'' (flight ''U-1'' 3) 7)] = Some a \<and>
     delivered s ''localhost:8009'' = [] \<and> flightBuf a = Map.empty"
proof -
  let ?es = "[Propose ''localhost:8009'' ''0@localhost:8009@CF@json'', Deliver 0, net_event.Tick ''localhost:8009'', Deliver 1, Deliver 1]"
  let ?evs = "[Submit (CreateFlight (\<lambda>_. ''json'') (NewAirlineServer ''JetBlue'' ''localhost:8009'') ''U-1'' (flight ''U-1'' 3) 7)]"
  have k: "af_airline airline_defaults = ''JetBlue''" "localhost (af_port airline_defaults) = ''localhost:8009''"
    "af_pos airline_defaults = 1"
    by (simp_all add: airline_defaults_def localhost_literals)
  have net: "airline_net [airline_defaults] = \<lparr>procs = Map.empty(''localhost:8009'' \<mapsto>
      NewLibpaxos ''localhost:8009'' [''localhost:7000''] 1 1), pend = [], sent = [], proposed = [], delivered = (\<lambda>_. [])\<rparr>"
    by (simp add: airline_net_def node_of_def k default_replicas localhost_literals quorum_size_def)
  have "run net_step (airline_net [airline_defaults]) ?es \<noteq> None" unfolding net by code_simp
  then obtain s where s: "run net_step (airline_net [airline_defaults]) ?es = Some s" by blast
  obtain a where a: "run (replica_step read_json (\<lambda>_. True) (\<lambda>_. NoConn)) (NewAirlineServer ''JetBlue'' ''localhost:8009'') ?evs = Some a"
    by (simp add: replica_step_def PAXOS_REQUEST_result CreateFlight_def paxos_cmd_def)
  from default_replicas_never_serve [OF _ s, of airline_defaults read_json "\<lambda>_. True" "\<lambda>_. NoConn" ?evs a, unfolded k] a
  have "delivered s ''localhost:8009'' = [] \<and> flightBuf a = Map.empty" by (simp add: airline_defaults_def)
  with s a show ?thesis by blast
qed

text \<open>
  With its own address as the only replica, as in test\_paxos\_single.sh, the same server serves: six
  packets later the command has come back from the log, the flight is created, and its caller
  is answered.
\<close>

lemma own_replica_serves:
  "\<exists>s a. run net_step (airline_net [airline_defaults\<lparr>af_replicas := ''localhost:8009''\<rparr>])
       (Propose ''localhost:8009'' ''0@localhost:8009@CF@json'' # replicate 6 (Deliver 0)) = Some s \<and>
     delivered s ''localhost:8009'' = [''0@localhost:8009@CF@json''] \<and>
     run (replica_step read_json (\<lambda>_. True) (\<lambda>_. NoConn)) (NewAirlineServer ''JetBlue'' ''localhost:8009'')
       [Submit (CreateFlight (\<lambda>_. ''json'') (NewAirlineServer ''JetBlue'' ''localhost:8009'') ''U-1'' (flight ''U-1'' 3) 7),
        FromLog ''0@localhost:8009@CF@json''] = Some a \<and>
     flightBuf a ''U-1'' = Some (flight ''U-1'' 3) \<and> oldReplycMap a 0 = None"
proof -
  let ?f = "airline_defaults\<lparr>af_replicas := ''localhost:8009''\<rparr>" and ?h = "''localhost:8009''"
  let ?a0 = "NewAirlineServer ''JetBlue'' ?h"
  have net: "airline_net [?f] = \<lparr>procs = Map.empty(?h \<mapsto> NewLibpaxos ?h [?h] 1 1),
      pend = [], sent = [], proposed = [], delivered = (\<lambda>_. [])\<rparr>"
    by (simp add: airline_net_def node_of_def airline_defaults_def localhost_literals quorum_size_def Split_char_whole)
  have "map_option (\<lambda>s. delivered s ?h) (run net_step (airline_net [?f])
      (Propose ?h ''0@localhost:8009@CF@json'' # replicate 6 (Deliver 0))) = Some [''0@localhost:8009@CF@json'']"
    unfolding net by code_simp
  moreover have "map_option (\<lambda>a. (flightBuf a ''U-1'', oldReplycMap a 0))
      (run (replica_step read_json (\<lambda>_. True) (\<lambda>_. NoConn)) ?a0
        [Submit (CreateFlight (\<lambda>_. ''json'') ?a0 ''U-1'' (flight ''U-1'' 3) 7), FromLog ''0@localhost:8009@CF@json'']) =
      Some (Some (flight ''U-1'' 3), None)"
    by code_simp
  ultimately show ?thesis by auto
qed

end
