(* ===== verification/Test_Paxos.thy ===== *)
theory Test_Paxos
  imports Server_Programs "HOL-Library.Multiset"
begin

section \<open>The test of Paxos (contrib/testpaxos)\<close>

text \<open>
  The program runs one Paxos node, proposes thirty commands and keeps what the node delivers in a
  history, which it prints when it is as long as everything that three programs propose. The
  goroutine that proposes is the list of its commands in order; its pauses are part of the
  order of events of the network.

  First a guarantee of any cluster, whatever its quorum and even when its nodes disagree:
  no node delivers a command more often than clients have proposed it. With it the program shows
  what it is meant to show: a history that is printed is complete.
\<close>

subsection \<open>The program\<close>

record test_flags =
  pf_port :: int
  pf_nodepos :: int
  pf_rep :: string

definition test_defaults :: test_flags where
  "test_defaults = \<lparr>pf_port = 7000, pf_nodepos = 1, pf_rep = ''localhost:7000''\<rparr>"

definition test_N :: nat where
  "test_N = 30"

record TestClient =
  tc_rep :: string
  tc_history :: "(int, string) gomap"

definition log_tag :: "TestClient \<Rightarrow> string" where
  "log_tag tc = ''[TestClient '' @ tc_rep tc @ '']''"

text \<open>A command that the node delivers: the client afterwards and the lines it logs.\<close>

definition tc_PaxosResponse :: "TestClient \<Rightarrow> string \<Rightarrow> TestClient \<times> string list" where
  "tc_PaxosResponse tc cmd =
     (let pos = int (length (tc_history tc));
          tc1 = tc\<lparr>tc_history := gput pos cmd (tc_history tc)\<rparr>;
          response = log_tag tc @ '' RESPONSE '' @ Itoa pos @ '':'' @ cmd in
      (tc1,
       response #
       (if length (tc_history tc1) \<ge> 3 * test_N
        then (log_tag tc @ '' History'') #
          map (\<lambda>i. let v = (case gget (tc_history tc1) i of None \<Rightarrow> '''' | Some v \<Rightarrow> v) in
                 '' '' @ Itoa i @ '':'' @ v)
            [0 .. int (length (tc_history tc1)) - 1]
        else [])))"

definition test_proposals :: "int \<Rightarrow> string list" where
  "test_proposals pos =
     map (\<lambda>i. ''(value '' @ Itoa i @ '' '' @ Itoa pos @ '')'') [1 .. int test_N]"

definition testpaxos_main ::
  "(string \<Rightarrow> int option) \<Rightarrow> test_flags \<Rightarrow> (TestClient \<times> Libpaxos \<times> string list) program_end" where
  "testpaxos_main listen flags =
     (case listen ('':'' @ Itoa (pf_port flags)) of
        None \<Rightarrow> Fatal ''listen error:''
      | Some _ \<Rightarrow>
          (let hostport = localhost (pf_port flags);
               tc = \<lparr>tc_rep = Itoa (pf_port flags), tc_history = []\<rparr>;
               lp = NewLibpaxos hostport (strings_Split (pf_rep flags) ''-'') 2 (pf_nodepos flags) in
           Serving [''Libpaxos''] (tc, lp, test_proposals (pf_nodepos flags))))"

subsection \<open>No command is delivered more often than it is proposed\<close>

definition proposal :: "net_event \<Rightarrow> (string \<times> string) list" where
  "proposal e = (case e of Propose d v \<Rightarrow> [(d, v)] | _ \<Rightarrow> [])"

definition proposals_of :: "net_event list \<Rightarrow> (string \<times> string) list" where
  "proposals_of es = concat (map proposal es)"

lemma proposed_step:
  assumes "net_step s e = Some t"
  shows "\<exists>ms. proposed t = proposed s @ ms \<and> fst ` set (proposal e) \<subseteq> dom (procs s) \<and>
    map payload ms = map (\<lambda>(d, v). hd (strings_Split v ''$$'')) (proposal e)"
  using assms
  by (cases e) (auto simp: proposal_def emit_def Let_def payload_def getFrom_getModified
      split: if_splits option.splits prod.splits)

lemma proposed_run:
  assumes "net_inv reps q s" and "run net_step s es = Some t"
  shows "\<exists>ms. proposed t = proposed s @ ms \<and> fst ` set (proposals_of es) \<subseteq> set reps \<and>
    map payload ms = map (\<lambda>(d, v). hd (strings_Split v ''$$'')) (proposals_of es)"
  using assms
proof (induction es arbitrary: s)
  case (Cons e es)
  from Cons.prems(2) obtain s1 where s1: "net_step s e = Some s1" "run net_step s1 es = Some t"
    by (auto split: option.splits)
  from net_inv_step [OF Cons.prems(1) s1(1)] have inv: "net_inv reps q s1" .
  have dom: "dom (procs s) = set reps" using Cons.prems(1) by (simp add: net_inv_def)
  from proposed_step [OF s1(1)] obtain ms where ms: "proposed s1 = proposed s @ ms"
    "fst ` set (proposal e) \<subseteq> set reps"
    "map payload ms = map (\<lambda>(d, v). hd (strings_Split v ''$$'')) (proposal e)" unfolding dom by blast
  from Cons.IH [OF inv s1(2)] obtain ms' where ms': "proposed t = proposed s1 @ ms'"
    "fst ` set (proposals_of es) \<subseteq> set reps"
    "map payload ms' = map (\<lambda>(d, v). hd (strings_Split v ''$$'')) (proposals_of es)" by blast
  have p: "proposals_of (e # es) = proposal e @ proposals_of es" by (simp add: proposals_of_def)
  show ?case using ms ms' by (intro exI [of _ "ms @ ms'"]) (simp add: p image_Un)
qed (simp add: proposals_of_def)

lemma delivered_proposed:
  assumes inv: "net_inv reps q s" and lp: "procs s d = Some lp"
  shows "mset (delivered s d) \<subseteq># mset (map payload (proposed s))"
proof -
  let ?ws = "firsts {} (log_values (lp_l lp) (lastCommandExecuted lp))"
  have n: "{1 .. lastCommandExecuted lp} \<subseteq> dom (learnt (lp_l lp))" "delivered s d = map payload ?ws"
    using net_inv_node(1) [OF inv lp] by (simp_all add: node_inv_def)
  have "v \<in> set (proposed s)" if "v \<in> set ?ws" for v
  proof -
    from that obtain i where i: "i \<in> {1 .. lastCommandExecuted lp}" "learnt (lp_l lp) i = Some v"
      using n(1) by (fastforce simp: set_firsts log_values_def)
    from net_inv_learnt [OF inv lp i(2)] obtain b where "chosen reps q (set (sent s)) i b v" .
    then show ?thesis by (rule net_inv_chosen [OF inv])
  qed
  then have "set ?ws \<subseteq> set (proposed s)" by blast
  then have "mset_set (set ?ws) \<subseteq># mset_set (set (proposed s))" by (intro subset_imp_msubset_mset_set) auto
  also have "\<dots> \<subseteq># mset (proposed s)"
    by (metis distinct_remdups mset_remdups_subset_eq mset_set_set set_remdups)
  finally have "mset ?ws \<subseteq># mset (proposed s)" by (simp add: mset_set_set distinct_firsts)
  then show ?thesis by (simp add: n(2) image_mset_subseteq_mono)
qed

lemma delivered_at_most_once:
  assumes cl: "cluster_ok reps q" and run: "run net_step (init_net reps q) es = Some s"
    and lp: "procs s d = Some lp" and plain: "\<forall>(x, v) \<in> set (proposals_of es). \<not> sublist ''$$'' v"
  shows "mset (delivered s d) \<subseteq># mset (map snd (proposals_of es))"
proof -
  have inv0: "net_inv reps q (init_net reps q)" using reachable_inv [OF cl, of "[]"] by simp
  note inv = reachable_inv [OF cl run]
  from proposed_run [OF inv0 run] have
    "map payload (proposed s) = map (\<lambda>(d, v). hd (strings_Split v ''$$'')) (proposals_of es)"
    by (auto simp: init_net_def)
  also have "\<dots> = map snd (proposals_of es)"
    using plain by (intro map_cong) (auto simp: hd_Split_whole)
  finally show ?thesis using delivered_proposed [OF inv lp] by simp
qed

subsection \<open>The client's history\<close>

fun client_run :: "TestClient \<Rightarrow> string list \<Rightarrow> TestClient \<times> string list" where
  "client_run tc [] = (tc, [])"
| "client_run tc (cmd # cmds) =
     (case tc_PaxosResponse tc cmd of (tc1, lines1) \<Rightarrow>
        (case client_run tc1 cmds of (tc2, lines2) \<Rightarrow> (tc2, lines1 @ lines2)))"

definition entries :: "string list \<Rightarrow> (int, string) gomap" where
  "entries cmds = map (\<lambda>k. (int k, cmds ! k)) [0 ..< length cmds]"

definition responses :: "TestClient \<Rightarrow> string list \<Rightarrow> string list" where
  "responses tc cmds = map (\<lambda>k. log_tag tc @ '' RESPONSE '' @ Itoa (int k) @ '':'' @ cmds ! k) [0 ..< length cmds]"

definition history_lines :: "TestClient \<Rightarrow> string list \<Rightarrow> string list" where
  "history_lines tc cmds =
     (log_tag tc @ '' History'') # map (\<lambda>k. '' '' @ Itoa (int k) @ '':'' @ cmds ! k) [0 ..< length cmds]"

lemma gput_new: "k \<notin> fst ` set m \<Longrightarrow> gput k v m = m @ [(k, v)]"
  by (induction m) auto

lemma entries_snoc: "gput (int (length xs)) x (entries xs) = entries (xs @ [x])"
proof -
  have "int (length xs) \<notin> fst ` set (entries xs)" by (auto simp: entries_def)
  then show ?thesis by (simp add: gput_new entries_def nth_append)
qed

lemma length_entries [simp]: "length (entries xs) = length xs"
  by (simp add: entries_def)

lemma gget_entries: "k < length xs \<Longrightarrow> gget (entries xs) (int k) = Some (xs ! k)"
  by (rule map_of_is_SomeI) (auto simp: entries_def distinct_map inj_on_def comp_def)

lemma upto_int: "[0 .. int n - 1] = map int [0 ..< n]"
  by (induction n) (simp_all add: upto_rec2)

lemma responds_entries:
  "tc_PaxosResponse (tc\<lparr>tc_history := entries xs\<rparr>) x =
     (tc\<lparr>tc_history := entries (xs @ [x])\<rparr>,
      (log_tag tc @ '' RESPONSE '' @ Itoa (int (length xs)) @ '':'' @ x) #
        (if 3 * test_N \<le> Suc (length xs) then history_lines tc (xs @ [x]) else []))"
proof -
  let ?ys = "xs @ [x]"
  have "map (\<lambda>i. let v = (case gget (entries ?ys) i of None \<Rightarrow> '''' | Some v \<Rightarrow> v) in '' '' @ Itoa i @ '':'' @ v)
      [0 .. int (length ?ys) - 1] = map (\<lambda>k. '' '' @ Itoa (int k) @ '':'' @ ?ys ! k) [0 ..< length ?ys]"
    unfolding upto_int by (auto simp: gget_entries)
  then show ?thesis
    by (simp add: tc_PaxosResponse_def entries_snoc history_lines_def log_tag_def Let_def)
qed

lemma client_run_snoc:
  "client_run tc (xs @ [x]) =
     (case client_run tc xs of (tc1, lines1) \<Rightarrow>
        (case tc_PaxosResponse tc1 x of (tc2, lines2) \<Rightarrow> (tc2, lines1 @ lines2)))"
  by (induction xs arbitrary: tc) (auto split: prod.splits)

lemma responses_snoc:
  "responses tc (xs @ [x]) = responses tc xs @ [log_tag tc @ '' RESPONSE '' @ Itoa (int (length xs)) @ '':'' @ x]"
  by (simp add: responses_def nth_append)

lemma client_run_result:
  "length cmds \<le> 3 * test_N \<Longrightarrow> client_run (tc\<lparr>tc_history := []\<rparr>) cmds =
     (tc\<lparr>tc_history := entries cmds\<rparr>,
      responses tc cmds @ (if length cmds = 3 * test_N then history_lines tc cmds else []))"
proof (induction cmds rule: rev_induct)
  case Nil
  then show ?case by (simp add: entries_def responses_def test_N_def)
next
  case (snoc x xs)
  then have "client_run (tc\<lparr>tc_history := []\<rparr>) xs = (tc\<lparr>tc_history := entries xs\<rparr>, responses tc xs)" by simp
  with snoc.prems show ?case by (simp add: client_run_snoc responds_entries responses_snoc)
qed

subsection \<open>The three programs of test\_paxos\_recovery.sh\<close>

definition recovery_flags :: "test_flags list" where
  "recovery_flags = map (\<lambda>(port, pos). \<lparr>pf_port = port, pf_nodepos = pos,
     pf_rep = ''localhost:7000-localhost:8000-localhost:9000''\<rparr>) [(7000, 1), (8000, 2), (9000, 3)]"

definition recovery_hosts :: "string list" where
  "recovery_hosts = [''localhost:7000'', ''localhost:8000'', ''localhost:9000'']"

lemma recovery_literals:
  "localhost 7000 = ''localhost:7000''" "localhost 8000 = ''localhost:8000''" "localhost 9000 = ''localhost:9000''"
  by (simp_all add: localhost_def Itoa_def itoa_nat.simps digit_def) code_simp+

lemma recovery_split:
  "strings_Split ''localhost:7000-localhost:8000-localhost:9000'' ''-'' = recovery_hosts"
  by code_simp

text \<open>The node that each program runs is the node of the cluster at its address.\<close>

lemma recovery_nodes:
  assumes "f \<in> set recovery_flags" and "listen ('':'' @ Itoa (pf_port f)) = Some p"
  shows "\<exists>lp. testpaxos_main listen f = Serving [''Libpaxos'']
      (\<lparr>tc_rep = Itoa (pf_port f), tc_history = []\<rparr>, lp, test_proposals (pf_nodepos f)) \<and>
    procs (init_net recovery_hosts 2) (localhost (pf_port f)) = Some lp"
  using assms
  by (auto simp: recovery_flags_def testpaxos_main_def init_net_def recovery_split recovery_literals recovery_hosts_def
      upt_rec numeral_3_eq_3)

lemma cluster_recovery: "cluster_ok recovery_hosts 2"
  by (simp add: cluster_ok_def recovery_hosts_def)

lemma test_value_inject:
  "''(value '' @ Itoa i @ '' '' @ Itoa p @ '')'' = ''(value '' @ Itoa j @ '' '' @ Itoa q @ '')'' \<longleftrightarrow> i = j \<and> p = q"
proof -
  have "CHR '' '' \<notin> set (Itoa k)" for k by (auto dest!: Itoa_chars simp: is_digit_def)
  then show ?thesis using append_Cons_eq_iff [of "CHR '' ''" "Itoa i" "Itoa p @ '')''" "Itoa j" "Itoa q @ '')''"] by auto
qed

lemma distinct_test_proposals: "distinct (test_proposals p)"
  unfolding test_proposals_def distinct_map inj_on_def by (simp only: test_value_inject) simp

lemma test_proposals_disjoint: "v \<in> set (test_proposals p) \<Longrightarrow> v \<in> set (test_proposals q) \<Longrightarrow> p = q"
  unfolding test_proposals_def set_map by (elim imageE) (simp only: test_value_inject)

lemma test_proposals_plain: "v \<in> set (test_proposals p) \<Longrightarrow> \<not> sublist ''$$'' v"
proof
  assume v: "v \<in> set (test_proposals p)" and s: "sublist ''$$'' v"
  from s have "CHR ''$'' \<in> set v" by (auto dest: set_mono_sublist)
  moreover from v obtain i where "v = ''(value '' @ Itoa i @ '' '' @ Itoa p @ '')''"
    unfolding test_proposals_def set_map by (rule imageE)
  ultimately show False by simp
qed

lemma distinct_submset:
  assumes "mset xs \<subseteq># mset ys" and "distinct ys"
  shows "distinct xs"
proof -
  from assms(1) obtain M where "mset ys = mset xs + M" by (auto elim: mset_subset_eq_exists_conv [THEN iffD1, elim_format])
  moreover obtain zs where "mset zs = M" using ex_mset by blast
  ultimately have "mset (xs @ zs) = mset ys" by simp
  with assms(2) have "distinct (xs @ zs)" by (metis mset_eq_imp_distinct_iff)
  then show ?thesis by simp
qed

lemma distinct_by_host:
  assumes "\<And>d. distinct (map snd (filter (\<lambda>p. fst p = d) ps))"
    and "\<And>p p'. p \<in> set ps \<Longrightarrow> p' \<in> set ps \<Longrightarrow> snd p = snd p' \<Longrightarrow> fst p = fst p'"
  shows "distinct (map snd ps)"
  using assms
proof (induction ps)
  case (Cons p ps)
  have "distinct (map snd (filter (\<lambda>p. fst p = d) ps))" for d
    using Cons.prems(1) [of d] by (simp split: if_splits)
  then have "distinct (map snd ps)"
    by (rule Cons.IH) (rule Cons.prems(2), simp_all)
  moreover have "snd p \<notin> snd ` set ps"
  proof
    assume "snd p \<in> snd ` set ps"
    then obtain p' where p': "p' \<in> set ps" "snd p = snd p'" by auto
    have "fst p = fst p'" by (rule Cons.prems(2)) (use p' in simp_all)
    with p' have "snd p \<in> snd ` set (filter (\<lambda>q. fst q = fst p) ps)" by force
    with Cons.prems(1) [of "fst p"] show False by simp
  qed
  ultimately show ?case by simp
qed simp

text \<open>Each program proposes its commands in order and may have stopped anywhere.\<close>

definition programs_propose :: "test_flags list \<Rightarrow> net_event list \<Rightarrow> bool" where
  "programs_propose fs es \<longleftrightarrow>
     (\<forall>f \<in> set fs. prefix (map snd (filter (\<lambda>p. fst p = localhost (pf_port f)) (proposals_of es)))
                     (test_proposals (pf_nodepos f)))"

definition all_proposals :: "test_flags list \<Rightarrow> string list" where
  "all_proposals fs = concat (map (\<lambda>f. test_proposals (pf_nodepos f)) fs)"

text \<open>C14: No command is delivered more often than clients have proposed it, provided that no proposed
  command contains two dollar signs in a row: in every run of a cluster, with any quorum, any loss
  and any order of packets, and even if nodes commit different values at one instance, what a node
  has handed to its client is, counted with multiplicity, among the commands that were proposed.\<close>

theorem paxos_at_most_once:
  assumes cl: "cluster_ok reps q" and run: "run net_step (init_net reps q) es = Some s"
    and lp: "procs s d = Some lp" and plain: "\<forall>(x, v) \<in> set (proposals_of es). \<not> sublist ''$$'' v"
  shows "mset (delivered s d) \<subseteq># mset (map snd (proposals_of es))"
  using delivered_at_most_once [OF assms] .

theorem paxos_at_most_once_witness:
  "\<exists>s. run net_step (init_net trio 2) fifo_run = Some s \<and> mset (delivered s ''a'') \<subseteq># {#''x''#}"
proof (rule fifo_run_reaches)
  fix s lp lp'
  assume s: "run net_step (init_net trio 2) fifo_run = Some s" "procs s ''a'' = Some lp"
  have p: "proposals_of fifo_run = [(''a'', ''x'')]" by code_simp
  have "\<forall>(x, v) \<in> set (proposals_of fifo_run). \<not> sublist ''$$'' v"
    by (simp add: p sublist_code)
  from paxos_at_most_once [OF cluster_trio s this] s(1) show ?thesis by (auto simp: p)
qed

lemma recovery_members:
  "f \<in> set recovery_flags \<Longrightarrow> localhost (pf_port f) \<in> set recovery_hosts"
  "x \<in> set recovery_hosts \<Longrightarrow> \<exists>f \<in> set recovery_flags. localhost (pf_port f) = x"
  "f \<in> set recovery_flags \<Longrightarrow> g \<in> set recovery_flags \<Longrightarrow> pf_nodepos f = pf_nodepos g \<Longrightarrow> f = g"
  by (auto simp: recovery_flags_def recovery_hosts_def recovery_literals)

lemma recovery_proposed:
  assumes run: "run net_step (init_net recovery_hosts 2) es = Some s"
    and progs: "programs_propose recovery_flags es" and p: "(x, v) \<in> set (proposals_of es)"
  shows "\<exists>f \<in> set recovery_flags. x = localhost (pf_port f) \<and> v \<in> set (test_proposals (pf_nodepos f))"
proof -
  have inv: "net_inv recovery_hosts 2 (init_net recovery_hosts 2)"
    using reachable_inv [OF cluster_recovery, of "[]"] by simp
  from proposed_run [OF inv run] p have "x \<in> set recovery_hosts" by force
  then obtain f where f: "f \<in> set recovery_flags" "localhost (pf_port f) = x" using recovery_members(2) by blast
  with progs have "prefix (map snd (filter (\<lambda>p. fst p = x) (proposals_of es))) (test_proposals (pf_nodepos f))"
    by (auto simp: programs_propose_def)
  moreover have "v \<in> set (map snd (filter (\<lambda>p. fst p = x) (proposals_of es)))" using p by force
  ultimately have "v \<in> set (test_proposals (pf_nodepos f))" by (blast dest: set_mono_prefix)
  with f show ?thesis by blast
qed

lemma recovery_distinct:
  assumes run: "run net_step (init_net recovery_hosts 2) es = Some s"
    and progs: "programs_propose recovery_flags es"
  shows "distinct (map snd (proposals_of es))" and "snd ` set (proposals_of es) \<subseteq> set (all_proposals recovery_flags)"
proof -
  note src = recovery_proposed [OF run progs]
  show "distinct (map snd (proposals_of es))"
  proof (rule distinct_by_host)
    fix x
    show "distinct (map snd (filter (\<lambda>p. fst p = x) (proposals_of es)))"
    proof (cases "\<exists>v. (x, v) \<in> set (proposals_of es)")
      case True
      with src obtain f where "f \<in> set recovery_flags" "x = localhost (pf_port f)" by blast
      with progs have "prefix (map snd (filter (\<lambda>p. fst p = x) (proposals_of es))) (test_proposals (pf_nodepos f))"
        by (auto simp: programs_propose_def)
      then show ?thesis by (metis distinct_append distinct_test_proposals prefixE)
    next
      case False
      then have "filter (\<lambda>p. fst p = x) (proposals_of es) = []" by (auto simp: filter_empty_conv)
      then show ?thesis by simp
    qed
  next
    fix p p'
    assume p: "p \<in> set (proposals_of es)" "p' \<in> set (proposals_of es)" "snd p = snd p'"
    have m: "(fst p, snd p) \<in> set (proposals_of es)" "(fst p', snd p) \<in> set (proposals_of es)"
      by (simp add: p(1)) (simp add: p(2,3))
    obtain f where f: "f \<in> set recovery_flags" "fst p = localhost (pf_port f)"
      "snd p \<in> set (test_proposals (pf_nodepos f))" using src [OF m(1)] by blast
    obtain g where g: "g \<in> set recovery_flags" "fst p' = localhost (pf_port g)"
      "snd p \<in> set (test_proposals (pf_nodepos g))" using src [OF m(2)] by blast
    have "f = g" by (rule recovery_members(3) [OF f(1) g(1) test_proposals_disjoint [OF f(3) g(3)]])
    with f(2) g(2) show "fst p = fst p'" by simp
  qed
  show "snd ` set (proposals_of es) \<subseteq> set (all_proposals recovery_flags)"
    using src by (fastforce simp: all_proposals_def)
qed

lemma all_proposals_distinct: "distinct (all_proposals recovery_flags)"
  "length (all_proposals recovery_flags) = 3 * test_N"
proof -
  have "length (test_proposals p) = test_N" for p by (simp add: test_proposals_def)
  then show "length (all_proposals recovery_flags) = 3 * test_N" by (simp add: all_proposals_def recovery_flags_def)
  have "set (test_proposals p) \<inter> set (test_proposals q) = {}" if "p \<noteq> q" for p q
    using test_proposals_disjoint that by blast
  then show "distinct (all_proposals recovery_flags)"
    by (simp add: all_proposals_def recovery_flags_def distinct_test_proposals Int_Un_distrib)
qed

text \<open>C40: The three programs of the script test\_paxos\_recovery.sh: however the network orders and loses
  packets, when the third node starts and where a program stops, no client is given a command
  twice or one that nobody proposed; each keeps exactly what its node delivered, in order, and
  logs one line for each command. It prints its history at most once: when it has been given
  the ninetieth command, and then every command of every program is in what it prints.\<close>

theorem testpaxos_history:
  assumes run: "run net_step (init_net recovery_hosts 2) es = Some s"
    and progs: "programs_propose recovery_flags es" and f: "f \<in> set recovery_flags"
    and listen: "listen ('':'' @ Itoa (pf_port f)) = Some p"
  shows "\<exists>tc lp cmds. testpaxos_main listen f = Serving [''Libpaxos''] (tc, lp, test_proposals (pf_nodepos f)) \<and>
    cmds = delivered s (localhost (pf_port f)) \<and>
    distinct cmds \<and> set cmds \<subseteq> set (all_proposals recovery_flags) \<and>
    client_run tc cmds = (tc\<lparr>tc_history := entries cmds\<rparr>,
      responses tc cmds @ (if length cmds = 3 * test_N then history_lines tc cmds else [])) \<and>
    (length cmds = 3 * test_N \<longleftrightarrow> set cmds = set (all_proposals recovery_flags))"
proof -
  let ?d = "localhost (pf_port f)"
  let ?tc = "\<lparr>tc_rep = Itoa (pf_port f), tc_history = []\<rparr>"
  let ?all = "all_proposals recovery_flags"
  have d: "?d \<in> set recovery_hosts" by (rule recovery_members(1) [OF f])
  have "dom (procs s) = set recovery_hosts"
    using reachable_inv [OF cluster_recovery run] by (simp add: net_inv_def)
  with d obtain lq where lq: "procs s ?d = Some lq" by blast
  have "\<forall>(x, v) \<in> set (proposals_of es). \<not> sublist ''$$'' v"
    using recovery_proposed [OF run progs] test_proposals_plain by blast
  from delivered_at_most_once [OF cluster_recovery run lq this]
  have sub: "mset (delivered s ?d) \<subseteq># mset (map snd (proposals_of es))" .
  note dist = recovery_distinct [OF run progs]
  have distinct: "distinct (delivered s ?d)"
    by (rule distinct_submset [OF sub dist(1)])
  have within: "set (delivered s ?d) \<subseteq> set ?all"
    using set_mset_mono [OF sub] dist(2) by auto
  have card: "length (delivered s ?d) = card (set (delivered s ?d))" "card (set ?all) = 3 * test_N"
    using distinct distinct_card [OF all_proposals_distinct(1)] all_proposals_distinct(2) by (simp_all add: distinct_card)
  have len: "length (delivered s ?d) \<le> 3 * test_N"
    unfolding card(1) card(2) [symmetric] by (rule card_mono [OF _ within]) simp
  have full: "length (delivered s ?d) = 3 * test_N \<longleftrightarrow> set (delivered s ?d) = set ?all"
    unfolding card(1) card(2) [symmetric] by (metis card_subset_eq List.finite_set within)
  from recovery_nodes [of f listen, OF f listen] obtain lp where
    main: "testpaxos_main listen f = Serving [''Libpaxos''] (?tc, lp, test_proposals (pf_nodepos f))" by blast
  have client: "client_run ?tc (delivered s ?d) = (?tc\<lparr>tc_history := entries (delivered s ?d)\<rparr>,
      responses ?tc (delivered s ?d) @
        (if length (delivered s ?d) = 3 * test_N then history_lines ?tc (delivered s ?d) else []))"
    using client_run_result [OF len, of ?tc] by simp
  show ?thesis
    by (intro exI conjI) (rule main refl distinct within client full)+
qed

text \<open>The first program proposes its first command, and every packet is delivered.\<close>

definition recovery_run :: "net_event list" where
  "recovery_run = Propose ''localhost:7000'' ''(value 1 1)'' # replicate 34 (Deliver 0)"

theorem testpaxos_history_witness:
  "\<exists>s cmds. run net_step (init_net recovery_hosts 2) recovery_run = Some s \<and>
     delivered s ''localhost:9000'' = [''(value 1 1)''] \<and>
     cmds = delivered s ''localhost:9000'' \<and> distinct cmds \<and> set cmds \<subseteq> set (all_proposals recovery_flags)"
proof -
  have "map_option (\<lambda>s. delivered s ''localhost:9000'') (run net_step (init_net recovery_hosts 2) recovery_run) =
      Some [''(value 1 1)'']"
    by code_simp
  then obtain s where s: "run net_step (init_net recovery_hosts 2) recovery_run = Some s"
    "delivered s ''localhost:9000'' = [''(value 1 1)'']" by auto
  have p: "proposals_of recovery_run = [(''localhost:7000'', ''(value 1 1)'')]" by code_simp
  have "test_proposals 1 = ''(value 1 1)'' # tl (test_proposals 1)" by code_simp
  then have "prefix [''(value 1 1)''] (test_proposals 1)" by (metis append_Cons append_Nil prefixI)
  then have progs: "programs_propose recovery_flags recovery_run"
    by (simp add: programs_propose_def p recovery_flags_def recovery_literals)
  have f: "recovery_flags ! 2 \<in> set recovery_flags" "localhost (pf_port (recovery_flags ! 2)) = ''localhost:9000''"
    by (simp_all add: recovery_flags_def recovery_literals)
  from testpaxos_history [OF s(1) progs f(1), of "\<lambda>_. Some 9000"] s show ?thesis unfolding f(2) by auto
qed

end
