(* ===== verification/Lsplog.thy ===== *)
theory Lsplog
  imports Main
begin

section \<open>Logging and error values (official/lsplog/lsplog.go)\<close>

text \<open>
  Every part of the program reports an error with \<open>CheckReport\<close>, which answers whether there is one
  and logs it when its level is within the verbosity, and makes its own errors with \<open>MakeErr\<close>. An
  \<open>error\<close> that is nil is \<open>None\<close>. The verbosity is a variable of the package, here an argument; a
  function that logs gives the lines. In the other theories an error is a branch of the result,
  and what is logged is left out.
\<close>

record LspErr =
  msg :: string

definition LspErr_Error :: "LspErr \<Rightarrow> string" where
  "LspErr_Error e = msg e"

definition MakeErr :: "string \<Rightarrow> LspErr" where
  "MakeErr m = \<lparr>msg = m\<rparr>"

definition NotImplemented :: "string \<Rightarrow> LspErr" where
  "NotImplemented name = MakeErr (''Not implemented: '' @ name)"

definition ConnectionClosed :: LspErr where
  "ConnectionClosed = MakeErr ''Connection closed''"

definition initial_verbosity :: int where
  "initial_verbosity = 0"

definition SetVerbose :: "int \<Rightarrow> int \<Rightarrow> int" where
  "SetVerbose verbosity level = level"

text \<open>\<open>line\<close> is the formatted message.\<close>

definition Vlogf :: "int \<Rightarrow> int \<Rightarrow> string \<Rightarrow> string list" where
  "Vlogf verbosity level line = (if level \<le> verbosity then [line] else [])"

definition CheckReport :: "int \<Rightarrow> int \<Rightarrow> LspErr option \<Rightarrow> bool \<times> string list" where
  "CheckReport verbosity level err =
     (case err of
        None \<Rightarrow> (False, [])
      | Some e \<Rightarrow> (True, Vlogf verbosity level (''Error: '' @ LspErr_Error e)))"

text \<open>The program goes on, or ends with a line.\<close>

definition CheckFatal :: "LspErr option \<Rightarrow> unit + string" where
  "CheckFatal err =
     (case err of
        None \<Rightarrow> Inl ()
      | Some e \<Rightarrow> Inr (''Fatal: '' @ LspErr_Error e))"

subsection \<open>Comparison of errors\<close>

text \<open>
  \<open>strings.EqualFold\<close> with an ASCII string on the right: letters are equal up to case, and the bytes
  of the long s and of the Kelvin sign, which fold to s and k, are equal to these.
\<close>

definition ascii_lower :: "char \<Rightarrow> char" where
  "ascii_lower c = (let n = of_char c :: nat in if 65 \<le> n \<and> n \<le> 90 then char_of (n + 32) else c)"

definition folded_bytes :: "char \<Rightarrow> nat list" where
  "folded_bytes c =
     (if ascii_lower c = CHR ''s'' then [197, 191]
      else if ascii_lower c = CHR ''k'' then [226, 132, 170] else [])"

fun EqualFold :: "string \<Rightarrow> string \<Rightarrow> bool" where
  "EqualFold s [] = (s = [])"
| "EqualFold s (c # t) =
     ((s \<noteq> [] \<and> ascii_lower (hd s) = ascii_lower c \<and> EqualFold (tl s) t) \<or>
      (let f = folded_bytes c in
       f \<noteq> [] \<and> map of_char (take (length f) s) = f \<and> EqualFold (drop (length f) s) t))"

definition ErrClosed :: "LspErr option \<Rightarrow> bool" where
  "ErrClosed err =
     (case err of None \<Rightarrow> False | Some e \<Rightarrow> EqualFold (LspErr_Error e) ''Connection closed'')"

lemma EqualFold_refl: "EqualFold s s"
  by (induction s) simp_all

lemma EqualFold_head:
  "folded_bytes c = [] \<Longrightarrow> ascii_lower x \<noteq> ascii_lower c \<Longrightarrow> \<not> EqualFold (x # s) (c # t)"
  by simp

lemma EqualFold_bytes:
  assumes "list_all (\<lambda>c. (of_char c :: nat) < 128) s"
  shows "EqualFold s t \<longleftrightarrow> map ascii_lower s = map ascii_lower t"
  using assms
proof (induction s t rule: EqualFold.induct)
  case (2 s c t)
  have "\<not> (let f = folded_bytes c in f \<noteq> [] \<and> map of_char (take (length f) s) = f \<and> EqualFold (drop (length f) s) t)"
    using 2(3) by (cases s) (auto simp: folded_bytes_def Let_def)
  with 2 show ?case by (cases s) auto
qed simp

text \<open>An error is reported whatever the verbosity; it is logged only at a level within it.\<close>

lemma CheckReport_reports: "fst (CheckReport verbosity level err) \<longleftrightarrow> err \<noteq> None"
  by (simp add: CheckReport_def split: option.split)

lemma CheckReport_silent:
  "snd (CheckReport verbosity level err) \<noteq> [] \<longleftrightarrow> err \<noteq> None \<and> level \<le> verbosity"
  by (simp add: CheckReport_def Vlogf_def split: option.split)

text \<open>A closed connection is recognised, an operation that is not implemented is none.\<close>

lemma ErrClosed_ConnectionClosed: "ErrClosed (Some ConnectionClosed)"
  by (simp add: ErrClosed_def ConnectionClosed_def LspErr_Error_def MakeErr_def EqualFold_refl del: EqualFold.simps)

lemma ErrClosed_NotImplemented: "\<not> ErrClosed (Some (NotImplemented name))"
proof -
  have "folded_bytes CHR ''C'' = []" "ascii_lower CHR ''N'' \<noteq> ascii_lower CHR ''C''"
    by code_simp+
  from EqualFold_head [OF this] show ?thesis
    by (simp add: ErrClosed_def NotImplemented_def LspErr_Error_def MakeErr_def del: EqualFold.simps)
qed

end
