(* ===== verification/Spec2Isabelle.thy ===== *)
theory Spec2Isabelle
  imports Replicated_Airline Agency_Properties Trib_Client Proxy_Counter Booking_Outcome
    Storage_Test_Verdicts Storage_Calls Test_Paxos Lsplog
begin

text \<open>
  \<^bold>\<open>Verification development for the airline booking system\<close>

  \<^bold>\<open>The program.\<close> Users book flights at travel agencies. An agency server (tribimpl) keeps its users and
  their bookings in a storage ring of its own (storageimpl, reached through libstore, with
  leases and a client cache) and finds the airlines through a master storage server (libconn).
  An airline is a group of servers (airlineimpl), each with a copy of its flights, that agree on
  the order of all requests with Paxos (libpaxos). A booking at several airlines is one
  two-phase commit: the agency's transaction manager (tranlayer) sends prepares, collects votes
  and sends the decision; the store handler of an airline is the participant. libairline turns
  the flights of a booking into orders, runclient is the command line, proxycounter a counting
  proxy in front of a storage server.

  \<^bold>\<open>How the code is modelled.\<close> Every goroutine that owns its state by serving a channel is a
  function from its state and a request to a new state and a list of effects (replies on
  channels, remote calls, timers). The result \<open>None\<close> is a panic, a send that blocks for ever, or
  a loop that does not end; so a theorem that a handler returns \<open>Some\<close> is a theorem about
  termination. Remote calls, dialling, clocks and JSON are parameters. Go maps that are ranged
  over or measured are association lists in insertion order, other maps are HOL maps. Integers
  are \<open>int\<close>, 32 bit words for hashes, node identifiers and counters, and for the free slots of a
  flight, where arithmetic of a booking can overflow, \<open>int\<close> with the 64 bit wrap-around of Go
  (\<open>go_int\<close>). Pointer structures (the
  buffer and the hash list) have cells and addresses.

  \<^bold>\<open>Theories.\<close>
  \<^item> Prelude: Go maps; runs of machines; the locales \<open>invariant_machine\<close> (an invariant of every
    reachable state) and \<open>refining_machine\<close> (a machine with replies that implements a simpler
    one). Go\_Strings: \<open>strings.Split\<close>, \<open>Itoa\<close>, \<open>Atoi\<close>, joining, and their round trips.
  \<^item> Bufi (official/bufi/bufi.go): cells and pointers; locale \<open>fifo\<close>, interpreted on the code.
  \<^item> Paxos\_Msg, Acceptor, Coordinator, Learner, Libpaxos (contrib/libpaxos): messages, the three
    roles with one function \<open>operate\<close> each, the node with \<open>handleOperate\<close> and \<open>ProposeCommand\<close>.
    Paxos\_Net: nodes and packets in flight that are delivered in any order or lost, with the
    invariant \<open>net_inv\<close>. Paxos\_Safety: what is learnt was chosen by a quorum, a node executes its
    log without gaps, handlers never panic; a run in which two nodes commit different values; when
    quorums intersect.
  \<^item> Protos (airlineproto, tranlayerproto, transaction, tribproto): records and constants, the
    range and wrap-around of Go's \<open>int\<close>.
  \<^item> Airline (contrib/airlineimpl/airlineimpl.go, participant.go): the store handler, invariant
    \<open>air_inv\<close>. Airline\_Spec: an abstract table of seats, holds and decisions; refinement; replicas
    that serve the same requests. Airline\_Properties: accounting modulo the range of an \<open>int\<close>, no
    overbooking while the numbers fit, votes, listings, locks that are never released. Airline\_Paxos (paxos.go and the Paxos functions of
    airlineimpl.go): framing of requests as commands and back. Replicated\_Airline: the airline
    servers on their Paxos nodes, each with its own network to the transaction managers.
  \<^item> Tran\_Layer (contrib/tranlayer): the transaction manager, votes counted once. Two\_Phase: one
    manager and its airlines with messages that are reordered or lost, invariant
    \<open>two_phase_inv\<close>. Booking: atomicity without expiry, answers to clients, a run in which the
    expiry timer breaks atomicity, a booking that succeeds. Booking\_Outcome: one booking at any
    number of airlines with its messages in any order, which ends in a bounded number of steps
    with the outcome that the airlines allow, if no message is lost and no timer fires before.
  \<^item> Hash\_List (contrib/storageimpl/hashlist.go): locale \<open>string_set\<close>, interpreted on the doubly
    linked list. Storage (storageimpl.go, \<open>appHandler\<close> and \<open>leaseTimer\<close>): values, leases, bans,
    deferred writes. Storage\_Spec: a plain map of strings and lists, \<open>storage_inv\<close>, one request
    refines it. Storage\_Properties: over runs, linearizable answers, leases protect values,
    deferred writes are answered once the leases are given back, nothing blocks. Storage\_Ring (storageproto, Storehash, the
    routing loops): FNV-1 on words, the owner of a hash. Storage\_Server: registration, and the
    remote calls as the requests they send and what they make of the answers. Storage\_Rpc
    (storagerpc): the adapter, calls by name, whole remote calls on server and handler.
    Storage\_Calls: no assertion of a remote call on the type of an answer fails.
  \<^item> Storage\_Test (official/storagetest): the conformance tests as goroutines.
    Storage\_Test\_Run: a world of goroutines, a server with its handler and lease timers, a
    clock and a network with latency. Storage\_Test\_Verdicts: the server passes all of them.
  \<^item> Libstore (contrib/libstore): cache handler, query counts, the client's own copy of the routing
    loops, the five operations. Lease\_Net: servers, clients, clock and timers, with a read and a
    revocation as one event each; the invariant \<open>coherent\<close>: what a cache would answer is under a
    lease that outlives it and is what the server has. Read\_Steps: a read in its four steps and a
    revocation in its two, interleaved with everything else; \<open>coherent\<close> as long as no reply is
    taken that was overtaken (\<open>undisturbed\<close>). Kv\_Store: the locale \<open>kv_store\<close>, the laws of a
    key-value store, interpreted on a client of the ring. Store\_Properties: routing, current
    reads, reads after writes, runs in which an overtaken read is stale.
  \<^item> Libairline (contrib/libconn, contrib/libairline): registration, look-up of servers, the
    orders of a booking. Tribserver (contrib/tribimpl): the agency server over any store and any
    airlines. Agency\_Spec: the directory of bookings, and the refinement proved inside
    \<open>kv_store\<close>. Agency\_Properties: the refinement over the ring; agency, ring, manager and
    airlines in one run.
  \<^item> Trib\_Client (official/tribclient, official/runclient), Proxy\_Counter (official/proxycounter).
  \<^item> Rpc\_Adapters (airlinerpc, tranrpc, cacherpc): interfaces, adapters, dispatch; every call of an
    airline is answered once. Server\_Programs (airlineserver, tribserver, storageserver): the
    \<open>main\<close> functions with their flags; airline servers that are cut off by the default of their
    flag, and one that serves with its own address.
  \<^item> Test\_Paxos (contrib/testpaxos): the program that tests a cluster; no command is delivered
    more often than it is proposed. Lsplog (official/lsplog): what is logged, error values.

  \<^bold>\<open>What is assumed.\<close> A packet or call arrives at most once. In Lease\_Net the steps of a read follow
  one another and the reply takes less than the guard time of two seconds; in Read\_Steps this is
  not assumed, and the property that rests on \<open>undisturbed\<close> says so (\<open>lease_on_old_value\<close> and
  \<open>overtaken_reads_stale\<close> show what happens otherwise); clocks run alike. In
  Storage\_Test\_Verdicts a call takes less than a tenth of a second. In Kv\_Store operations of
  clients follow one another. In Two\_Phase every airline has one acting replica; what rests on
  \<open>quiet_step\<close> leaves out the expiry of undecided bookings, and Booking\_Outcome also lost messages
  and other bookings of the manager (\<open>expiry_breaks_atomicity\<close> shows the expiry). Replicas have
  the same store only if they agree on which transaction managers they reach
  (\<open>replicas_diverge\<close>). The Paxos
  theorems hold for any number of nodes, quorum and order of packets; agreement between nodes
  does not hold for this code (\<open>paxos_agreement_fails\<close>), so what rests on it has it as a
  hypothesis.

  \<^bold>\<open>Bounds.\<close> Loops over lists are structural. The loop of \<open>newProposalNumber\<close> and the polling loop
  of \<open>expireTrans\<close> are partial functions; the first is proved to return, the second is proved
  to hang. The loops that empty a buffer get the number of its cells as fuel, which is proved
  enough (\<open>buf_contents_bound\<close>). \<open>settle\<close> in Agency\_Properties, which drives one concrete run,
  has four rounds for each airline. The runs of Storage\_Test\_Run have 200 steps, which is enough
  for every test: the verdicts are what is printed when the test is done.

  \<^bold>\<open>Not modelled.\<close> The only code of stressclient is commented out; testserverimpl is a copy of
  storageimpl.go with an unfinished change that does not compile. What is logged is modelled in
  Lsplog, and where a program's output is its result (runclient, storagetest, testpaxos), and left out elsewhere.
  Data races between goroutines that share a map without a lock
  (\<open>oldReplycMap\<close>) are outside the model: every handler step is atomic. Overflow of Go's \<open>int\<close> is
  modelled for the free slots of a flight and nowhere else: command, instance and ballot numbers,
  times and costs are unbounded. The methods that read a counter of the proxy and the exported names of
  libstore-api.go are the fields and functions they stand for.
\<close>

section \<open>The storage server program and its conformance tests\<close>

text \<open>
  The program that is started without a master serves, and the server that it serves passes every
  test of storagetest, over any network that takes less than a tenth of a second each way.
\<close>

lemma standalone_server_conforms:
  assumes "sf_master f = ''''" and "sf_numNodes f \<in> {0, 1}"
    and "p = (if sf_port f = 0 then 9009 else sf_port f)" and "listen ('':'' @ Itoa p) = Some p"
    and "t \<in> set btests" and "latency < 100"
  shows "\<exists>ss app srpc. storageserver_main listen rnd attempts f = Some (Serving [''StorageRPC''] (ss, app, srpc)) \<and>
    tester_on latency 200 ss app (tester_main 2 N myID (\<lambda>name. name = tf_name t)) =
      Some [''Starting '' @ tf_name t @ '':'', ''PASS'', ''Passed (1/1) tests'']"
proof -
  let ?n = "\<lparr>HostPort = localhost p, NodeID = of_nat (sf_nodeID f)\<rparr>"
  let ?ss = "\<lparr>nodeid = of_nat (sf_nodeID f), ss_servers = [?n], numnodes = 1, cntnodes = 1\<rparr>"
  have "tester_on latency 200 ?ss app_init (tester_main 2 N myID (\<lambda>name. name = tf_name t)) =
      Some [''Starting '' @ tf_name t @ '':'', ''PASS'', ''Passed (1/1) tests'']"
    by (rule one_test_printed [OF assms(5,6), of _ ?n]) (simp_all add: untouched_def app_init_def)
  then show ?thesis using storageserver_alone [of f p listen rnd attempts, OF assms(1-4)] by blast
qed

end
